(* ===== verification/Prelude.thy ===== *)
theory Prelude
  imports Main "HOL-Library.AList" "HOL-Library.Char_ord" "HOL-Library.List_Lexorder"
    "HOL-Library.Sublist"
begin

text \<open>
  What every component shares: the association lists that stand for Go maps the code iterates
  over, Go's 64-bit integers, the functions of the packages \<open>strings\<close>, \<open>strconv\<close> and \<open>net\<close> the
  program calls, and the lemmas about them.  Strings are lists of bytes and \<open>\<le>\<close> on them is
  Go's bytewise order.
\<close>

named_theorems fmt_simps \<open>injectivity of the formatted map keys\<close>
named_theorems inv_intros \<open>operations preserve their component's invariant\<close>

section \<open>Maps that are iterated\<close>

text \<open>
  A Go map whose entries the code enumerates is an association list with distinct keys; the list
  order stands for the (unspecified) iteration order.  Maps that are only looked up are functions
  \<open>'k \<rightharpoonup> 'v\<close>.
\<close>

type_synonym ('k, 'v) gomap = "('k \<times> 'v) list"

abbreviation put_key :: "'k \<Rightarrow> 'v \<Rightarrow> ('k, 'v) gomap \<Rightarrow> ('k, 'v) gomap" where
  "put_key \<equiv> AList.update"

abbreviation wf_map :: "('k, 'v) gomap \<Rightarrow> bool" where
  "wf_map m \<equiv> distinct (map fst m)"

lemma map_of_put_key [simp]: "map_of (put_key k v m) = (map_of m)(k \<mapsto> v)"
  by (rule update_conv')

lemma wf_put_key [simp, inv_intros]: "wf_map m \<Longrightarrow> wf_map (put_key k v m)"
  by (rule distinct_update)

lemma wf_map_Nil [simp, inv_intros]: "wf_map []"
  by simp

lemma filter_wf_map:
  "wf_map m \<Longrightarrow> filter (\<lambda>p. fst p = k) m = (case map_of m k of None \<Rightarrow> [] | Some v \<Rightarrow> [(k, v)])"
  by (induction m) (auto simp: filter_empty_conv map_of_eq_None_iff image_iff split: option.splits)

section \<open>64-bit integers\<close>

text \<open>The value of an \<open>int64\<close> computation: two's complement wrap-around.\<close>

definition wrap64 :: "int \<Rightarrow> int" where
  "wrap64 n = (n + 2 ^ 63) mod 2 ^ 64 - 2 ^ 63"

definition min_int64 :: int where "min_int64 = - (2 ^ 63)"
definition max_int64 :: int where "max_int64 = 2 ^ 63 - 1"

definition is_int64 :: "int \<Rightarrow> bool" where
  "is_int64 n \<longleftrightarrow> min_int64 \<le> n \<and> n \<le> max_int64"

lemma wrap64_id [simp]: "is_int64 n \<Longrightarrow> wrap64 n = n"
  by (simp add: wrap64_def is_int64_def min_int64_def max_int64_def)

lemma is_int64_wrap64 [simp]: "is_int64 (wrap64 n)"
proof -
  have "- (2 ^ 63) \<le> m - 2 ^ 63 \<and> m - 2 ^ 63 \<le> 2 ^ 63 - 1" if "0 \<le> m" "m < 2 ^ 64" for m :: int
    using that by simp
  then show ?thesis
    by (simp add: wrap64_def is_int64_def min_int64_def max_int64_def)
qed

text \<open>Go's \<open>%\<close> truncates towards zero: the remainder has the sign of the dividend.\<close>

definition go_rem :: "int \<Rightarrow> int \<Rightarrow> int" where
  "go_rem a b = sgn a * (\<bar>a\<bar> mod \<bar>b\<bar>)"

lemma go_rem_nonneg [simp]: "0 \<le> a \<Longrightarrow> 0 < b \<Longrightarrow> go_rem a b = a mod b"
  by (cases "a = 0") (simp_all add: go_rem_def)

text \<open>The idiom \<open>((a % b) + b) % b\<close> is the mathematical modulus.\<close>

lemma go_rem_wrap:
  assumes "0 < b"
  shows "go_rem (go_rem a b + b) b = a mod b"
proof -
  have "0 \<le> a \<Longrightarrow> 0 \<le> go_rem a b" "a < 0 \<Longrightarrow> go_rem a b = - (- a mod b)"
    using assms by (simp_all add: go_rem_def sgn_if)
  moreover have "- a mod b < b" using assms by simp
  ultimately have "- b < go_rem a b"
    using assms by (cases "0 \<le> a") linarith+
  then have "go_rem (go_rem a b + b) b = (go_rem a b + b) mod b"
    using assms by simp
  also have "\<dots> = a mod b"
    using assms by (cases "0 \<le> a") (auto simp: go_rem_def sgn_if mod_minus_eq)
  finally show ?thesis .
qed

text \<open>The last \<open>c\<close> elements.\<close>

definition take_last :: "nat \<Rightarrow> 'a list \<Rightarrow> 'a list" where
  "take_last c xs = drop (length xs - c) xs"

lemma length_take_last [simp]: "length (take_last c xs) = min c (length xs)"
  by (simp add: take_last_def)

lemma take_last_all [simp]: "length xs \<le> c \<Longrightarrow> take_last c xs = xs"
  by (simp add: take_last_def)

lemma take_last_rev: "take_last c xs = rev (take c (rev xs))"
  by (simp add: take_last_def rev_take)

lemma take_last_eq_Nil [simp]: "take_last c xs = [] \<longleftrightarrow> c = 0 \<or> xs = []"
  by (simp add: take_last_rev)

lemma last_take_last [simp]: "0 < c \<Longrightarrow> xs \<noteq> [] \<Longrightarrow> last (take_last c xs) = last xs"
  by (simp add: take_last_rev last_rev hd_rev)

lemma take_last_append: "take_last c (take_last c xs @ ys) = take_last c (xs @ ys)"
  by (simp add: take_last_rev min_def)

lemma take_last_take_last: "m \<le> n \<Longrightarrow> take_last m (take_last n xs) = take_last m xs"
  by (simp add: take_last_rev min_def)

section \<open>Package strings\<close>

abbreviation has_prefix :: "string \<Rightarrow> string \<Rightarrow> bool" where
  "has_prefix s p \<equiv> prefix p s"

abbreviation has_suffix :: "string \<Rightarrow> string \<Rightarrow> bool" where
  "has_suffix s p \<equiv> suffix p s"

definition cut_prefix :: "string \<Rightarrow> string \<Rightarrow> string option" where
  "cut_prefix s p = (if prefix p s then Some (drop (length p) s) else None)"

definition cut_suffix :: "string \<Rightarrow> string \<Rightarrow> string option" where
  "cut_suffix s p = (if suffix p s then Some (take (length s - length p) s) else None)"

definition trim_prefix :: "string \<Rightarrow> string \<Rightarrow> string" where
  "trim_prefix s p = (case cut_prefix s p of Some r \<Rightarrow> r | None \<Rightarrow> s)"

definition trim_suffix :: "string \<Rightarrow> string \<Rightarrow> string" where
  "trim_suffix s p = (case cut_suffix s p of Some r \<Rightarrow> r | None \<Rightarrow> s)"

lemma cut_prefix_append [simp]: "cut_prefix (p @ s) p = Some s"
  by (simp add: cut_prefix_def)

lemma cut_suffix_append [simp]: "cut_suffix (s @ p) p = Some s"
  by (simp add: cut_suffix_def suffix_def)

lemma trim_prefix_append [simp]: "trim_prefix (p @ s) p = s"
  by (simp add: trim_prefix_def)

lemma cut_prefix_Some: "cut_prefix s p = Some r \<longleftrightarrow> s = p @ r"
  by (auto simp: cut_prefix_def prefix_def)

lemma cut_suffix_Some: "cut_suffix s p = Some r \<longleftrightarrow> s = r @ p"
  by (auto simp: cut_suffix_def suffix_def)

text \<open>\<open>strings.Split\<close> by a one-byte separator: never empty, separators dropped.\<close>

fun split_on :: "char \<Rightarrow> string \<Rightarrow> string list" where
  "split_on c [] = [[]]"
| "split_on c (x # xs) =
     (if x = c then [] # split_on c xs
      else (case split_on c xs of [] \<Rightarrow> [[x]] | l # ls \<Rightarrow> (x # l) # ls))"

text \<open>ASCII white space, as \<open>strings.Fields\<close> and \<open>strings.TrimSpace\<close> see it in birdc output.\<close>

definition is_space :: "char \<Rightarrow> bool" where
  "is_space c \<longleftrightarrow> of_char c \<in> {9, 10, 11, 12, 13, 32 :: nat}"

fun str_fields_aux :: "string \<Rightarrow> string \<Rightarrow> string list" where
  "str_fields_aux acc [] = (if acc = [] then [] else [rev acc])"
| "str_fields_aux acc (x # xs) =
     (if is_space x then (if acc = [] then str_fields_aux [] xs else rev acc # str_fields_aux [] xs)
      else str_fields_aux (x # acc) xs)"

definition str_fields :: "string \<Rightarrow> string list" where
  "str_fields s = str_fields_aux [] s"

definition trim_space :: "string \<Rightarrow> string" where
  "trim_space s = rev (dropWhile is_space (rev (dropWhile is_space s)))"

text \<open>\<open>strings.IndexByte\<close> and \<open>strings.LastIndexByte\<close>; \<open>None\<close> for Go's \<open>-1\<close>.\<close>

fun index_byte :: "char \<Rightarrow> string \<Rightarrow> nat option" where
  "index_byte c [] = None"
| "index_byte c (x # xs) = (if x = c then Some 0 else map_option Suc (index_byte c xs))"

definition last_index_byte :: "char \<Rightarrow> string \<Rightarrow> nat option" where
  "last_index_byte c s = map_option (\<lambda>i. length s - 1 - i) (index_byte c (rev s))"

lemma index_byte_None [simp]: "index_byte c s = None \<longleftrightarrow> c \<notin> set s"
  by (induction s) auto

lemma index_byte_append: "c \<notin> set s \<Longrightarrow> index_byte c (s @ c # t) = Some (length s)"
  by (induction s) auto

lemma last_index_byte_None [simp]: "last_index_byte c s = None \<longleftrightarrow> c \<notin> set s"
  by (simp add: last_index_byte_def)

lemma last_index_byte_append: "c \<notin> set t \<Longrightarrow> last_index_byte c (s @ c # t) = Some (length s)"
  using index_byte_append [of c "rev t" "rev s"] by (simp add: last_index_byte_def)

lemma split_on_nonempty [simp]: "split_on c s \<noteq> []"
  by (cases s) (auto split: list.splits)

lemma split_on_no_sep: "c \<notin> set s \<Longrightarrow> split_on c s = [s]"
  by (induction s) auto

lemma split_on_append: "c \<notin> set s \<Longrightarrow> split_on c (s @ c # t) = s # split_on c t"
  by (induction s) auto

section \<open>Package strconv\<close>

definition digit_char :: "nat \<Rightarrow> char" where "digit_char d = char_of (48 + d)"
definition digit_val :: "char \<Rightarrow> nat" where "digit_val c = of_char c - 48"
definition is_digit :: "char \<Rightarrow> bool" where
  "is_digit c \<longleftrightarrow> 48 \<le> (of_char c :: nat) \<and> of_char c \<le> (57 :: nat)"

fun nat_digits :: "nat \<Rightarrow> string" where
  "nat_digits n = (if n < 10 then [digit_char n] else nat_digits (n div 10) @ [digit_char (n mod 10)])"

declare nat_digits.simps [simp del]

definition itoa :: "int \<Rightarrow> string" where
  "itoa n = (if n < 0 then CHR ''-'' # nat_digits (nat (- n)) else nat_digits (nat n))"

definition digits_val :: "string \<Rightarrow> nat" where
  "digits_val s = foldl (\<lambda>acc c. 10 * acc + digit_val c) 0 s"

text \<open>
  \<open>strconv.Atoi\<close>: the value and whether there was no error.  A syntax error yields 0, a range
  error the nearest \<open>int64\<close>.
\<close>

definition atoi_digits :: "bool \<Rightarrow> string \<Rightarrow> int \<times> bool" where
  "atoi_digits neg s =
     (if s = [] \<or> \<not> list_all is_digit s then (0, False)
      else let n = (if neg then - int (digits_val s) else int (digits_val s)) in
        if n < min_int64 then (min_int64, False)
        else if max_int64 < n then (max_int64, False) else (n, True))"

definition atoi_full :: "string \<Rightarrow> int \<times> bool" where
  "atoi_full s = (case s of
     [] \<Rightarrow> (0, False)
   | c # r \<Rightarrow> if c = CHR ''-'' then atoi_digits True r
             else if c = CHR ''+'' then atoi_digits False r else atoi_digits False s)"

definition atoi :: "string \<Rightarrow> int option" where
  "atoi s = (case atoi_full s of (n, ok) \<Rightarrow> if ok then Some n else None)"

lemma of_char_digit [simp]: "d < 10 \<Longrightarrow> of_char (digit_char d) = 48 + d"
  by (simp add: digit_char_def)

lemma is_digit_digit_char [simp]: "d < 10 \<Longrightarrow> is_digit (digit_char d)"
  by (simp add: is_digit_def)

lemma digit_val_digit_char [simp]: "d < 10 \<Longrightarrow> digit_val (digit_char d) = d"
  by (simp add: digit_val_def)

lemma nat_digits_digits: "list_all is_digit (nat_digits n)"
  by (induction n rule: nat_digits.induct) (subst nat_digits.simps, simp)

lemma nat_digits_nonempty [simp]: "nat_digits n \<noteq> []"
  by (subst nat_digits.simps) simp

lemma digits_val_nat_digits [simp]: "digits_val (nat_digits n) = n"
proof (induction n rule: nat_digits.induct)
  case (1 n)
  then show ?case by (subst nat_digits.simps) (auto simp: digits_val_def)
qed

lemma nat_digits_hd: "nat_digits n = c # r \<Longrightarrow> is_digit c"
  using nat_digits_digits [of n] by simp

lemma sign_not_digit [simp]: "\<not> is_digit CHR ''-''" "\<not> is_digit CHR ''+''" "\<not> is_digit CHR ''/''"
  "\<not> is_digit CHR '':''" "\<not> is_digit CHR ''.''"
  by (simp_all add: is_digit_def)

theorem atoi_itoa [simp]:
  assumes "is_int64 n"
  shows "atoi (itoa n) = Some n"
proof (cases "n < 0")
  case True
  have "atoi_digits True (nat_digits (nat (- n))) = (n, True)"
    using assms True nat_digits_digits [of "nat (- n)"]
    by (simp add: atoi_digits_def Let_def is_int64_def)
  with True show ?thesis by (simp add: atoi_def itoa_def atoi_full_def)
next
  case False
  obtain c r where cr: "nat_digits (nat n) = c # r"
    by (cases "nat_digits (nat n)") auto
  have "c \<noteq> CHR ''-''" "c \<noteq> CHR ''+''"
    using nat_digits_hd [OF cr] by auto
  then have "atoi_full (nat_digits (nat n)) = atoi_digits False (nat_digits (nat n))"
    by (simp add: atoi_full_def cr)
  also have "\<dots> = (n, True)"
    using assms False nat_digits_digits [of "nat n"]
    by (simp add: atoi_digits_def Let_def is_int64_def)
  finally show ?thesis using False by (simp add: atoi_def itoa_def)
qed

lemma itoa_chars: "c \<in> set (itoa n) \<Longrightarrow> is_digit c \<or> c = CHR ''-''"
  using nat_digits_digits by (auto simp: itoa_def list_all_iff split: if_splits)

lemma itoa_no_sep [simp]:
  "CHR ''/'' \<notin> set (itoa n)" "CHR '':'' \<notin> set (itoa n)" "CHR ''.'' \<notin> set (itoa n)"
  using itoa_chars sign_not_digit by fastforce+

lemma itoa_inj [simp]: "itoa a = itoa b \<longleftrightarrow> a = b"
proof
  assume eq: "itoa a = itoa b"
  have pos: "nat_digits m = nat_digits n \<Longrightarrow> m = n" for m n
    by (metis digits_val_nat_digits)
  have sep: "nat_digits m \<noteq> CHR ''-'' # r" for m r
    using nat_digits_hd [of m] sign_not_digit by fastforce
  show "a = b"
    using eq by (auto simp: itoa_def sep sep [symmetric] dest!: pos split: if_splits)
qed simp

lemma append_sep_inj:
  assumes "c \<notin> set s" "c \<notin> set t"
  shows "s @ c # u = t @ c # v \<longleftrightarrow> s = t \<and> u = v"
  using assms
proof (induction s arbitrary: t)
  case Nil
  then show ?case by (cases t) auto
next
  case (Cons x s)
  then show ?case by (cases t) auto
qed

lemma itoa_sep_inj [fmt_simps]:
  "itoa a @ CHR ''/'' # s = itoa b @ CHR ''/'' # t \<longleftrightarrow> a = b \<and> s = t"
  "itoa a @ CHR '':'' # s = itoa b @ CHR '':'' # t \<longleftrightarrow> a = b \<and> s = t"
  by (simp_all add: append_sep_inj)

section \<open>Package net\<close>

datatype addr_error = MissingPort | TooManyColons | MissingBracket | UnexpectedOpen | UnexpectedClose

text \<open>\<open>net.SplitHostPort\<close>.\<close>

definition split_host_port :: "string \<Rightarrow> addr_error + (string \<times> string)" where
  "split_host_port hp = (case last_index_byte CHR '':'' hp of
     None \<Rightarrow> Inl MissingPort
   | Some i \<Rightarrow>
      (let finish = (\<lambda>host j k.
         if CHR ''['' \<in> set (drop j hp) then Inl UnexpectedOpen
         else if CHR '']'' \<in> set (drop k hp) then Inl UnexpectedClose
         else Inr (host, drop (i + 1) hp)) in
       if take 1 hp = ''['' then
         (case index_byte CHR '']'' hp of
            None \<Rightarrow> Inl MissingBracket
          | Some e \<Rightarrow>
              if e + 1 = length hp then Inl MissingPort
              else if e + 1 = i then finish (take (e - 1) (drop 1 hp)) 1 (e + 1)
              else if hp ! (e + 1) = CHR '':'' then Inl TooManyColons else Inl MissingPort)
       else if CHR '':'' \<in> set (take i hp) then Inl TooManyColons
       else finish (take i hp) 0 0))"

text \<open>\<open>net.JoinHostPort\<close>: a host with a colon is bracketed.\<close>

definition join_host_port :: "string \<Rightarrow> string \<Rightarrow> string" where
  "join_host_port host port =
     (if CHR '':'' \<in> set host then ''['' @ host @ '']:'' @ port else host @ '':'' @ port)"

abbreviation plain_host :: "string \<Rightarrow> bool" where
  "plain_host s \<equiv> CHR ''['' \<notin> set s \<and> CHR '']'' \<notin> set s"

theorem split_join_host_port:
  assumes "plain_host host" "plain_host port" "CHR '':'' \<notin> set port"
  shows "split_host_port (join_host_port host port) = Inr (host, port)"
proof (cases "CHR '':'' \<in> set host")
  case True
  let ?hp = "CHR ''['' # host @ CHR '']'' # CHR '':'' # port"
  have li: "last_index_byte CHR '':'' ?hp = Some (length host + 2)"
    using last_index_byte_append [of "CHR '':''" port "CHR ''['' # host @ [CHR '']'']"] assms by simp
  have ib: "index_byte CHR '']'' ?hp = Some (length host + 1)"
    using index_byte_append [of "CHR '']''" "CHR ''['' # host"] assms by simp
  show ?thesis
    using True assms by (simp add: split_host_port_def join_host_port_def li ib Let_def del: index_byte.simps)
next
  case False
  have li: "last_index_byte CHR '':'' (host @ CHR '':'' # port) = Some (length host)"
    using assms by (intro last_index_byte_append) simp
  have hd: "take (Suc 0) (host @ CHR '':'' # port) \<noteq> ''[''"
    using assms by (cases host) auto
  show ?thesis
    using False assms hd by (simp add: split_host_port_def join_host_port_def li Let_def)
qed

section \<open>Package net/http\<close>

text \<open>
  What a client sees of one request: the error of building, sending or reading it, or the status
  and the body.
\<close>

type_synonym http_reply = "string + (int \<times> string)"

record http_request =
  rq_method :: string
  rq_url :: string
  rq_body :: "string option"

section \<open>Maps filled by a loop\<close>

text \<open>
  A loop that assigns \<open>g x\<close> under the key \<open>f x\<close>, when there is one, leaves the value of the last
  element with that key.
\<close>

definition fill_map :: "('x \<Rightarrow> 'k option) \<Rightarrow> ('x \<Rightarrow> 'v) \<Rightarrow> ('k \<rightharpoonup> 'v) \<Rightarrow> 'x list \<Rightarrow> ('k \<rightharpoonup> 'v)" where
  "fill_map f g m xs = foldl (\<lambda>m x. case f x of None \<Rightarrow> m | Some k \<Rightarrow> m(k \<mapsto> g x)) m xs"

definition last_with :: "('x \<Rightarrow> 'k option) \<Rightarrow> 'k \<Rightarrow> 'x list \<Rightarrow> 'x option" where
  "last_with f k xs = (let ys = filter (\<lambda>x. f x = Some k) xs in if ys = [] then None else Some (last ys))"

lemma last_with_simps [simp]:
  "last_with f k [] = None"
  "last_with f k (xs @ [x]) = (if f x = Some k then Some x else last_with f k xs)"
  by (auto simp: last_with_def Let_def)

lemma fill_map_last:
  "fill_map f g m xs k = (case last_with f k xs of None \<Rightarrow> m k | Some x \<Rightarrow> Some (g x))"
proof (induction xs rule: rev_induct)
  case (snoc x xs)
  have "fill_map f g m (xs @ [x]) = (case f x of None \<Rightarrow> fill_map f g m xs | Some k \<Rightarrow> (fill_map f g m xs)(k \<mapsto> g x))"
    by (simp add: fill_map_def split: option.splits)
  then show ?case using snoc by (auto split: option.splits)
qed (simp add: fill_map_def)

lemma fill_map_unique:
  assumes "inj_on f (set xs)" "x \<in> set xs" "f x = Some k"
  shows "fill_map f g m xs k = Some (g x)"
proof -
  have "filter (\<lambda>y. f y = Some k) xs \<noteq> []" using assms by (auto simp: filter_empty_conv)
  moreover have "y = x" if "y \<in> set (filter (\<lambda>y. f y = Some k) xs)" for y
    using that assms by (auto simp: inj_on_def)
  ultimately have "last_with f k xs = Some x"
    using last_in_set unfolding last_with_def Let_def by (metis (no_types, lifting))
  then show ?thesis by (simp add: fill_map_last)
qed

lemma last_with_Some: "last_with f k xs = Some x \<Longrightarrow> x \<in> set xs \<and> f x = Some k"
  by (induction xs rule: rev_induct) (auto split: if_splits)

lemma last_with_None: "last_with f k xs = None \<longleftrightarrow> (\<forall>x\<in>set xs. f x \<noteq> Some k)"
  by (induction xs rule: rev_induct) (auto split: if_splits)

lemma last_with_cong:
  "(\<And>x. x \<in> set xs \<Longrightarrow> f x = Some k \<longleftrightarrow> f' x = Some k') \<Longrightarrow> last_with f k xs = last_with f' k' xs"
  by (simp add: last_with_def cong: filter_cong)


section \<open>Character classes\<close>

definition alphanumeric :: "char \<Rightarrow> bool" where
  "alphanumeric c \<longleftrightarrow> (let n = (of_char c :: nat) in 65 \<le> n \<and> n \<le> 90 \<or> 97 \<le> n \<and> n \<le> 122 \<or> 48 \<le> n \<and> n \<le> 57)"

end
