(* ===== verification/FabricTopo.thy ===== *)
theory FabricTopo
  imports Prelude "HOL-Library.Product_Lexorder" "HOL-Library.Multiset"
begin

text \<open>
  \<open>dashboard/backend/internal/topo\<close>: the topology graph, paired from the per-AS
  \<open>topology.json\<close> interface entries.  The decoded files are the input (an association list
  where the code ranges over a JSON object, its order the iteration order Go happens to choose);
  reading and decoding them is the standard library's.
\<close>

section \<open>The graph\<close>

record endpoint =
  e_ia :: string
  e_as :: int
  e_ifid :: string
  e_ip :: string
  e_link_to :: string

record link =
  l_id :: string
  l_type :: string
  l_subnet :: string
  l_a :: endpoint
  l_b :: endpoint

record as_info =
  a_ia :: string
  a_num :: int
  a_core :: bool
  a_mgmt :: string

record graph =
  g_ases :: "as_info list"
  g_links :: "link list"

section \<open>The decoded files\<close>

record iface_conf =
  ic_local :: string
  ic_remote :: string
  ic_isd_as :: string
  ic_link_to :: string

record topology_file =
  tf_isd_as :: string
  tf_control_service :: "(string, string) gomap"
  tf_border_routers :: "(string, (string, iface_conf) gomap) gomap"

record iface_rec =
  ir_as :: int
  ir_ia :: string
  ir_ifid :: string
  ir_link_to :: string
  ir_local :: string
  ir_remote :: string
  ir_host :: string

datatype topo_error = ReadError string | NoTopologyFiles | MalformedIsdAs string | BadAsNumber string
  | NoControlService | BadControlAddr string addr_error | BadUnderlay string addr_error
  | UnexpectedUnderlay string

definition ia_to_num :: "string \<Rightarrow> topo_error + int" where
  "ia_to_num ia = (let parts = split_on CHR ''-'' ia in
     if length parts \<noteq> 2 then Inl (MalformedIsdAs ia)
     else case atoi (parts ! 1) of None \<Rightarrow> Inl (BadAsNumber ia) | Some n \<Rightarrow> Inr n)"

definition first_control_service_host :: "(string, string) gomap \<Rightarrow> topo_error + string" where
  "first_control_service_host cs =
     (if cs = [] then Inl NoControlService
      else let keys = sort (map fst cs); addr = the (map_of cs (hd keys)) in
        case split_host_port addr of Inl e \<Rightarrow> Inl (BadControlAddr addr e) | Inr (host, _) \<Rightarrow> Inr host)"

definition subnet_prefix :: string where "subnet_prefix = ''fd00:fade:''"

text \<open>\<open>strings.Index(rest, "::")\<close>.\<close>

fun index_dcolon :: "string \<Rightarrow> nat option" where
  "index_dcolon (a # b # r) =
     (if a = CHR '':'' \<and> b = CHR '':'' then Some 0 else map_option Suc (index_dcolon (b # r)))"
| "index_dcolon _ = None"

definition subnet_of :: "string \<Rightarrow> topo_error + string" where
  "subnet_of host = (case cut_prefix host subnet_prefix of
     None \<Rightarrow> Inl (UnexpectedUnderlay host)
   | Some rest \<Rightarrow> (case index_dcolon rest of
       None \<Rightarrow> Inl (UnexpectedUnderlay host)
     | Some i \<Rightarrow> Inr (''link '' @ take i rest)))"

definition endpoint_from :: "iface_rec \<Rightarrow> endpoint" where
  "endpoint_from r = \<lparr>e_ia = ir_ia r, e_as = ir_as r, e_ifid = ir_ifid r, e_ip = ir_host r,
     e_link_to = ir_link_to r\<rparr>"

definition load_core_set :: "string list \<Rightarrow> string \<Rightarrow> bool" where
  "load_core_set core ia = (ia \<in> set core)"

section \<open>Load\<close>

text \<open>The inner loops of \<open>Load\<close>: the interfaces of one border router, then of all of one file.\<close>

fun load_ifaces :: "int \<Rightarrow> string \<Rightarrow> (string, iface_conf) gomap \<Rightarrow> topo_error + iface_rec list" where
  "load_ifaces n ia [] = Inr []"
| "load_ifaces n ia ((ifid, ic) # rest) = (case split_host_port (ic_local ic) of
     Inl e \<Rightarrow> Inl (BadUnderlay ifid e)
   | Inr (host, _) \<Rightarrow> (case load_ifaces n ia rest of
       Inl e \<Rightarrow> Inl e
     | Inr rs \<Rightarrow> Inr (\<lparr>ir_as = n, ir_ia = ia, ir_ifid = ifid, ir_link_to = ic_link_to ic,
         ir_local = ic_local ic, ir_remote = ic_remote ic, ir_host = host\<rparr> # rs)))"

fun load_routers ::
  "int \<Rightarrow> string \<Rightarrow> (string, (string, iface_conf) gomap) gomap \<Rightarrow> topo_error + iface_rec list" where
  "load_routers n ia [] = Inr []"
| "load_routers n ia ((_, ifs) # rest) = (case load_ifaces n ia ifs of
     Inl e \<Rightarrow> Inl e
   | Inr rs \<Rightarrow> (case load_routers n ia rest of Inl e \<Rightarrow> Inl e | Inr rs' \<Rightarrow> Inr (rs @ rs')))"

definition load_file :: "(string \<Rightarrow> bool) \<Rightarrow> topology_file \<Rightarrow> topo_error + (as_info \<times> iface_rec list)" where
  "load_file coreSet tf = (case ia_to_num (tf_isd_as tf) of
     Inl e \<Rightarrow> Inl e
   | Inr n \<Rightarrow> (case first_control_service_host (tf_control_service tf) of
       Inl e \<Rightarrow> Inl e
     | Inr mgmt \<Rightarrow> (case load_routers n (tf_isd_as tf) (tf_border_routers tf) of
         Inl e \<Rightarrow> Inl e
       | Inr rs \<Rightarrow> Inr (\<lparr>a_ia = tf_isd_as tf, a_num = n, a_core = coreSet (tf_isd_as tf), a_mgmt = mgmt\<rparr>, rs))))"

fun load_files ::
  "(string \<Rightarrow> bool) \<Rightarrow> (topo_error + topology_file) list \<Rightarrow> topo_error + (as_info list \<times> iface_rec list)" where
  "load_files coreSet [] = Inr ([], [])"
| "load_files coreSet (Inl e # fs) = Inl e"
| "load_files coreSet (Inr tf # fs) = (case load_file coreSet tf of
     Inl e \<Rightarrow> Inl e
   | Inr (a, rs) \<Rightarrow> (case load_files coreSet fs of
       Inl e \<Rightarrow> Inl e | Inr (as, rs') \<Rightarrow> Inr (a # as, rs @ rs')))"

text \<open>The maps \<open>byLocalAddr\<close> and \<open>coreByNum\<close>: a later entry overwrites an earlier one.\<close>

definition by_local_addr :: "iface_rec list \<Rightarrow> string \<rightharpoonup> iface_rec" where
  "by_local_addr recs = foldl (\<lambda>m r. m(ir_local r \<mapsto> r)) Map.empty recs"

definition core_by_num :: "as_info list \<Rightarrow> int \<Rightarrow> bool" where
  "core_by_num ases = foldl (\<lambda>m a. m(a_num a := a_core a)) (\<lambda>_. False) ases"

definition link_type :: "(int \<Rightarrow> bool) \<Rightarrow> iface_rec \<Rightarrow> iface_rec \<Rightarrow> string" where
  "link_type core r c =
     (if core (ir_as r) \<and> core (ir_as c) then ''core''
      else if ir_link_to r = ''peer'' \<or> ir_link_to c = ''peer'' then ''peer'' else ''child'')"

text \<open>The pairing loop.  An interface whose remote end is unknown is logged and dropped; a pair is
  emitted at its lower-numbered AS only.\<close>

fun pair_links ::
  "(string \<rightharpoonup> iface_rec) \<Rightarrow> (int \<Rightarrow> bool) \<Rightarrow> iface_rec list \<Rightarrow> topo_error + link list" where
  "pair_links look core [] = Inr []"
| "pair_links look core (r # rs) = (case look (ir_remote r) of
     None \<Rightarrow> pair_links look core rs
   | Some c \<Rightarrow>
      if ir_as c \<le> ir_as r then pair_links look core rs
      else (case subnet_of (ir_host r) of
         Inl e \<Rightarrow> Inl e
       | Inr subnet \<Rightarrow> (case pair_links look core rs of
           Inl e \<Rightarrow> Inl e
         | Inr ls \<Rightarrow> Inr (\<lparr>l_id = itoa (ir_as r) @ ''-'' @ itoa (ir_as c), l_type = link_type core r c,
             l_subnet = subnet, l_a = endpoint_from r, l_b = endpoint_from c\<rparr> # ls))))"

text \<open>
  \<open>sort.Slice\<close> sorts without stability; elements with equal keys may come out in any order.  The
  model takes the stable order, and no statement below depends on it.
\<close>

definition topo_load ::
  "(topo_error + string list) \<Rightarrow> (topo_error + topology_file) list \<Rightarrow> topo_error + graph" where
  "topo_load as_list files = (case as_list of
     Inl e \<Rightarrow> Inl e
   | Inr core \<Rightarrow>
      if files = [] then Inl NoTopologyFiles
      else (case load_files (load_core_set core) files of
         Inl e \<Rightarrow> Inl e
       | Inr (ases, recs) \<Rightarrow>
          (case pair_links (by_local_addr recs) (core_by_num ases) recs of
             Inl e \<Rightarrow> Inl e
           | Inr links \<Rightarrow> Inr \<lparr>g_ases = sort_key a_num ases,
               g_links = sort_key (\<lambda>l. (e_as (l_a l), e_as (l_b l))) links\<rparr>)))"

section \<open>What a loaded graph satisfies\<close>

text \<open>
  A link's higher-numbered end comes from the record whose local underlay address is the remote
  address of its lower-numbered end.  This is all the code checks: nothing asks that the
  higher-numbered record names the lower one back.
\<close>

definition paired :: "iface_rec list \<Rightarrow> link \<Rightarrow> bool" where
  "paired recs l \<longleftrightarrow> (\<exists>r c. r \<in> set recs \<and> c \<in> set recs \<and> ir_remote r = ir_local c \<and>
     ir_as r < ir_as c \<and> l_a l = endpoint_from r \<and> l_b l = endpoint_from c \<and>
     l_id l = itoa (ir_as r) @ ''-'' @ itoa (ir_as c))"

lemma by_local_addr_Some:
  "by_local_addr recs a = Some c \<Longrightarrow> c \<in> set recs \<and> ir_local c = a"
  unfolding by_local_addr_def
  by (induction recs rule: rev_induct) (auto split: if_splits)

lemma by_local_addr_unique:
  "distinct (map ir_local recs) \<Longrightarrow> c \<in> set recs \<Longrightarrow> by_local_addr recs (ir_local c) = Some c"
  unfolding by_local_addr_def
  by (induction recs rule: rev_induct) (auto simp: image_iff)

lemma pair_links_paired:
  assumes "pair_links look core rs = Inr ls"
    and "\<And>a c. look a = Some c \<Longrightarrow> c \<in> set recs \<and> ir_local c = a"
    and "set rs \<subseteq> set recs"
  shows "\<forall>l \<in> set ls. paired recs l"
  using assms
proof (induction look core rs arbitrary: ls rule: pair_links.induct)
  case (2 look core r rs)
  show ?case
  proof (cases "look (ir_remote r)")
    case None
    with 2 show ?thesis by simp
  next
    case (Some c)
    have c: "c \<in> set recs" "ir_local c = ir_remote r" using "2.prems"(2) Some by blast+
    show ?thesis
    proof (cases "ir_as c \<le> ir_as r")
      case True
      with 2 Some show ?thesis by simp
    next
      case False
      then obtain sn ls' where eq: "subnet_of (ir_host r) = Inr sn" "pair_links look core rs = Inr ls'"
        and ls: "ls = \<lparr>l_id = itoa (ir_as r) @ ''-'' @ itoa (ir_as c), l_type = link_type core r c,
             l_subnet = sn, l_a = endpoint_from r, l_b = endpoint_from c\<rparr> # ls'"
        using "2.prems"(1) Some by (auto split: sum.splits)
      have "\<forall>l \<in> set ls'. paired recs l"
        using "2.IH"(3) [OF Some _ eq(1)] eq(2) "2.prems" False by auto
      moreover have "paired recs (hd ls)"
        unfolding paired_def ls using c False "2.prems"(3) by (intro exI [of _ r] exI [of _ c]) simp
      ultimately show ?thesis by (simp add: ls)
    qed
  qed
qed simp

lemma pair_links_complete:
  assumes "pair_links look core rs = Inr ls" "r \<in> set rs" "look (ir_remote r) = Some c" "ir_as r < ir_as c"
  shows "\<exists>l \<in> set ls. l_a l = endpoint_from r \<and> l_b l = endpoint_from c \<and> l_type l = link_type core r c"
  using assms
  by (induction look core rs arbitrary: ls rule: pair_links.induct)
    (auto split: option.splits sum.splits if_splits)

text \<open>
  What pairing is meant to give, without the maps: the counterpart of a record is the last record
  loaded whose local address is its remote one, and one link goes to each record whose counterpart
  is in a higher-numbered AS.
\<close>

definition counterpart :: "iface_rec list \<Rightarrow> iface_rec \<Rightarrow> iface_rec option" where
  "counterpart recs r = find (\<lambda>c. ir_local c = ir_remote r) (rev recs)"

definition upward_pairs :: "iface_rec list \<Rightarrow> (iface_rec \<times> iface_rec) list" where
  "upward_pairs recs = concat (map (\<lambda>r. case counterpart recs r of
     None \<Rightarrow> [] | Some c \<Rightarrow> if ir_as r < ir_as c then [(r, c)] else []) recs)"

lemma by_local_addr_find: "by_local_addr recs a = find (\<lambda>c. ir_local c = a) (rev recs)"
  unfolding by_local_addr_def by (induction recs rule: rev_induct) auto

lemma pair_links_ends:
  "pair_links look core rs = Inr ls \<Longrightarrow>
   map (\<lambda>l. (l_a l, l_b l, l_type l)) ls =
   map (\<lambda>(r, c). (endpoint_from r, endpoint_from c, link_type core r c))
     (concat (map (\<lambda>r. case look (ir_remote r) of
        None \<Rightarrow> [] | Some c \<Rightarrow> if ir_as r < ir_as c then [(r, c)] else []) rs))"
  by (induction look core rs arbitrary: ls rule: pair_links.induct)
    (auto split: option.splits sum.splits if_splits)

lemma topo_load_cases:
  assumes "topo_load al files = Inr g"
  obtains core ases recs links where
    "al = Inr core" "load_files (load_core_set core) files = Inr (ases, recs)"
    "pair_links (by_local_addr recs) (core_by_num ases) recs = Inr links"
    "g = \<lparr>g_ases = sort_key a_num ases, g_links = sort_key (\<lambda>l. (e_as (l_a l), e_as (l_b l))) links\<rparr>"
  using assms by (auto simp: topo_load_def split: sum.splits if_splits prod.splits)

text \<open>
  C16: Every link of a loaded graph joins an interface record to the record whose local underlay
  address is its remote address, is oriented from the lower to the higher AS number and is named
  after them.  The links are exactly these pairs, each once and with its type: a record without
  counterpart gives no link, one with a counterpart (the last record loaded with that local address) in a
  higher-numbered AS gives one.  Whether that counterpart names the record back is not checked.
  The AS list and the link list are sorted.
\<close>

theorem topo_load_links:
  assumes "topo_load (Inr core) files = Inr g"
    and "load_files (load_core_set core) files = Inr (ases, recs)"
  shows "(\<forall>l \<in> set (g_links g). paired recs l \<and> e_as (l_a l) < e_as (l_b l) \<and>
           l_id l = itoa (e_as (l_a l)) @ ''-'' @ itoa (e_as (l_b l))) \<and>
         sorted (map a_num (g_ases g)) \<and> mset (g_ases g) = mset ases \<and>
         sorted (map (\<lambda>l. (e_as (l_a l), e_as (l_b l))) (g_links g)) \<and>
         mset (map (\<lambda>l. (l_a l, l_b l, l_type l)) (g_links g)) =
         mset (map (\<lambda>(r, c). (endpoint_from r, endpoint_from c, link_type (core_by_num ases) r c))
           (upward_pairs recs))"
proof -
  from assms obtain links where ls: "pair_links (by_local_addr recs) (core_by_num ases) recs = Inr links"
    and g: "g = \<lparr>g_ases = sort_key a_num ases, g_links = sort_key (\<lambda>l. (e_as (l_a l), e_as (l_b l))) links\<rparr>"
    by (elim topo_load_cases) auto
  have "\<forall>l \<in> set links. paired recs l"
    using pair_links_paired [OF ls by_local_addr_Some] by blast
  then have "\<forall>l \<in> set links. paired recs l \<and> e_as (l_a l) < e_as (l_b l) \<and>
      l_id l = itoa (e_as (l_a l)) @ ''-'' @ itoa (e_as (l_b l))"
    by (auto simp: paired_def endpoint_from_def)
  moreover have "mset (map (\<lambda>l. (l_a l, l_b l, l_type l)) links) =
         mset (map (\<lambda>(r, c). (endpoint_from r, endpoint_from c, link_type (core_by_num ases) r c))
           (upward_pairs recs))"
    unfolding pair_links_ends [OF ls] upward_pairs_def counterpart_def by_local_addr_find ..
  ultimately show ?thesis by (simp add: g)
qed

text \<open>
  No link is lost: when the underlay addresses are distinct, every interface of a lower-numbered
  AS whose remote address is an interface of a higher-numbered AS yields a link with exactly these
  two endpoints; it is a core link exactly when both ASes are core, otherwise a peering link exactly
  when one side says so.
\<close>

theorem topo_load_complete:
  assumes "topo_load (Inr core) files = Inr g"
    and "load_files (load_core_set core) files = Inr (ases, recs)"
    and "distinct (map ir_local recs)" "r \<in> set recs" "c \<in> set recs"
    and "ir_remote r = ir_local c" "ir_as r < ir_as c"
  shows "\<exists>l \<in> set (g_links g). l_a l = endpoint_from r \<and> l_b l = endpoint_from c \<and>
    l_type l = link_type (core_by_num ases) r c"
proof -
  from assms(1,2) obtain links where ls: "pair_links (by_local_addr recs) (core_by_num ases) recs = Inr links"
    and g: "g_links g = sort_key (\<lambda>l. (e_as (l_a l), e_as (l_b l))) links"
    by (elim topo_load_cases) auto
  have "by_local_addr recs (ir_remote r) = Some c"
    using assms(3,5,6) by (simp add: by_local_addr_unique)
  from pair_links_complete [OF ls assms(4) this assms(7)] show ?thesis by (simp add: g)
qed

definition ex_file :: "string \<Rightarrow> string \<Rightarrow> string \<Rightarrow> topology_file" where
  "ex_file ia loc rem = \<lparr>tf_isd_as = ia, tf_control_service = [(''cs1'', ''10.20.3.1:30252'')],
     tf_border_routers = [(''br1'', [(''7'', \<lparr>ic_local = loc, ic_remote = rem, ic_isd_as = ''1-0'',
       ic_link_to = ''child''\<rparr>)])]\<rparr>"

definition ex_files :: "(topo_error + topology_file) list" where
  "ex_files = [Inr (ex_file ''1-155'' ''[fd00:fade:9::155]:50000'' ''[fd00:fade:9::151]:50000''),
               Inr (ex_file ''1-151'' ''[fd00:fade:9::151]:50000'' ''[fd00:fade:9::155]:50000'')]"

definition ex_rec :: "int \<Rightarrow> string \<Rightarrow> string \<Rightarrow> string \<Rightarrow> string \<Rightarrow> iface_rec" where
  "ex_rec n ia loc rem host = \<lparr>ir_as = n, ir_ia = ia, ir_ifid = ''7'', ir_link_to = ''child'',
     ir_local = loc, ir_remote = rem, ir_host = host\<rparr>"

definition ex_recs :: "iface_rec list" where
  "ex_recs = [ex_rec 155 ''1-155'' ''[fd00:fade:9::155]:50000'' ''[fd00:fade:9::151]:50000'' ''fd00:fade:9::155'',
              ex_rec 151 ''1-151'' ''[fd00:fade:9::151]:50000'' ''[fd00:fade:9::155]:50000'' ''fd00:fade:9::151'']"

definition ex_ases :: "as_info list" where
  "ex_ases = [\<lparr>a_ia = ''1-155'', a_num = 155, a_core = False, a_mgmt = ''10.20.3.1''\<rparr>,
              \<lparr>a_ia = ''1-151'', a_num = 151, a_core = True, a_mgmt = ''10.20.3.1''\<rparr>]"

lemma ex_load_files: "load_files (load_core_set [''1-151'']) ex_files = Inr (ex_ases, ex_recs)"
  by code_simp

lemma ex_topo_load: "\<exists>g. topo_load (Inr [''1-151'']) ex_files = Inr g"
proof -
  have "\<not> isl (topo_load (Inr [''1-151'']) ex_files)" by code_simp
  then show ?thesis by (metis sum.collapse(2))
qed

text \<open>
  The reverse direction is indeed unchecked.  When only the lower-numbered record names the other,
  the two are linked; when only the higher-numbered one does, there is no link, although the code's
  comment takes the pair to have been emitted at the lower-numbered record.
\<close>

lemma one_sided_linked:
  "(case topo_load (Inr []) [Inr (ex_file ''1-155'' ''[fd00:fade:9::155]:50000'' ''[fd00:fade:8::1]:50000''),
      Inr (ex_file ''1-151'' ''[fd00:fade:9::151]:50000'' ''[fd00:fade:9::155]:50000'')] of
     Inl _ \<Rightarrow> [] | Inr g \<Rightarrow> map l_id (g_links g)) = [''151-155'']"
  by code_simp

lemma one_sided_dropped:
  "(case topo_load (Inr []) [Inr (ex_file ''1-155'' ''[fd00:fade:9::155]:50000'' ''[fd00:fade:9::151]:50000''),
      Inr (ex_file ''1-151'' ''[fd00:fade:9::151]:50000'' ''[fd00:fade:8::1]:50000'')] of
     Inl _ \<Rightarrow> [''error''] | Inr g \<Rightarrow> map l_id (g_links g)) = []"
  by code_simp

theorem topo_load_links_witness:
  "\<exists>g. topo_load (Inr [''1-151'']) ex_files = Inr g \<and>
     (\<forall>l \<in> set (g_links g). paired ex_recs l \<and> e_as (l_a l) < e_as (l_b l))"
proof -
  obtain g where g: "topo_load (Inr [''1-151'']) ex_files = Inr g" using ex_topo_load by blast
  show ?thesis using topo_load_links [OF g ex_load_files] g by blast
qed

theorem topo_load_complete_witness:
  "\<exists>g l. topo_load (Inr [''1-151'']) ex_files = Inr g \<and> l \<in> set (g_links g) \<and>
     l_a l = endpoint_from (ex_recs ! 1) \<and> l_b l = endpoint_from (ex_recs ! 0)"
proof -
  obtain g where g: "topo_load (Inr [''1-151'']) ex_files = Inr g" using ex_topo_load by blast
  have h: "distinct (map ir_local ex_recs)" "ex_recs ! 1 \<in> set ex_recs" "ex_recs ! 0 \<in> set ex_recs"
    "ir_remote (ex_recs ! 1) = ir_local (ex_recs ! 0)" "ir_as (ex_recs ! 1) < ir_as (ex_recs ! 0)"
    by (simp_all add: ex_recs_def ex_rec_def)
  show ?thesis using topo_load_complete [OF g ex_load_files h] g by blast
qed

end
