(* ===== verification/BgpPath.thy ===== *)
theory BgpPath
  imports FabricTopo
begin

text \<open>
  \<open>dashboard/backend/internal/bgppath\<close>: following BIRD's per-AS best routes from a source AS to a
  destination AS.  The routes are whatever the linkds reported, so nothing is assumed of them: the
  walk ends by itself, and it reaches the destination exactly when following the routes does.
\<close>

section \<open>The index and the walk\<close>

record bgp_vm =
  bp_src :: string
  bp_dst :: string
  bp_as_path :: "int list"
  bp_links :: "string list"
  bp_complete :: bool

record hop =
  h_link :: string
  h_peer :: int

type_synonym index = "(string, hop) gomap"
type_synonym routes = "int \<rightharpoonup> (int \<rightharpoonup> string)"

definition bgp_key :: "int \<Rightarrow> string \<Rightarrow> string" where
  "bgp_key as ifid = itoa as @ ''/'' @ ifid"

definition new_index :: "graph \<Rightarrow> index" where
  "new_index g = foldl (\<lambda>idx l.
     put_key (bgp_key (e_as (l_b l)) (e_ifid (l_b l))) \<lparr>h_link = l_id l, h_peer = e_as (l_a l)\<rparr>
       (put_key (bgp_key (e_as (l_a l)) (e_ifid (l_a l))) \<lparr>h_link = l_id l, h_peer = e_as (l_b l)\<rparr> idx))
     [] (g_links g)"

text \<open>One turn of the loop: \<open>routes[cur][dst]\<close>, then the index.\<close>

definition next_hop :: "index \<Rightarrow> routes \<Rightarrow> int \<Rightarrow> int \<Rightarrow> hop option" where
  "next_hop idx rt dst cur = (case rt cur of
     None \<Rightarrow> None
   | Some m \<Rightarrow> (case m dst of None \<Rightarrow> None | Some ifid \<Rightarrow> map_of idx (bgp_key cur ifid)))"

function walk_loop ::
  "index \<Rightarrow> routes \<Rightarrow> int \<Rightarrow> int set \<Rightarrow> int \<Rightarrow> int list \<Rightarrow> string list \<Rightarrow> int list \<times> string list \<times> bool"
where
  "walk_loop idx rt dst visited cur path links =
     (if cur = dst then (path, links, True)
      else (case next_hop idx rt dst cur of
          None \<Rightarrow> (path, links, False)
        | Some h \<Rightarrow>
            if h_peer h \<in> visited then (path, links, False)
            else walk_loop idx rt dst (insert (h_peer h) visited) (h_peer h)
                   (path @ [h_peer h]) (links @ [h_link h])))"
  by pat_completeness auto

lemma next_hop_range: "next_hop idx rt dst cur = Some h \<Longrightarrow> h \<in> snd ` set idx"
  by (force simp: next_hop_def split: option.splits dest: map_of_SomeD)

text \<open>Every turn visits a new AS among the finitely many peers the index names.\<close>

termination walk_loop
proof (relation "measure (\<lambda>(idx, _, _, visited, _). card (h_peer ` snd ` set idx - visited))")
  fix idx rt dst visited cur path links h
  assume h: "next_hop idx rt dst cur = Some h" "h_peer h \<notin> visited"
  have "h_peer h \<in> h_peer ` snd ` set idx" using next_hop_range [OF h(1)] by (rule imageI)
  with h(2) have "h_peer ` snd ` set idx - insert (h_peer h) visited \<subset> h_peer ` snd ` set idx - visited"
    by auto
  then show "((idx, rt, dst, insert (h_peer h) visited, h_peer h, path @ [h_peer h], links @ [h_link h]),
      (idx, rt, dst, visited, cur, path, links)) \<in>
      measure (\<lambda>(idx, _, _, visited, _). card (h_peer ` snd ` set idx - visited))"
    by (simp add: psubset_card_mono)
qed simp

declare walk_loop.simps [simp del]

definition walk :: "index \<Rightarrow> routes \<Rightarrow> int \<Rightarrow> int \<Rightarrow> bgp_vm" where
  "walk idx rt src dst =
     (if src = dst then \<lparr>bp_src = '''', bp_dst = '''', bp_as_path = [src], bp_links = [], bp_complete = True\<rparr>
      else (case walk_loop idx rt dst {src} src [src] [] of (path, links, ok) \<Rightarrow>
        \<lparr>bp_src = '''', bp_dst = '''', bp_as_path = path, bp_links = links, bp_complete = ok\<rparr>))"

lemma walk_is_loop:
  "walk idx rt src dst = (case walk_loop idx rt dst {src} src [src] [] of (path, links, ok) \<Rightarrow>
     \<lparr>bp_src = '''', bp_dst = '''', bp_as_path = path, bp_links = links, bp_complete = ok\<rparr>)"
proof (cases "src = dst")
  case True
  then show ?thesis by (subst walk_loop.simps) (simp add: walk_def)
qed (simp add: walk_def)

section \<open>What the index holds\<close>

lemma new_index_sound:
  assumes "map_of (new_index g) k = Some h"
  shows "\<exists>l \<in> set (g_links g). h_link h = l_id l \<and>
    (k = bgp_key (e_as (l_a l)) (e_ifid (l_a l)) \<and> h_peer h = e_as (l_b l) \<or>
     k = bgp_key (e_as (l_b l)) (e_ifid (l_b l)) \<and> h_peer h = e_as (l_a l))"
proof -
  let ?f = "\<lambda>idx l.
     put_key (bgp_key (e_as (l_b l)) (e_ifid (l_b l))) \<lparr>h_link = l_id l, h_peer = e_as (l_a l)\<rparr>
       (put_key (bgp_key (e_as (l_a l)) (e_ifid (l_a l))) \<lparr>h_link = l_id l, h_peer = e_as (l_b l)\<rparr> idx)"
  have "map_of (foldl ?f [] ls) k = Some h \<Longrightarrow> \<exists>l \<in> set ls. h_link h = l_id l \<and>
    (k = bgp_key (e_as (l_a l)) (e_ifid (l_a l)) \<and> h_peer h = e_as (l_b l) \<or>
     k = bgp_key (e_as (l_b l)) (e_ifid (l_b l)) \<and> h_peer h = e_as (l_a l))" for ls
    by (induction ls rule: rev_induct) (auto split: if_splits)
  with assms show ?thesis by (simp add: new_index_def)
qed

lemma bgp_key_inj [fmt_simps]: "bgp_key a i = bgp_key b j \<longleftrightarrow> a = b \<and> i = j"
  by (simp add: bgp_key_def fmt_simps)

definition joins :: "graph \<Rightarrow> int \<Rightarrow> string \<Rightarrow> int \<Rightarrow> bool" where
  "joins g a i b \<longleftrightarrow> (\<exists>l \<in> set (g_links g). l_id l = i \<and>
     (e_as (l_a l) = a \<and> e_as (l_b l) = b \<or> e_as (l_b l) = a \<and> e_as (l_a l) = b))"

lemma next_hop_joins:
  "next_hop (new_index g) rt dst a = Some h \<Longrightarrow> joins g a (h_link h) (h_peer h)"
  by (fastforce simp: next_hop_def joins_def fmt_simps split: option.splits dest: new_index_sound)

section \<open>Correctness of the walk\<close>

definition route_step :: "index \<Rightarrow> routes \<Rightarrow> int \<Rightarrow> (int \<times> int) set" where
  "route_step idx rt dst = {(a, b). a \<noteq> dst \<and> (\<exists>h. next_hop idx rt dst a = Some h \<and> h_peer h = b)}"

definition hops_ok :: "index \<Rightarrow> routes \<Rightarrow> int \<Rightarrow> int list \<Rightarrow> string list \<Rightarrow> bool" where
  "hops_ok idx rt dst path links \<longleftrightarrow> length path = Suc (length links) \<and> distinct path \<and>
     (\<forall>i < length links. path ! i \<noteq> dst \<and>
        next_hop idx rt dst (path ! i) = Some \<lparr>h_link = links ! i, h_peer = path ! Suc i\<rparr>)"

lemma hops_ok_snoc:
  assumes "hops_ok idx rt dst path links" "last path \<noteq> dst"
    "next_hop idx rt dst (last path) = Some h" "h_peer h \<notin> set path"
  shows "hops_ok idx rt dst (path @ [h_peer h]) (links @ [h_link h])"
proof -
  have len: "length path = Suc (length links)" and ne: "path \<noteq> []"
    using assms(1) by (auto simp: hops_ok_def)
  have "last path = path ! length links" using len ne by (simp add: last_conv_nth)
  then show ?thesis
    using assms by (auto simp: hops_ok_def nth_append less_Suc_eq)
qed

lemma walk_loop_spec:
  assumes "hops_ok idx rt dst path links" "last path = cur" "visited = set path"
    and "walk_loop idx rt dst visited cur path links = (p, ls, ok)"
  shows "hops_ok idx rt dst p ls \<and> prefix path p \<and> (ok \<longleftrightarrow> last p = dst) \<and>
    (\<not> ok \<longrightarrow> (\<forall>h. next_hop idx rt dst (last p) = Some h \<longrightarrow> h_peer h \<in> set p))"
  using assms
proof (induction idx rt dst visited cur path links rule: walk_loop.induct)
  case (1 idx rt dst visited cur path links)
  show ?case
  proof (cases "cur = dst")
    case True
    with 1 show ?thesis by (subst (asm) walk_loop.simps) auto
  next
    case False
    show ?thesis
    proof (cases "next_hop idx rt dst cur")
      case None
      with 1 False show ?thesis by (subst (asm) (2) walk_loop.simps) auto
    next
      case (Some h)
      show ?thesis
      proof (cases "h_peer h \<in> visited")
        case True
        with 1 False Some show ?thesis by (subst (asm) (2) walk_loop.simps) auto
      next
        case fresh: False
        have "walk_loop idx rt dst (insert (h_peer h) visited) (h_peer h)
            (path @ [h_peer h]) (links @ [h_link h]) = (p, ls, ok)"
          using "1.prems"(4) False Some fresh by (subst (asm) walk_loop.simps) simp
        moreover have "hops_ok idx rt dst (path @ [h_peer h]) (links @ [h_link h])"
          using "1.prems" False Some fresh by (intro hops_ok_snoc) auto
        ultimately have "hops_ok idx rt dst p ls \<and> prefix (path @ [h_peer h]) p \<and> (ok \<longleftrightarrow> last p = dst) \<and>
            (\<not> ok \<longrightarrow> (\<forall>h. next_hop idx rt dst (last p) = Some h \<longrightarrow> h_peer h \<in> set p))"
          using "1.IH" [OF False Some fresh] "1.prems"(3) by simp
        then show ?thesis by (auto dest: append_prefixD)
      qed
    qed
  qed
qed

lemma walk_hops:
  assumes "walk idx rt src dst = vm"
  shows "hops_ok idx rt dst (bp_as_path vm) (bp_links vm)" "hd (bp_as_path vm) = src"
    "bp_complete vm \<longleftrightarrow> last (bp_as_path vm) = dst"
    "\<not> bp_complete vm \<Longrightarrow> next_hop idx rt dst (last (bp_as_path vm)) = Some h \<Longrightarrow>
       h_peer h \<in> set (bp_as_path vm)"
proof -
  obtain p ls ok where w: "walk_loop idx rt dst {src} src [src] [] = (p, ls, ok)"
    by (cases "walk_loop idx rt dst {src} src [src] []")
  have "hops_ok idx rt dst [src] []" by (simp add: hops_ok_def)
  from walk_loop_spec [OF this _ _ w] have
    "hops_ok idx rt dst p ls" "prefix [src] p" "ok \<longleftrightarrow> last p = dst"
    "\<not> ok \<longrightarrow> (\<forall>h. next_hop idx rt dst (last p) = Some h \<longrightarrow> h_peer h \<in> set p)" by auto
  moreover have "vm = \<lparr>bp_src = '''', bp_dst = '''', bp_as_path = p, bp_links = ls, bp_complete = ok\<rparr>"
    using assms by (simp add: walk_is_loop w)
  moreover have "hd p = src" using \<open>prefix [src] p\<close> by (auto elim: prefixE)
  ultimately show "hops_ok idx rt dst (bp_as_path vm) (bp_links vm)" "hd (bp_as_path vm) = src"
    "bp_complete vm \<longleftrightarrow> last (bp_as_path vm) = dst"
    "\<not> bp_complete vm \<Longrightarrow> next_hop idx rt dst (last (bp_as_path vm)) = Some h \<Longrightarrow>
       h_peer h \<in> set (bp_as_path vm)" by auto
qed

lemma hops_ok_reach:
  assumes "hops_ok idx rt dst p ls" "i < length p"
  shows "(hd p, p ! i) \<in> (route_step idx rt dst)\<^sup>*"
  using assms(2)
proof (induction i)
  case 0
  then show ?case by (cases p) auto
next
  case (Suc i)
  then have "(p ! i, p ! Suc i) \<in> route_step idx rt dst"
    using assms(1) by (auto simp: hops_ok_def route_step_def)
  with Suc show ?case by simp
qed

lemma hops_ok_closed:
  assumes "hops_ok idx rt dst p ls"
    and "\<And>h. next_hop idx rt dst (last p) = Some h \<Longrightarrow> h_peer h \<in> set p"
    and "a \<in> set p" "(a, b) \<in> route_step idx rt dst"
  shows "b \<in> set p"
proof -
  obtain i where i: "i < length p" "a = p ! i" using assms(3) by (auto simp: in_set_conv_nth)
  obtain h where h: "next_hop idx rt dst a = Some h" "h_peer h = b"
    using assms(4) by (auto simp: route_step_def)
  have len: "length p = Suc (length ls)" and ne: "p \<noteq> []" using assms(1) by (auto simp: hops_ok_def)
  show ?thesis
  proof (cases "i < length ls")
    case True
    then have "b = p ! Suc i" using assms(1) h i by (auto simp: hops_ok_def)
    then show ?thesis using True len by simp
  next
    case False
    then have "a = last p" using i len ne by (simp add: last_conv_nth less_Suc_eq)
    with assms(2) h show ?thesis by auto
  qed
qed

text \<open>
  The walk is sound on any reported routes: its AS path starts at the source and repeats no
  AS, each of its links is a link of the graph that joins consecutive ASes of the path and is the one
  the route of the earlier AS toward the destination leaves by, and it is flagged complete exactly
  when it ends at the destination.
\<close>

theorem walk_sound:
  assumes "vm = walk (new_index g) rt src dst"
  shows "hd (bp_as_path vm) = src \<and> distinct (bp_as_path vm) \<and>
    length (bp_as_path vm) = Suc (length (bp_links vm)) \<and>
    (\<forall>i < length (bp_links vm). joins g (bp_as_path vm ! i) (bp_links vm ! i) (bp_as_path vm ! Suc i) \<and>
       next_hop (new_index g) rt dst (bp_as_path vm ! i) =
         Some \<lparr>h_link = bp_links vm ! i, h_peer = bp_as_path vm ! Suc i\<rparr>) \<and>
    (bp_complete vm \<longleftrightarrow> last (bp_as_path vm) = dst)"
  using walk_hops(1-3) [OF assms [symmetric]] next_hop_joins [of g rt dst]
  by (fastforce simp: hops_ok_def)

definition ex_net :: graph where
  "ex_net = \<lparr>g_ases = [], g_links = [\<lparr>l_id = ''150-151'', l_type = ''core'', l_subnet = ''link 1'',
     l_a = \<lparr>e_ia = ''1-150'', e_as = 150, e_ifid = ''3'', e_ip = '''', e_link_to = ''core''\<rparr>,
     l_b = \<lparr>e_ia = ''1-151'', e_as = 151, e_ifid = ''4'', e_ip = '''', e_link_to = ''core''\<rparr>\<rparr>]\<rparr>"

definition ex_routes :: routes where
  "ex_routes = [150 \<mapsto> [151 \<mapsto> ''3'']]"

lemma ex_walk: "bp_as_path (walk (new_index ex_net) ex_routes 150 151) = [150, 151]"
  "bp_links (walk (new_index ex_net) ex_routes 150 151) = [''150-151'']"
  by code_simp+

theorem walk_sound_witness: "joins ex_net 150 ''150-151'' 151"
  using walk_sound [OF refl, of ex_net ex_routes 150 151] by (simp add: ex_walk)

text \<open>
  C6: The walk is complete on any reported routes: although it stops at the first AS it meets
  again, it reaches the destination whenever following the routes hop by hop from the source does.
\<close>

theorem walk_complete_iff:
  "bp_complete (walk idx rt src dst) \<longleftrightarrow> (src, dst) \<in> (route_step idx rt dst)\<^sup>*"
proof
  let ?vm = "walk idx rt src dst"
  have ok: "hops_ok idx rt dst (bp_as_path ?vm) (bp_links ?vm)" and hd: "hd (bp_as_path ?vm) = src"
    and fin: "bp_complete ?vm \<longleftrightarrow> last (bp_as_path ?vm) = dst"
    by (rule walk_hops [OF refl])+
  have ne: "bp_as_path ?vm \<noteq> []" using ok by (auto simp: hops_ok_def)
  show "(src, dst) \<in> (route_step idx rt dst)\<^sup>*" if "bp_complete ?vm"
    using hops_ok_reach [OF ok, of "length (bp_as_path ?vm) - 1"] hd fin that ne
    by (simp add: last_conv_nth)
  assume reach: "(src, dst) \<in> (route_step idx rt dst)\<^sup>*"
  show "bp_complete ?vm"
  proof (rule ccontr)
    assume nc: "\<not> bp_complete ?vm"
    have src: "src \<in> set (bp_as_path ?vm)"
      using list.set_sel(1) [OF ne] unfolding hd .
    have "b \<in> set (bp_as_path ?vm)" if "(src, b) \<in> (route_step idx rt dst)\<^sup>*" for b
      using that
    proof (induction rule: rtrancl_induct)
      case base
      show ?case by (rule src)
    next
      case (step y z)
      show ?case
        using hops_ok_closed [OF ok walk_hops(4) [OF refl nc] step(3,2)] .
    qed
    from this [OF reach]
    obtain i where i: "i < length (bp_as_path ?vm)" "bp_as_path ?vm ! i = dst"
      by (auto simp: in_set_conv_nth)
    have "\<not> i < length (bp_links ?vm)" using ok i(2) by (auto simp: hops_ok_def)
    then have "last (bp_as_path ?vm) = dst"
      using ok i ne by (simp add: hops_ok_def last_conv_nth less_Suc_eq)
    with nc fin show False by simp
  qed
qed

end
