(* ===== verification/NetIp.thy ===== *)
theory NetIp
  imports Prelude "HOL-Library.Word"
begin

unbundle bit_operations_syntax

text \<open>
  What the programs use of \<open>net/netip\<close> and of \<open>net.IP\<close>: parsing and printing addresses, the
  IPv4-in-IPv6 form, masks.  The functions follow the standard library's loops.
\<close>

section \<open>Addresses\<close>

text \<open>\<open>netip.Addr\<close>: the zero value, 4 bytes, or 16 bytes with a zone.\<close>

datatype ip_addr = NoAddr | IPv4 "8 word list" | IPv6 "8 word list" string

abbreviation go_byte :: "int \<Rightarrow> 8 word" where
  "go_byte \<equiv> word_of_int"

definition v4_in_6 :: "8 word list" where
  "v4_in_6 = replicate 10 0 @ [0xff, 0xff]"

definition addr_unmap :: "ip_addr \<Rightarrow> ip_addr" where
  "addr_unmap a = (case a of
     IPv6 b _ \<Rightarrow> if take 12 b = v4_in_6 then IPv4 (drop 12 b) else a
   | _ \<Rightarrow> a)"

section \<open>Parsing\<close>

text \<open>The loop of \<open>parseIPv4Fields\<close>: fields so far, current value, its number of digits.\<close>

fun v4_loop :: "8 word list \<Rightarrow> nat \<Rightarrow> nat \<Rightarrow> string \<Rightarrow> 8 word list option" where
  "v4_loop fs val dl [] = (if length fs < 3 then None else Some (fs @ [word_of_nat val]))"
| "v4_loop fs val dl (c # cs) =
     (if is_digit c then
        (if dl = 1 \<and> val = 0 then None
         else let v = val * 10 + digit_val c in if 255 < v then None else v4_loop fs v (dl + 1) cs)
      else if c = CHR ''.'' then
        (if dl = 0 \<or> cs = [] then None
         else if length fs = 3 then None
         else v4_loop (fs @ [word_of_nat val]) 0 0 cs)
      else None)"

definition parse_v4 :: "string \<Rightarrow> 8 word list option" where
  "parse_v4 s = v4_loop [] 0 0 s"

definition hex_val :: "char \<Rightarrow> nat option" where
  "hex_val c = (let n = of_char c :: nat in
     if 48 \<le> n \<and> n \<le> 57 then Some (n - 48)
     else if 97 \<le> n \<and> n \<le> 102 then Some (n - 87)
     else if 65 \<le> n \<and> n \<le> 70 then Some (n - 55) else None)"

definition is_hex :: "char \<Rightarrow> bool" where
  "is_hex c \<longleftrightarrow> hex_val c \<noteq> None"

definition hex_value :: "string \<Rightarrow> int" where
  "hex_value s = foldl (\<lambda>acc c. acc * 16 + int (the (hex_val c))) 0 s"

text \<open>The loop of \<open>parseIPv6\<close>: bytes so far, the place of the ellipsis, the rest.\<close>

function v6_loop :: "8 word list \<Rightarrow> nat option \<Rightarrow> string \<Rightarrow> (8 word list \<times> nat option \<times> string) option" where
  "v6_loop ip ell s =
     (if 16 \<le> length ip then Some (ip, ell, s)
      else let hs = takeWhile is_hex s; r = drop (length hs) s; acc = hex_value hs;
               ip' = ip @ [go_byte (acc div 256), go_byte acc] in
        if hs = [] \<or> 4 < length hs then None
        else if r = [] then Some (ip', ell, [])
        else if hd r = CHR ''.'' then
          (if ell = None \<and> length ip \<noteq> 12 then None
           else if 16 < length ip + 4 then None
           else map_option (\<lambda>f. (ip @ f, ell, [])) (parse_v4 s))
        else if hd r \<noteq> CHR '':'' \<or> tl r = [] then None
        else if hd (tl r) = CHR '':'' then
          (if ell \<noteq> None then None
           else if tl (tl r) = [] then Some (ip', Some (length ip'), [])
           else v6_loop ip' (Some (length ip')) (tl (tl r)))
        else v6_loop ip' ell (tl r))"
  by pat_completeness auto
termination
  by (relation "measure (\<lambda>(ip, _, _). 16 - length ip)") (auto simp: Let_def)

declare v6_loop.simps [simp del]

definition parse_v6_bytes :: "string \<Rightarrow> 8 word list option" where
  "parse_v6_bytes s =
     (let lead = prefix ''::'' s; s1 = (if lead then drop 2 s else s) in
      if lead \<and> s1 = [] then Some (replicate 16 0)
      else (case v6_loop [] (if lead then Some 0 else None) s1 of
          None \<Rightarrow> None
        | Some (ip, ell, rest) \<Rightarrow>
            if rest \<noteq> [] then None
            else (case ell of
                None \<Rightarrow> if length ip < 16 then None else Some ip
              | Some e \<Rightarrow> if length ip < 16
                  then Some (take e ip @ replicate (16 - length ip) 0 @ drop e ip) else None)))"

definition parse_ipv6 :: "string \<Rightarrow> ip_addr option" where
  "parse_ipv6 s = (case index_byte CHR ''%'' s of
     None \<Rightarrow> map_option (\<lambda>b. IPv6 b '''') (parse_v6_bytes s)
   | Some i \<Rightarrow>
      let zone = drop (i + 1) s in
      if zone = [] then None else map_option (\<lambda>b. IPv6 b zone) (parse_v6_bytes (take i s)))"

text \<open>\<open>netip.ParseAddr\<close>: the first dot, colon or percent sign decides.\<close>

definition parse_addr :: "string \<Rightarrow> ip_addr option" where
  "parse_addr s = (case filter (\<lambda>c. c \<in> set ''.:%'') s of
     [] \<Rightarrow> None
   | c # _ \<Rightarrow>
      if c = CHR ''.'' then map_option IPv4 (parse_v4 s)
      else if c = CHR '':'' then parse_ipv6 s else None)"

text \<open>\<open>net.ParseIP\<close>: 16 bytes, and no zone; \<open>To4\<close>.\<close>

definition parse_ip :: "string \<Rightarrow> 8 word list option" where
  "parse_ip s = (case parse_addr s of
     Some (IPv4 b) \<Rightarrow> Some (v4_in_6 @ b)
   | Some (IPv6 b zone) \<Rightarrow> if zone = [] then Some b else None
   | _ \<Rightarrow> None)"

definition ip_to4 :: "8 word list \<Rightarrow> 8 word list option" where
  "ip_to4 b = (if take 12 b = v4_in_6 then Some (drop 12 b) else None)"

section \<open>Printing\<close>

definition v4_string :: "8 word list \<Rightarrow> string" where
  "v4_string b = itoa (uint (b ! 0)) @ ''.'' @ itoa (uint (b ! 1)) @ ''.'' @
     itoa (uint (b ! 2)) @ ''.'' @ itoa (uint (b ! 3))"

definition hex_char :: "nat \<Rightarrow> char" where
  "hex_char d = char_of (if d < 10 then 48 + d else 87 + d)"

fun hex_digits :: "nat \<Rightarrow> string" where
  "hex_digits n = (if n < 16 then [hex_char n] else hex_digits (n div 16) @ [hex_char (n mod 16)])"

declare hex_digits.simps [simp del]

definition v6_groups :: "8 word list \<Rightarrow> nat list" where
  "v6_groups b = map (\<lambda>i. unat (b ! (2 * i)) * 256 + unat (b ! (2 * i + 1))) [0..<8]"

text \<open>The first longest run of at least two zero groups: its start and end.\<close>

definition zero_run :: "nat list \<Rightarrow> nat \<times> nat" where
  "zero_run gs = foldl (\<lambda>(zs, ze) i.
     let l = length (takeWhile (\<lambda>g. g = 0) (drop i gs)) in
     if 2 \<le> l \<and> ze - zs < l then (i, i + l) else (zs, ze)) (255, 255) [0..<8]"

definition v6_string :: "8 word list \<Rightarrow> string" where
  "v6_string b = (let gs = v6_groups b; (zs, ze) = zero_run gs;
       join = (\<lambda>xs. concat (map (\<lambda>(i, g). (if i = 0 then [] else '':'') @ hex_digits g) (enumerate 0 xs))) in
     if zs = 255 then join gs else join (take zs gs) @ ''::'' @ join (drop ze gs))"

definition ip_string :: "8 word list \<Rightarrow> string" where
  "ip_string b = (case ip_to4 b of Some v4 \<Rightarrow> v4_string v4 | None \<Rightarrow> v6_string b)"

section \<open>Properties\<close>

lemma length_v4_in_6 [simp]: "length v4_in_6 = 12"
  by (simp add: v4_in_6_def)

lemma ip_to4_v4 [simp]: "ip_to4 (v4_in_6 @ b) = Some b"
  by (simp add: ip_to4_def)

lemma addr_unmap_v4 [simp]: "addr_unmap (IPv4 b) = IPv4 b"
  by (simp add: addr_unmap_def)

lemma v4_loop_length: "v4_loop fs v dl s = Some b \<Longrightarrow> length fs \<le> 3 \<Longrightarrow> length b = 4"
  by (induction fs v dl s rule: v4_loop.induct) (auto simp: Let_def split: if_splits)

lemma parse_v4_length: "parse_v4 s = Some b \<Longrightarrow> length b = 4"
  unfolding parse_v4_def by (erule v4_loop_length) simp

lemma v6_loop_length:
  "v6_loop ip ell s = Some (b, e, r) \<Longrightarrow> even (length ip) \<Longrightarrow> length ip \<le> 16 \<Longrightarrow>
   (\<forall>i. ell = Some i \<longrightarrow> i \<le> length ip) \<Longrightarrow>
   length ip \<le> length b \<and> length b \<le> 16 \<and> (\<forall>i. e = Some i \<longrightarrow> i \<le> length b)"
proof (induction ip ell s rule: v6_loop.induct)
  case (1 ip ell s)
  define hs where "hs = takeWhile is_hex s"
  define rest where "rest = drop (length hs) s"
  define ip' where "ip' = ip @ [go_byte (hex_value hs div 256), go_byte (hex_value hs)]"
  note defs = hs_def [symmetric] rest_def [symmetric] ip'_def [symmetric]
  show ?case
  proof (cases "16 \<le> length ip")
    case True
    with "1.prems" show ?thesis by (subst (asm) v6_loop.simps) auto
  next
    case False
    have len1: "length ip' = length ip + 2" by (simp add: ip'_def)
    moreover have "length ip' \<le> 16" using False "1.prems"(2) len1 by presburger
    ultimately have len: "length ip' = length ip + 2" "even (length ip')" "length ip' \<le> 16"
      using "1.prems"(2) by simp_all
    have mono: "\<forall>i. ell = Some i \<longrightarrow> i \<le> length ip'" using "1.prems"(4) len(1) by fastforce
    note IH = "1.IH" [OF False refl refl refl refl, unfolded defs]
    have step: "(if hs = [] \<or> 4 < length hs then None
        else if rest = [] then Some (ip', ell, [])
        else if hd rest = CHR ''.'' then
          (if ell = None \<and> length ip \<noteq> 12 then None
           else if 16 < length ip + 4 then None
           else map_option (\<lambda>f. (ip @ f, ell, [])) (parse_v4 s))
        else if hd rest \<noteq> CHR '':'' \<or> tl rest = [] then None
        else if hd (tl rest) = CHR '':'' then
          (if ell \<noteq> None then None
           else if tl (tl rest) = [] then Some (ip', Some (length ip'), [])
           else v6_loop ip' (Some (length ip')) (tl (tl rest)))
        else v6_loop ip' ell (tl rest)) = Some (b, e, r)"
      using "1.prems"(1) False by (subst (asm) v6_loop.simps) (simp only: Let_def defs if_False)
    then have hs: "\<not> (hs = [] \<or> 4 < length hs)" by (cases "hs = [] \<or> 4 < length hs") simp_all
    show ?thesis
    proof (cases "rest = [] \<or> hd rest = CHR ''.''")
      case True
      then show ?thesis
        using step hs len mono "1.prems"(4) parse_v4_length
        by (cases "rest = []") (auto split: if_splits)
    next
      case no_end: False
      then have colon: "hd rest = CHR '':''" "tl rest \<noteq> []"
        using step hs by (simp_all split: if_splits)
      show ?thesis
      proof (cases "hd (tl rest) = CHR '':''")
        case True
        then have ell: "ell = None" using step hs no_end colon by (simp split: if_splits)
        show ?thesis
          using step hs no_end colon True ell len IH(1) by (cases "tl (tl rest) = []") auto
      next
        case False
        then show ?thesis using step hs no_end colon len mono IH(2) by auto
      qed
    qed
  qed
qed

lemma parse_v6_bytes_length:
  assumes "parse_v6_bytes s = Some b"
  shows "length b = 16"
proof -
  have "length ip \<le> 16 \<and> (\<forall>i. e = Some i \<longrightarrow> i \<le> length ip)"
    if "v6_loop [] ell s1 = Some (ip, e, r)" "ell = None \<or> ell = Some 0" for ip e r ell s1
    using v6_loop_length [OF that(1)] that(2) by auto
  note len = this
  show ?thesis
    using assms by (auto simp: parse_v6_bytes_def Let_def split: if_splits option.splits dest!: len)
qed

lemma parse_ip_length: "parse_ip s = Some b \<Longrightarrow> length b = 16"
  by (auto simp: parse_ip_def parse_addr_def parse_ipv6_def Let_def
      dest!: parse_v4_length parse_v6_bytes_length split: option.splits ip_addr.splits if_splits list.splits)

lemma itoa_dot_inj: "itoa a @ CHR ''.'' # s = itoa b @ CHR ''.'' # t \<longleftrightarrow> a = b \<and> s = t"
  by (simp add: append_sep_inj)

lemma v4_string_inj:
  assumes "length a = 4" "length b = 4"
  shows "v4_string a = v4_string b \<longleftrightarrow> a = b"
proof -
  obtain a0 a1 a2 a3 where a: "a = [a0, a1, a2, a3]"
    using assms(1) by (auto simp: numeral_eq_Suc length_Suc_conv)
  obtain b0 b1 b2 b3 where b: "b = [b0, b1, b2, b3]"
    using assms(2) by (auto simp: numeral_eq_Suc length_Suc_conv)
  show ?thesis by (auto simp: a b v4_string_def itoa_dot_inj word_uint_eq_iff)
qed

end
