(* ===== verification/Float64.thy ===== *)
theory Float64
  imports Complex_Main "HOL-Library.Log_Nat"
begin

text \<open>
  IEEE 754 binary64 arithmetic, the meaning of Go's \<open>float64\<close>.

  A value is a finite rational, an infinity or NaN.  Every arithmetic operation computes the
  exact rational result and rounds it to 53 significant bits, to nearest with ties to even, with
  gradual underflow below \<open>2^-1022\<close> and overflow to infinity above the largest finite double.
  The two zeros are one value here: the program only compares and adds them.
  Everything is executable, so closed instances evaluate with \<open>code_simp\<close>.
\<close>

section \<open>Rounding rationals to binary64\<close>

text \<open>The exponent of the leading bit of a positive rational.\<close>

definition rat_log2 :: "rat \<Rightarrow> int" where
  "rat_log2 x = (case quotient_of x of (p, q) \<Rightarrow>
     (let k = bitlen p - bitlen q in if 2 powi k \<le> x then k else k - 1))"

text \<open>The exponent of the unit in the last place: 53 bits of precision, at least \<open>2^-1074\<close>.\<close>

definition ulp_exp :: "rat \<Rightarrow> int" where
  "ulp_exp x = max (rat_log2 \<bar>x\<bar> - 52) (- 1074)"

text \<open>Round half to even, to an integer.\<close>

definition rne :: "rat \<Rightarrow> int" where
  "rne x = (let n = \<lfloor>x\<rfloor>; f = x - of_int n in
     if f < 1/2 then n else if 1/2 < f then n + 1 else if even n then n else n + 1)"

definition rnd :: "rat \<Rightarrow> rat" where
  "rnd x = (if x = 0 then 0 else of_int (rne (x / 2 powi ulp_exp x)) * 2 powi ulp_exp x)"

definition f64_max :: rat where
  "f64_max = (2 ^ 53 - 1) * 2 ^ 971"

subsection \<open>Powers of two\<close>

lemma powi_pos [simp]: "0 < (2::rat) powi k"
  by (simp add: zero_less_power_int)

lemma powi_le_iff [simp]: "(2::rat) powi a \<le> 2 powi b \<longleftrightarrow> a \<le> b"
  by (meson less_le_not_le linorder_not_le one_less_numeral_iff power_int_increasing
      power_int_strict_increasing semiring_norm(76))

lemma powi_less_iff [simp]: "(2::rat) powi a < 2 powi b \<longleftrightarrow> a < b"
  by (simp add: not_le [symmetric] del: not_le)

lemma powi_diff: "(2::rat) powi (a - b) = 2 powi a / 2 powi b"
  by (simp add: power_int_diff)

lemma powi_int_of_diff:
  assumes "b \<le> a"
  shows "(2::rat) powi a = of_int (2 ^ nat (a - b)) * 2 powi b"
proof -
  have "(2::rat) powi a = 2 powi (a - b) * 2 powi b"
    by (simp add: powi_diff)
  with assms show ?thesis by (simp add: power_int_def)
qed

lemma powi_Suc: "(2::rat) powi (k + 1) = 2 * 2 powi k"
  by (simp add: power_int_add)

subsection \<open>Where the leading bit is\<close>

lemma bitlen_powi:
  assumes "0 < p"
  shows "(2::rat) powi (bitlen p - 1) \<le> of_int p" and "of_int p < (2::rat) powi bitlen p"
proof -
  have pos: "1 \<le> bitlen p"
    using assms by (simp add: bitlen_alt_def)
  have b: "2 ^ nat (bitlen p - 1) \<le> p" "p < 2 ^ nat (bitlen p)"
    using bitlen_bounds [OF assms] by auto
  have "(of_int (2 ^ nat (bitlen p - 1)) :: rat) \<le> of_int p"
    using b(1) by (simp only: of_int_le_iff)
  with pos show "(2::rat) powi (bitlen p - 1) \<le> of_int p"
    by (simp add: power_int_def)
  have "(of_int p :: rat) < of_int (2 ^ nat (bitlen p))"
    using b(2) by (simp only: of_int_less_iff)
  with pos show "of_int p < (2::rat) powi bitlen p"
    by (simp add: power_int_def)
qed

lemma rat_log2_bounds:
  assumes "0 < x"
  shows "2 powi rat_log2 x \<le> x" and "x < 2 powi (rat_log2 x + 1)"
proof -
  obtain p q where pq: "quotient_of x = (p, q)" by (cases "quotient_of x")
  have q: "0 < q" using pq by (rule quotient_of_denom_pos)
  have x: "x = of_int p / of_int q" using pq by (rule quotient_of_div)
  have p: "0 < p" using assms q by (simp add: x zero_less_divide_iff)
  let ?k = "bitlen p - bitlen q"
  have lo: "2 powi (?k - 1) < x"
  proof -
    have "(2::rat) powi (?k - 1) = 2 powi (bitlen p - 1) / 2 powi bitlen q"
      by (simp flip: powi_diff add: algebra_simps)
    also have "\<dots> \<le> of_int p / 2 powi bitlen q"
      using bitlen_powi(1) [OF p] by (simp add: divide_right_mono less_imp_le)
    also have "\<dots> < of_int p / of_int q"
      using bitlen_powi(2) [OF q] p q by (intro divide_strict_left_mono) auto
    finally show ?thesis by (simp add: x)
  qed
  have hi: "x < 2 powi (?k + 1)"
  proof -
    have "x < 2 powi bitlen p / of_int q"
      using bitlen_powi(2) [OF p] q by (simp add: x divide_strict_right_mono)
    also have "\<dots> \<le> 2 powi bitlen p / 2 powi (bitlen q - 1)"
      using bitlen_powi(1) [OF q] q by (intro divide_left_mono) auto
    also have "\<dots> = 2 powi (?k + 1)"
      by (simp flip: powi_diff add: algebra_simps)
    finally show ?thesis .
  qed
  show "2 powi rat_log2 x \<le> x"
    using lo by (simp add: rat_log2_def pq Let_def)
  show "x < 2 powi (rat_log2 x + 1)"
    using hi by (simp add: rat_log2_def pq Let_def)
qed

lemma rat_log2_mono:
  assumes "0 < x" "x \<le> y"
  shows "rat_log2 x \<le> rat_log2 y"
proof -
  have "(2::rat) powi rat_log2 x < 2 powi (rat_log2 y + 1)"
    using rat_log2_bounds(1) [of x] rat_log2_bounds(2) [of y] assms by linarith
  then show ?thesis by (simp only: powi_less_iff)
qed

subsection \<open>Rounding to an integer\<close>

lemma rne_of_int [simp]: "rne (of_int n) = n"
  by (simp add: rne_def)

lemma rne_bounds: "of_int (rne x) - 1/2 \<le> x" "x \<le> of_int (rne x) + 1/2"
  by (auto simp: rne_def Let_def; linarith)+

lemma rne_floor: "rne x = \<lfloor>x\<rfloor> \<or> rne x = \<lfloor>x\<rfloor> + 1"
  by (simp add: rne_def Let_def)

lemma rne_mono:
  assumes "x \<le> y"
  shows "rne x \<le> rne y"
proof (cases "\<lfloor>x\<rfloor> = \<lfloor>y\<rfloor>")
  case True
  with assms show ?thesis by (auto simp: rne_def Let_def)
next
  case False
  with assms have "\<lfloor>x\<rfloor> + 1 \<le> \<lfloor>y\<rfloor>" by linarith
  then show ?thesis using rne_floor [of x] rne_floor [of y] by linarith
qed

lemma rne_minus: "rne (- x) = - rne x"
proof (cases "x = of_int \<lfloor>x\<rfloor>")
  case True
  then have "rne (- of_int \<lfloor>x\<rfloor>) = - \<lfloor>x\<rfloor>"
    using rne_of_int [of "- \<lfloor>x\<rfloor>"] by simp
  with True show ?thesis by (metis rne_of_int)
next
  case False
  then have "\<lfloor>- x\<rfloor> = - \<lfloor>x\<rfloor> - 1" by linarith
  then have f: "\<lfloor>- x\<rfloor> = - \<lfloor>x\<rfloor> - 1" "- x - of_int \<lfloor>- x\<rfloor> = 1 - (x - of_int \<lfloor>x\<rfloor>)" by simp_all
  then show ?thesis unfolding rne_def Let_def f by auto
qed

subsection \<open>Rounding is odd, monotone and fixes the representable numbers\<close>

lemma ulp_exp_minus [simp]: "ulp_exp (- x) = ulp_exp x"
  by (simp add: ulp_exp_def)

lemma rnd_zero [simp]: "rnd 0 = 0"
  by (simp add: rnd_def)

lemma rnd_minus: "rnd (- x) = - rnd x"
  by (simp add: rnd_def rne_minus)

lemma rnd_nonneg:
  assumes "0 \<le> x"
  shows "0 \<le> rnd x"
proof -
  have "rne 0 \<le> rne (x / 2 powi ulp_exp x)"
    using assms by (intro rne_mono) simp
  then have "0 \<le> rne (x / 2 powi ulp_exp x)"
    using rne_of_int [of 0] by simp
  then show ?thesis by (simp add: rnd_def)
qed

lemma rnd_le_pow:
  assumes "0 < x" "x \<le> 2 powi k" "ulp_exp x \<le> k"
  shows "rnd x \<le> 2 powi k"
proof -
  let ?u = "ulp_exp x"
  have "x / 2 powi ?u \<le> of_int (2 ^ nat (k - ?u))"
    using assms(2) powi_int_of_diff [OF assms(3)] by (simp add: divide_le_eq)
  then have "rne (x / 2 powi ?u) \<le> 2 ^ nat (k - ?u)"
    by (metis rne_mono rne_of_int)
  then have "of_int (rne (x / 2 powi ?u)) * 2 powi ?u \<le> of_int (2 ^ nat (k - ?u)) * (2::rat) powi ?u"
    by (intro mult_right_mono) (simp_all only: of_int_le_iff, simp add: less_imp_le)
  with assms(1) powi_int_of_diff [OF assms(3)] show ?thesis
    by (simp add: rnd_def)
qed

lemma rnd_ge_pow:
  assumes "2 powi k \<le> x" "ulp_exp x \<le> k"
  shows "2 powi k \<le> rnd x"
proof -
  let ?u = "ulp_exp x"
  have x: "0 < x" using assms(1) powi_pos [of k] by linarith
  have "of_int (2 ^ nat (k - ?u)) \<le> x / 2 powi ?u"
    using assms(1) powi_int_of_diff [OF assms(2)] by (simp add: le_divide_eq)
  then have "2 ^ nat (k - ?u) \<le> rne (x / 2 powi ?u)"
    by (metis rne_mono rne_of_int)
  then have "of_int (2 ^ nat (k - ?u)) * (2::rat) powi ?u \<le> of_int (rne (x / 2 powi ?u)) * 2 powi ?u"
    by (intro mult_right_mono) (simp_all only: of_int_le_iff, simp add: less_imp_le)
  with x powi_int_of_diff [OF assms(2)] show ?thesis
    by (simp add: rnd_def)
qed

lemma rnd_mono_pos:
  assumes x: "0 < x" and xy: "x \<le> y"
  shows "rnd x \<le> rnd y"
proof -
  have y: "0 < y" using x xy by linarith
  have e: "rat_log2 x \<le> rat_log2 y" using x xy by (rule rat_log2_mono)
  have u: "ulp_exp x = max (rat_log2 x - 52) (- 1074)" "ulp_exp y = max (rat_log2 y - 52) (- 1074)"
    using x y by (simp_all add: ulp_exp_def)
  show ?thesis
  proof (cases "ulp_exp x = ulp_exp y")
    case True
    have "rne (x / 2 powi ulp_exp y) \<le> rne (y / 2 powi ulp_exp y)"
      using xy by (intro rne_mono divide_right_mono) (simp_all add: less_imp_le)
    then have "of_int (rne (x / 2 powi ulp_exp y)) * (2::rat) powi ulp_exp y
        \<le> of_int (rne (y / 2 powi ulp_exp y)) * 2 powi ulp_exp y"
      by (intro mult_right_mono) (simp_all only: of_int_le_iff, simp add: less_imp_le)
    with True x y show ?thesis by (simp add: rnd_def)
  next
    case False
    with e u have uy: "ulp_exp y = rat_log2 y - 52" and lt: "rat_log2 x + 1 \<le> rat_log2 y"
      by (auto simp: max_def split: if_splits)
    have "x \<le> 2 powi rat_log2 y"
      using rat_log2_bounds(2) [OF x] lt powi_le_iff [of "rat_log2 x + 1" "rat_log2 y"] by linarith
    then have "rnd x \<le> 2 powi rat_log2 y"
      using x u uy False e by (intro rnd_le_pow) auto
    also have "\<dots> \<le> rnd y"
      using rat_log2_bounds(1) [OF y] uy by (intro rnd_ge_pow) simp_all
    finally show ?thesis .
  qed
qed

lemma rnd_mono:
  assumes "x \<le> y"
  shows "rnd x \<le> rnd y"
proof (cases "0 < x")
  case True
  then show ?thesis using assms by (rule rnd_mono_pos)
next
  case x: False
  show ?thesis
  proof (cases "y < 0")
    case True
    then have "rnd (- y) \<le> rnd (- x)"
      using assms by (intro rnd_mono_pos) auto
    then show ?thesis by (simp add: rnd_minus)
  next
    case False
    have "0 \<le> rnd (- x)" "0 \<le> rnd y"
      using x False by (simp_all add: rnd_nonneg)
    then show ?thesis by (simp add: rnd_minus)
  qed
qed

text \<open>A rational is representable when it is a multiple of a power of two with a 53-bit factor.\<close>

lemma rnd_repr_pos:
  assumes "0 < m" "m < 2 ^ 53" "- 1074 \<le> k"
  shows "rnd (of_int m * 2 powi k) = of_int m * 2 powi k"
proof -
  let ?x = "of_int m * 2 powi k :: rat"
  have x: "0 < ?x" using assms(1) by simp
  have "(of_int m :: rat) < of_int (2 ^ 53)"
    using assms(2) by (simp only: of_int_less_iff)
  then have "?x < 2 powi 53 * 2 powi k"
    by (intro mult_strict_right_mono) (simp_all add: power_int_def)
  also have "\<dots> = 2 powi (53 + k)" by (simp add: power_int_add)
  finally have "(2::rat) powi rat_log2 ?x < 2 powi (53 + k)"
    using rat_log2_bounds(1) [OF x] by linarith
  then have "rat_log2 ?x < 53 + k" by (simp only: powi_less_iff)
  then have u: "ulp_exp ?x \<le> k"
    using assms(1,3) by (simp add: ulp_exp_def abs_mult)
  have eq: "?x = of_int (m * 2 ^ nat (k - ulp_exp ?x)) * 2 powi ulp_exp ?x"
    using powi_int_of_diff [OF u] by simp
  have "?x / 2 powi ulp_exp ?x = of_int (m * 2 ^ nat (k - ulp_exp ?x))"
    using eq by (metis nonzero_mult_div_cancel_right less_irrefl powi_pos)
  then have "rne (?x / 2 powi ulp_exp ?x) = m * 2 ^ nat (k - ulp_exp ?x)"
    by (metis rne_of_int)
  with x eq show ?thesis unfolding rnd_def by (metis less_irrefl)
qed

lemma rnd_repr:
  assumes "\<bar>m\<bar> \<le> 2 ^ 53" "- 1074 \<le> k"
  shows "rnd (of_int m * 2 powi k) = of_int m * 2 powi k"
proof -
  have pos: "rnd (of_int n * 2 powi k) = of_int n * 2 powi k" if n: "0 < n" "n \<le> 2 ^ 53" for n
  proof (cases "n = 2 ^ 53")
    case True
    have "(of_int n :: rat) * 2 powi k = of_int (2 ^ 52) * 2 powi (k + 1)"
      by (simp add: True powi_Suc)
    then show ?thesis
      using rnd_repr_pos [of "2 ^ 52" "k + 1"] assms(2) by simp
  next
    case False
    with n assms(2) show ?thesis by (intro rnd_repr_pos) auto
  qed
  consider "m = 0" | "0 < m" | "0 < - m" by linarith
  then show ?thesis
  proof cases
    case 3
    then have "rnd (of_int (- m) * 2 powi k) = of_int (- m) * 2 powi k"
      using assms(1) by (intro pos) auto
    then show ?thesis using rnd_minus [of "of_int m * 2 powi k"] by simp
  qed (use pos assms(1) in auto)
qed

lemma rnd_of_int: "\<bar>n\<bar> \<le> 2 ^ 53 \<Longrightarrow> rnd (of_int n) = of_int n"
  using rnd_repr [of n 0] by simp

lemma rnd_numeral [simp]: "(numeral n :: int) \<le> 2 ^ 53 \<Longrightarrow> rnd (numeral n) = numeral n"
  using rnd_of_int [of "numeral n"] by simp

lemma rnd_one [simp]: "rnd 1 = 1"
  using rnd_of_int [of 1] by simp

lemma rnd_powi: "- 1074 \<le> k \<Longrightarrow> rnd (2 powi k) = 2 powi k"
  using rnd_repr [of 1 k] by simp

lemma rnd_pow2 [simp]: "rnd (2 ^ n) = 2 ^ n"
  using rnd_powi [of "int n"] by simp

lemma rnd_repr_form: "\<exists>m k. rnd x = of_int m * 2 powi k \<and> \<bar>m\<bar> \<le> 2 ^ 53 \<and> - 1074 \<le> k"
proof (cases "x = 0")
  case True
  have "rnd x = of_int 0 * 2 powi 0" by (simp add: True)
  then show ?thesis by (intro exI [of _ 0]) simp
next
  case False
  let ?u = "ulp_exp x"
  let ?n = "rne (\<bar>x\<bar> / 2 powi ?u)"
  have "\<bar>x\<bar> < 2 powi (rat_log2 \<bar>x\<bar> + 1)"
    using False by (intro rat_log2_bounds) simp
  also have "\<dots> \<le> 2 powi (?u + 53)"
    by (simp add: ulp_exp_def)
  also have "\<dots> = of_int (2 ^ 53) * 2 powi ?u"
    by (subst powi_int_of_diff [of ?u "?u + 53"]) simp_all
  finally have "\<bar>x\<bar> / 2 powi ?u \<le> of_int (2 ^ 53)"
    by (simp add: divide_le_eq less_imp_le)
  then have up: "?n \<le> 2 ^ 53" by (metis rne_mono rne_of_int)
  have "rne 0 \<le> ?n" by (intro rne_mono) simp
  then have lo: "0 \<le> ?n" using rne_of_int [of 0] by simp
  have u: "- 1074 \<le> ?u" by (simp add: ulp_exp_def)
  have "rnd x = of_int (if 0 < x then ?n else - ?n) * 2 powi ?u"
    using False by (auto simp: rnd_def rne_minus [symmetric])
  moreover have "\<bar>if 0 < x then ?n else - ?n\<bar> \<le> 2 ^ 53"
    using up lo by (cases "0 < x") (simp_all only: if_True if_False abs_minus_cancel abs_of_nonneg)
  ultimately show ?thesis using u by blast
qed

lemma rnd_rnd [simp]: "rnd (rnd x) = rnd x"
proof -
  obtain m k where "rnd x = of_int m * 2 powi k" "\<bar>m\<bar> \<le> 2 ^ 53" "- 1074 \<le> k"
    using rnd_repr_form by blast
  then show ?thesis using rnd_repr [of m k] by simp
qed

lemma f64_max_powi: "f64_max = of_int (2 ^ 53 - 1) * 2 powi 971"
  by (simp add: f64_max_def power_int_def)

lemma rnd_f64_max [simp]: "rnd f64_max = f64_max"
  unfolding f64_max_powi by (rule rnd_repr) simp_all

lemma f64_max_pos: "0 < f64_max"
  by (simp add: f64_max_def)

subsection \<open>Evaluation on integers\<close>

text \<open>
  Code equations that round with integer division only, so that the simplifier normalises one
  fraction per operation.
\<close>

definition rne_div :: "int \<Rightarrow> int \<Rightarrow> int" where
  "rne_div p q = (let n = p div q; r = p mod q in
     if 2 * r < q then n else if q < 2 * r then n + 1 else if even n then n else n + 1)"

lemma rne_div:
  assumes "0 < q"
  shows "rne (of_int p / of_int q) = rne_div p q"
proof -
  have fl: "\<lfloor>of_int p / of_int q :: rat\<rfloor> = p div q"
    by (simp add: floor_divide_of_int_eq)
  have "(of_int p :: rat) = of_int (p div q * q + p mod q)" by simp
  then have "(of_int p :: rat) = of_int (p div q) * of_int q + of_int (p mod q)"
    by (simp only: of_int_add of_int_mult)
  then have fr: "of_int p / of_int q - of_int (p div q) = (of_int (p mod q) / of_int q :: rat)"
    using assms by (simp add: field_simps)
  have "((of_int (p mod q) / of_int q :: rat) < 1/2) = (2 * (p mod q) < q)"
  proof -
    have "((of_int (p mod q) / of_int q :: rat) < 1/2) = (of_int (2 * (p mod q)) < (of_int q :: rat))"
      using assms by (simp add: divide_less_eq algebra_simps)
    then show ?thesis by (simp only: of_int_less_iff)
  qed
  moreover have "(1/2 < (of_int (p mod q) / of_int q :: rat)) = (q < 2 * (p mod q))"
  proof -
    have "(1/2 < (of_int (p mod q) / of_int q :: rat)) = (of_int q < (of_int (2 * (p mod q)) :: rat))"
      using assms by (simp add: less_divide_eq algebra_simps)
    then show ?thesis by (simp only: of_int_less_iff)
  qed
  ultimately show ?thesis
    unfolding rne_def rne_div_def Let_def fl fr by simp
qed

definition frac_log2 :: "int \<Rightarrow> int \<Rightarrow> int" where
  "frac_log2 p q = (let k = bitlen p - bitlen q in
     if (if 0 \<le> k then q * 2 ^ nat k \<le> p else q \<le> p * 2 ^ nat (- k)) then k else k - 1)"

lemma frac_log2:
  assumes "quotient_of x = (p, q)"
  shows "rat_log2 x = frac_log2 p q"
proof -
  have q: "0 < (of_int q :: rat)" and x: "x = of_int p / of_int q"
    using quotient_of_denom_pos [OF assms] quotient_of_div [OF assms] by simp_all
  have cmp: "(2 powi k \<le> x) = (if 0 \<le> k then q * 2 ^ nat k \<le> p else q \<le> p * 2 ^ nat (- k))" for k
  proof (cases "0 \<le> k")
    case True
    have "(2 powi k \<le> x) = (of_int (q * 2 ^ nat k) \<le> (of_int p :: rat))"
      using q True by (simp add: x power_int_def le_divide_eq mult.commute)
    with True show ?thesis by (simp only: of_int_le_iff if_True)
  next
    case False
    have "(2 powi k \<le> x) = (of_int q \<le> (of_int (p * 2 ^ nat (- k)) :: rat))"
      using q False by (simp add: x power_int_def field_simps)
    with False show ?thesis by (simp only: of_int_le_iff if_False)
  qed
  show ?thesis by (simp add: rat_log2_def frac_log2_def assms Let_def cmp)
qed

lemma rnd_code [code]:
  "rnd x = (case quotient_of x of (p, q) \<Rightarrow>
     if p = 0 then 0 else
     let u = max (frac_log2 \<bar>p\<bar> q - 52) (- 1074) in
     if 0 \<le> u then of_int (rne_div p (q * 2 ^ nat u) * 2 ^ nat u)
     else of_int (rne_div (p * 2 ^ nat (- u)) q) / of_int (2 ^ nat (- u)))"
proof -
  obtain p q where pq: "quotient_of x = (p, q)" by (cases "quotient_of x")
  have q: "0 < q" using pq by (rule quotient_of_denom_pos)
  have x: "x = of_int p / of_int q" using pq by (rule quotient_of_div)
  have absq: "quotient_of \<bar>x\<bar> = (\<bar>p\<bar>, q)"
    using pq by (simp add: rat_abs_code)
  have z: "x = 0 \<longleftrightarrow> p = 0" using q by (simp add: x)
  let ?u = "ulp_exp x"
  have u: "?u = max (frac_log2 \<bar>p\<bar> q - 52) (- 1074)"
    by (simp add: ulp_exp_def frac_log2 [OF absq])
  show ?thesis
  proof (cases "0 \<le> ?u")
    case True
    have "x / 2 powi ?u = of_int p / of_int (q * 2 ^ nat ?u)"
      using True by (simp add: x power_int_def)
    then have "rne (x / 2 powi ?u) = rne_div p (q * 2 ^ nat ?u)"
      using q by (subst rne_div [symmetric]) simp_all
    then show ?thesis
      using True by (simp add: pq Let_def rnd_def z flip: u) (simp add: power_int_def)
  next
    case False
    have "x / 2 powi ?u = of_int (p * 2 ^ nat (- ?u)) / of_int q"
      using False by (simp add: x power_int_def field_simps)
    then have "rne (x / 2 powi ?u) = rne_div (p * 2 ^ nat (- ?u)) q"
      using q by (subst rne_div [symmetric]) simp_all
    then show ?thesis
      using False by (simp add: pq Let_def rnd_def z flip: u) (simp add: power_int_def field_simps)
  qed
qed

lemma f64_max_code [code]: "f64_max = of_int 179769313486231570814527423731704356798070567525844996598917476803157260780028538760589558632766878171540458953514382464234321326889464182768467546703537516986049910576551282076245490090389328944075868508455133942304583236903222948165808559332123348274797826204144723168738177180919299881250404026184124858368"
  by (simp add: f64_max_def)

section \<open>Values and operations\<close>

datatype f64 = Fin rat | PInf | NInf | NaN

text \<open>Round an exact result, overflowing to an infinity.\<close>

definition f64_of_rat :: "rat \<Rightarrow> f64" where
  "f64_of_rat x = (let r = rnd x in
     if f64_max < r then PInf else if r < - f64_max then NInf else Fin r)"

text \<open>\<open>is_f64 v\<close>: the value is one a 64-bit double can hold.\<close>

fun is_f64 :: "f64 \<Rightarrow> bool" where
  "is_f64 (Fin q) \<longleftrightarrow> rnd q = q \<and> \<bar>q\<bar> \<le> f64_max"
| "is_f64 _ \<longleftrightarrow> True"

fun f64_add :: "f64 \<Rightarrow> f64 \<Rightarrow> f64" where
  "f64_add (Fin a) (Fin b) = f64_of_rat (a + b)"
| "f64_add NaN _ = NaN"
| "f64_add _ NaN = NaN"
| "f64_add PInf NInf = NaN"
| "f64_add NInf PInf = NaN"
| "f64_add PInf _ = PInf"
| "f64_add NInf _ = NInf"
| "f64_add _ PInf = PInf"
| "f64_add _ NInf = NInf"

fun f64_neg :: "f64 \<Rightarrow> f64" where
  "f64_neg (Fin a) = Fin (- a)"
| "f64_neg PInf = NInf"
| "f64_neg NInf = PInf"
| "f64_neg NaN = NaN"

text \<open>The infinity with the sign of a non-zero factor; zero times infinity is NaN.\<close>

definition inf_of_sign :: "rat \<Rightarrow> f64" where
  "inf_of_sign s = (if 0 < s then PInf else if s < 0 then NInf else NaN)"

fun f64_sign :: "f64 \<Rightarrow> rat" where
  "f64_sign (Fin a) = sgn a"
| "f64_sign PInf = 1"
| "f64_sign NInf = - 1"
| "f64_sign NaN = 0"

fun f64_mul :: "f64 \<Rightarrow> f64 \<Rightarrow> f64" where
  "f64_mul (Fin a) (Fin b) = f64_of_rat (a * b)"
| "f64_mul NaN _ = NaN"
| "f64_mul _ NaN = NaN"
| "f64_mul x y = inf_of_sign (f64_sign x * f64_sign y)"

fun f64_div :: "f64 \<Rightarrow> f64 \<Rightarrow> f64" where
  "f64_div (Fin a) (Fin b) = (if b = 0 then inf_of_sign (sgn a) else f64_of_rat (a / b))"
| "f64_div NaN _ = NaN"
| "f64_div _ NaN = NaN"
| "f64_div (Fin a) _ = Fin 0"
| "f64_div PInf (Fin b) = (if b < 0 then NInf else PInf)"
| "f64_div NInf (Fin b) = (if b < 0 then PInf else NInf)"
| "f64_div _ _ = NaN"

fun f64_less :: "f64 \<Rightarrow> f64 \<Rightarrow> bool" where
  "f64_less (Fin a) (Fin b) \<longleftrightarrow> a < b"
| "f64_less NaN _ \<longleftrightarrow> False"
| "f64_less _ NaN \<longleftrightarrow> False"
| "f64_less NInf y \<longleftrightarrow> y \<noteq> NInf"
| "f64_less x PInf \<longleftrightarrow> x \<noteq> PInf"
| "f64_less _ _ \<longleftrightarrow> False"

text \<open>Go's \<open>==\<close>: NaN equals nothing, itself included.\<close>

definition f64_eq :: "f64 \<Rightarrow> f64 \<Rightarrow> bool" where
  "f64_eq x y \<longleftrightarrow> x \<noteq> NaN \<and> x = y"

instantiation f64 :: "{ord, plus, minus, uminus, times, inverse, zero, one}"
begin
definition zero_f64 :: f64 where "0 = Fin 0"
definition one_f64 :: f64 where "1 = Fin 1"
definition plus_f64 :: "f64 \<Rightarrow> f64 \<Rightarrow> f64" where "x + y = f64_add x y"
definition uminus_f64 :: "f64 \<Rightarrow> f64" where "- x = f64_neg x"
definition minus_f64 :: "f64 \<Rightarrow> f64 \<Rightarrow> f64" where "x - y = f64_add x (f64_neg y)"
definition times_f64 :: "f64 \<Rightarrow> f64 \<Rightarrow> f64" where "x * y = f64_mul x y"
definition divide_f64 :: "f64 \<Rightarrow> f64 \<Rightarrow> f64" where "x div y = f64_div x y"
definition inverse_f64 :: "f64 \<Rightarrow> f64" where "inverse x = f64_div (Fin 1) x"
definition less_f64 :: "f64 \<Rightarrow> f64 \<Rightarrow> bool" where "x < y \<longleftrightarrow> f64_less x y"
definition less_eq_f64 :: "f64 \<Rightarrow> f64 \<Rightarrow> bool" where "x \<le> y \<longleftrightarrow> f64_less x y \<or> f64_eq x y"
instance ..
end

lemmas f64_defs = zero_f64_def one_f64_def plus_f64_def uminus_f64_def minus_f64_def
  times_f64_def divide_f64_def less_f64_def less_eq_f64_def f64_eq_def

text \<open>\<open>math.Max\<close>, \<open>math.Abs\<close>, \<open>math.IsNaN\<close>, \<open>math.IsInf\<close> and \<open>math.Round\<close> (half away from zero).\<close>

definition go_max :: "f64 \<Rightarrow> f64 \<Rightarrow> f64" where
  "go_max x y = (if x = PInf \<or> y = PInf then PInf else if x = NaN \<or> y = NaN then NaN
     else if y < x then x else y)"

fun go_abs :: "f64 \<Rightarrow> f64" where
  "go_abs (Fin a) = Fin \<bar>a\<bar>"
| "go_abs NaN = NaN"
| "go_abs _ = PInf"

definition go_round :: "f64 \<Rightarrow> f64" where
  "go_round x = (case x of
     Fin a \<Rightarrow> Fin (if 0 \<le> a then of_int \<lfloor>a + 1/2\<rfloor> else - of_int \<lfloor>1/2 - a\<rfloor>) | _ \<Rightarrow> x)"

text \<open>
  Conversion to \<open>int64\<close> truncates towards zero.  Outside the range Go leaves the result to the
  implementation; amd64, which the testbed runs, yields \<open>-2^63\<close>.
\<close>

definition rat_trunc :: "rat \<Rightarrow> int" where
  "rat_trunc a = (if 0 \<le> a then \<lfloor>a\<rfloor> else - \<lfloor>- a\<rfloor>)"

definition f64_to_int64 :: "f64 \<Rightarrow> int" where
  "f64_to_int64 x = (case x of
     Fin a \<Rightarrow> (if - (2 ^ 63) \<le> rat_trunc a \<and> rat_trunc a < 2 ^ 63 then rat_trunc a else - (2 ^ 63))
   | _ \<Rightarrow> - (2 ^ 63))"

text \<open>\<open>float64(n)\<close> for an integer \<open>n\<close>, and a decimal constant of the source.\<close>

definition f64_of_int :: "int \<Rightarrow> f64" where
  "f64_of_int n = f64_of_rat (of_int n)"

subsection \<open>Algebra the program relies on\<close>

lemma f64_of_rat_small: "\<bar>x\<bar> \<le> f64_max \<Longrightarrow> f64_of_rat x = Fin (rnd x)"
proof -
  assume x: "\<bar>x\<bar> \<le> f64_max"
  have "rnd x \<le> rnd f64_max" "rnd (- f64_max) \<le> rnd x"
    using x by (intro rnd_mono; linarith)+
  then show ?thesis by (auto simp: f64_of_rat_def Let_def rnd_minus)
qed

lemma f64_of_rat_cases:
  "f64_of_rat x = Fin (rnd x) \<or> (f64_of_rat x = PInf \<and> 0 < x) \<or> (f64_of_rat x = NInf \<and> x < 0)"
proof -
  have "rnd x \<le> 0" if "x \<le> 0" using rnd_mono [OF that] by simp
  moreover have "0 \<le> rnd x" if "0 \<le> x" using that by (rule rnd_nonneg)
  ultimately show ?thesis
    using f64_max_pos by (cases "x \<le> 0"; cases "0 \<le> x") (auto simp: f64_of_rat_def Let_def)
qed

lemma f64_of_rat_not_NaN [simp]: "f64_of_rat x \<noteq> NaN"
  using f64_of_rat_cases [of x] by auto

lemma is_f64_of_rat [simp]: "is_f64 (f64_of_rat x)"
  by (auto simp: f64_of_rat_def Let_def)

lemma f64_le_iff [simp]: "Fin a \<le> Fin b \<longleftrightarrow> a \<le> b"
  by (auto simp: f64_defs)

lemma f64_less_iff [simp]: "Fin a < Fin b \<longleftrightarrow> a < b"
  by (simp add: f64_defs)

lemma f64_eq_Fin [simp]: "f64_eq (Fin a) (Fin b) \<longleftrightarrow> a = b"
  by (simp add: f64_eq_def)

lemma f64_NaN_cmp [simp]: "\<not> NaN < x" "\<not> x < NaN" "\<not> NaN \<le> x" "\<not> x \<le> NaN"
  by (cases x; simp add: f64_defs)+

lemma f64_inf_cmp [simp]:
  "PInf \<le> PInf" "NInf \<le> PInf" "NInf \<le> NInf" "Fin a \<le> PInf" "NInf \<le> Fin a"
  "\<not> PInf \<le> Fin a" "\<not> Fin a \<le> NInf" "\<not> PInf \<le> NInf"
  "\<not> PInf < x" "\<not> x < NInf" "Fin a < PInf" "NInf < Fin a" "NInf < PInf"
  by (cases x; simp add: f64_defs)+

lemma f64_cmp_trans: "(x::f64) \<le> y \<Longrightarrow> y \<le> z \<Longrightarrow> x \<le> z"
  by (cases x; cases y; cases z) simp_all

lemma f64_not_less: "x \<noteq> NaN \<Longrightarrow> y \<noteq> NaN \<Longrightarrow> \<not> x < y \<longleftrightarrow> y \<le> (x::f64)"
  by (cases x; cases y) auto

lemma f64_sub_Fin [simp]: "Fin a - Fin b = f64_of_rat (a - b)"
  by (simp add: f64_defs)

lemma f64_add_Fin [simp]: "Fin a + Fin b = f64_of_rat (a + b)"
  by (simp add: f64_defs)

lemma f64_mul_Fin [simp]: "Fin a * Fin b = f64_of_rat (a * b)"
  by (simp add: f64_defs)

lemma f64_div_Fin [simp]: "b \<noteq> 0 \<Longrightarrow> Fin a / Fin b = f64_of_rat (a / b)"
  by (simp add: f64_defs)

lemma f64_of_rat_mono: "x \<le> y \<Longrightarrow> f64_of_rat x \<le> f64_of_rat y"
  using rnd_mono [of x y] by (auto simp: f64_of_rat_def Let_def)

lemma f64_of_rat_ge_0: "0 \<le> x \<Longrightarrow> Fin 0 \<le> f64_of_rat x"
  using f64_of_rat_mono [of 0 x] f64_max_pos by (simp add: f64_of_rat_small)

lemma f64_add_nonneg: "Fin 0 \<le> x \<Longrightarrow> Fin 0 \<le> y \<Longrightarrow> Fin 0 \<le> x + y"
  by (cases x; cases y) (simp_all add: f64_of_rat_ge_0, simp_all add: f64_defs)

subsection \<open>Rounding error\<close>

lemma rne_error: "\<bar>of_int (rne x) - x\<bar> \<le> 1/2"
proof -
  have fl: "of_int \<lfloor>x\<rfloor> \<le> x" "x < of_int \<lfloor>x\<rfloor> + 1" using floor_correct [of x] by simp_all
  show ?thesis
    using fl unfolding rne_def Let_def by (auto simp: abs_le_iff)
qed

text \<open>The error is at most half a unit in the last place of the largest value of the same size.\<close>

lemma rnd_error:
  assumes "\<bar>x\<bar> < 2 powi k" "- 1021 \<le> k"
  shows "\<bar>rnd x - x\<bar> \<le> 2 powi (k - 54)"
proof (cases "x = 0")
  case False
  have "2 powi rat_log2 \<bar>x\<bar> \<le> \<bar>x\<bar>" using False by (intro rat_log2_bounds) simp
  then have "(2::rat) powi rat_log2 \<bar>x\<bar> < 2 powi k" using assms(1) by linarith
  then have u: "ulp_exp x \<le> k - 53" using assms(2) by (simp add: ulp_exp_def)
  have "\<bar>rnd x - x\<bar> = \<bar>of_int (rne (x / 2 powi ulp_exp x)) - x / 2 powi ulp_exp x\<bar> * 2 powi ulp_exp x"
  proof -
    have "rnd x - x = (of_int (rne (x / 2 powi ulp_exp x)) - x / 2 powi ulp_exp x) * 2 powi ulp_exp x"
      using False by (simp add: rnd_def algebra_simps)
    then show ?thesis by (simp add: abs_mult)
  qed
  also have "\<dots> \<le> 1/2 * 2 powi ulp_exp x"
    by (intro mult_right_mono rne_error) simp
  also have "\<dots> \<le> 1/2 * 2 powi (k - 53)"
    using u by simp
  also have "\<dots> = 2 powi (k - 54)"
    using powi_Suc [of "k - 54"] by simp
  finally show ?thesis .
qed simp

end
