(* ===== verification/Shape.thy ===== *)
theory Shape
  imports Float64 "HOL-Library.Word"
begin

unbundle bit_operations_syntax

text \<open>
  \<open>linkd/internal/shape\<close>: netem parameters, their validation and merging, the \<open>Shaper\<close> interface
  the linkd API is written against, and its netlink implementation.  The netlink library and the
  kernel behind it are a parameter (\<open>netlink\<close>); what is relied on of them is the locale
  \<open>netlink_kernel\<close>, and the interface's contract is the locale \<open>shaper_laws\<close>, which the netlink
  shaper is shown to satisfy.
\<close>

section \<open>Parameters\<close>

record params =
  p_delay :: "f64 option"
  p_jitter :: "f64 option"
  p_loss :: "f64 option"
  p_rate :: "f64 option"

definition no_params :: params where
  "no_params = \<lparr>p_delay = None, p_jitter = None, p_loss = None, p_rate = None\<rparr>"

definition zero_param :: "f64 option \<Rightarrow> bool" where
  "zero_param v = (case v of None \<Rightarrow> True | Some x \<Rightarrow> f64_eq x (Fin 0))"

definition params_empty :: "params \<Rightarrow> bool" where
  "params_empty p \<longleftrightarrow> zero_param (p_delay p) \<and> zero_param (p_jitter p) \<and> zero_param (p_loss p) \<and>
     p_rate p = None"

datatype param_error = OutOfRange string f64 | JitterNeedsDelay

definition check_range :: "string \<Rightarrow> f64 option \<Rightarrow> f64 \<Rightarrow> f64 \<Rightarrow> param_error option" where
  "check_range name v lo hi = (case v of
     None \<Rightarrow> None
   | Some x \<Rightarrow> if x < lo \<or> hi < x then Some (OutOfRange name x) else None)"

definition validate :: "params \<Rightarrow> param_error option" where
  "validate p =
     (case check_range ''delay_ms'' (p_delay p) (Fin 0) (Fin 2000) of Some e \<Rightarrow> Some e
      | None \<Rightarrow> (case check_range ''jitter_ms'' (p_jitter p) (Fin 0) (Fin 1000) of Some e \<Rightarrow> Some e
      | None \<Rightarrow> (case check_range ''loss_pct'' (p_loss p) (Fin 0) (Fin 100) of Some e \<Rightarrow> Some e
      | None \<Rightarrow> (case check_range ''rate_mbit'' (p_rate p) (f64_of_rat (1/10)) (Fin 10000) of Some e \<Rightarrow> Some e
      | None \<Rightarrow>
          if (case p_jitter p of None \<Rightarrow> False | Some j \<Rightarrow> Fin 0 < j) \<and>
             (case p_delay p of None \<Rightarrow> True | Some d \<Rightarrow> f64_eq d (Fin 0))
          then Some JitterNeedsDelay else None))))"

definition merge :: "params \<Rightarrow> params \<Rightarrow> params" where
  "merge cur upd = \<lparr>
     p_delay = (case p_delay upd of None \<Rightarrow> p_delay cur | Some v \<Rightarrow> Some v),
     p_jitter = (case p_jitter upd of None \<Rightarrow> p_jitter cur | Some v \<Rightarrow> Some v),
     p_loss = (case p_loss upd of None \<Rightarrow> p_loss cur | Some v \<Rightarrow> Some v),
     p_rate = (case p_rate upd of None \<Rightarrow> p_rate cur | Some v \<Rightarrow> Some v)\<rparr>"

section \<open>The Shaper interface\<close>

datatype nl_error = Errno int | NlOther string

datatype shape_error = DeviceError string nl_error | KernelError nl_error

record 'k shaper =
  sh_get :: "'k \<Rightarrow> string \<Rightarrow> shape_error + params"
  sh_apply :: "'k \<Rightarrow> string \<Rightarrow> params \<Rightarrow> 'k \<times> shape_error option"
  sh_clear :: "'k \<Rightarrow> string \<Rightarrow> 'k \<times> shape_error option"

text \<open>
  The contract: what was applied is what \<open>Get\<close> reads back, up to the kernel's resolution \<open>obs\<close>;
  a cleared device reads as unshaped, unless a qdisc that is not the shaper's is at its root (\<open>foreign\<close>), which
  stays; other devices are untouched, and so is everything by an operation that fails.
\<close>

locale shaper_laws =
  fixes sh :: "'k shaper"
    and obs :: "params \<Rightarrow> params"
    and foreign :: "'k \<Rightarrow> string \<Rightarrow> bool"
  assumes apply_get: "sh_apply sh k d p = (k', None) \<Longrightarrow> sh_get sh k' d = Inr (obs p) \<and> \<not> foreign k' d"
    and apply_other: "sh_apply sh k d p = (k', r) \<Longrightarrow> d' \<noteq> d \<Longrightarrow> sh_get sh k' d' = sh_get sh k d'"
    and apply_fail: "sh_apply sh k d p = (k', Some e) \<Longrightarrow> k' = k"
    and clear_get: "sh_clear sh k d = (k', None) \<Longrightarrow> sh_get sh k' d = Inr no_params \<or> k' = k \<and> foreign k d"
    and clear_other: "sh_clear sh k d = (k', r) \<Longrightarrow> d' \<noteq> d \<Longrightarrow> sh_get sh k' d' = sh_get sh k d'"
    and clear_fail: "sh_clear sh k d = (k', Some e) \<Longrightarrow> k' = k"

section \<open>The netlink shaper\<close>

text \<open>\<open>netlink.Netem\<close> as read back, with a flag for \<open>Parent == HANDLE_ROOT\<close> and its handle; other qdiscs.\<close>

datatype qdisc = Netem (qd_root: bool) (qd_handle: "32 word") (qd_latency: "32 word") (qd_jitter: "32 word")
    (qd_loss: "32 word") (qd_rate64: "64 word")
  | OtherQdisc

text \<open>\<open>NetemQdiscAttrs\<close> and the \<open>Rate64\<close> set beside it.  The loss is a \<open>float32\<close>.\<close>

record netem_attrs =
  na_limit :: "32 word"
  na_latency :: "32 word"
  na_jitter :: "32 word"
  na_loss :: f64
  na_rate64 :: "64 word"

text \<open>The attributes every request has: the link, the handle \<open>1:0\<close>, and the root as parent.\<close>

record qdisc_attrs =
  qa_link :: nat
  qa_handle :: "32 word"

definition own_handle :: "32 word" where "own_handle = 0x10000"

definition root_attrs :: "nat \<Rightarrow> qdisc_attrs" where
  "root_attrs i = \<lparr>qa_link = i, qa_handle = own_handle\<rparr>"

text \<open>The library calls: link lookup, qdisc replace, list and delete at a link's root.\<close>

record 'k netlink =
  nl_link :: "'k \<Rightarrow> string \<Rightarrow> nl_error + nat"
  nl_replace :: "'k \<Rightarrow> qdisc_attrs \<Rightarrow> netem_attrs \<Rightarrow> 'k \<times> nl_error option"
  nl_list :: "'k \<Rightarrow> nat \<Rightarrow> nl_error + qdisc list"
  nl_del :: "'k \<Rightarrow> qdisc_attrs \<Rightarrow> 'k \<times> nl_error option"
  nl_tick_in_usec :: f64

text \<open>
  Conversions to unsigned integers truncate; out of range they are implementation-defined, and the
  model is amd64's.  \<open>float32\<close> rounds to 24 bits.
\<close>

definition f64_to_uint32 :: "f64 \<Rightarrow> 32 word" where
  "f64_to_uint32 x = word_of_int (f64_to_int64 x)"

definition f64_to_uint64 :: "f64 \<Rightarrow> 64 word" where
  "f64_to_uint64 x = (if x < Fin (2 ^ 63) then word_of_int (f64_to_int64 x)
     else word_of_int (f64_to_int64 (x - Fin (2 ^ 63))) XOR 2 ^ 63)"

definition f32_of_f64 :: "f64 \<Rightarrow> f64" where
  "f32_of_f64 x = (case x of
     Fin q \<Rightarrow>
       (let u = max (rat_log2 \<bar>q\<bar> - 23) (- 149); r = (if q = 0 then 0 else of_int (rne (q / 2 powi u)) * 2 powi u) in
        if 2 ^ 128 \<le> r then PInf else if r \<le> - (2 ^ 128) then NInf else Fin r)
   | _ \<Rightarrow> x)"

definition attrs_of :: "params \<Rightarrow> netem_attrs" where
  "attrs_of p = \<lparr>na_limit = 10000,
     na_latency = (case p_delay p of None \<Rightarrow> 0 | Some d \<Rightarrow> f64_to_uint32 (d * Fin 1000)),
     na_jitter = (case p_jitter p of None \<Rightarrow> 0 | Some j \<Rightarrow> f64_to_uint32 (j * Fin 1000)),
     na_loss = (case p_loss p of None \<Rightarrow> Fin 0 | Some l \<Rightarrow> f32_of_f64 l),
     na_rate64 = (case p_rate p of None \<Rightarrow> 0 | Some r \<Rightarrow> f64_to_uint64 (r * Fin 1000000 / Fin 8))\<rparr>"

definition netlink_apply :: "'k netlink \<Rightarrow> 'k \<Rightarrow> string \<Rightarrow> params \<Rightarrow> 'k \<times> shape_error option" where
  "netlink_apply nl k dev p = (case nl_link nl k dev of
     Inl e \<Rightarrow> (k, Some (DeviceError dev e))
   | Inr i \<Rightarrow> (case nl_replace nl k (root_attrs i) (attrs_of p) of (k', r) \<Rightarrow> (k', map_option KernelError r)))"

definition max_uint32 :: f64 where "max_uint32 = Fin 4294967295"

definition read_netem :: "f64 \<Rightarrow> qdisc \<Rightarrow> params" where
  "read_netem tick q = \<lparr>
     p_delay = (if 0 < qd_latency q then Some (f64_of_int (uint (qd_latency q)) / tick / Fin 1000) else None),
     p_jitter = (if 0 < qd_jitter q then Some (f64_of_int (uint (qd_jitter q)) / tick / Fin 1000) else None),
     p_loss = (if 0 < qd_loss q then Some (f64_of_int (uint (qd_loss q)) / max_uint32 * Fin 100) else None),
     p_rate = (if 0 < qd_rate64 q then Some (f64_of_int (uint (qd_rate64 q)) * Fin 8 / Fin 1000000) else None)\<rparr>"

fun is_root_netem :: "qdisc \<Rightarrow> bool" where
  "is_root_netem (Netem r _ _ _ _ _) = r"
| "is_root_netem OtherQdisc = False"

text \<open>The loop over the qdiscs returns at the first netem at the root.\<close>

fun first_netem :: "f64 \<Rightarrow> qdisc list \<Rightarrow> params" where
  "first_netem tick [] = no_params"
| "first_netem tick (q # qs) = (if is_root_netem q then read_netem tick q else first_netem tick qs)"

definition netlink_get :: "'k netlink \<Rightarrow> 'k \<Rightarrow> string \<Rightarrow> shape_error + params" where
  "netlink_get nl k dev = (case nl_link nl k dev of
     Inl e \<Rightarrow> Inl (DeviceError dev e)
   | Inr i \<Rightarrow> (case nl_list nl k i of
       Inl e \<Rightarrow> Inl (KernelError e)
     | Inr qds \<Rightarrow> Inr (first_netem (nl_tick_in_usec nl) qds)))"

text \<open>\<open>ENOENT\<close> and \<open>EINVAL\<close>.\<close>

definition is_not_found :: "nl_error \<Rightarrow> bool" where
  "is_not_found e \<longleftrightarrow> e = Errno 2 \<or> e = Errno 22"

definition netlink_clear :: "'k netlink \<Rightarrow> 'k \<Rightarrow> string \<Rightarrow> 'k \<times> shape_error option" where
  "netlink_clear nl k dev = (case nl_link nl k dev of
     Inl e \<Rightarrow> (k, Some (DeviceError dev e))
   | Inr i \<Rightarrow> (case nl_del nl k (root_attrs i) of
       (k', Some e) \<Rightarrow> if \<not> is_not_found e then (k', Some (KernelError e)) else (k', None)
     | (k', None) \<Rightarrow> (k', None)))"

definition netlink_shaper :: "'k netlink \<Rightarrow> 'k shaper" where
  "netlink_shaper nl = \<lparr>sh_get = netlink_get nl, sh_apply = netlink_apply nl, sh_clear = netlink_clear nl\<rparr>"

subsection \<open>The netlink shaper keeps the contract\<close>

text \<open>
  What is relied on of the library and the kernel: links have distinct indexes that qdisc operations
  do not change; a replaced qdisc is the only netem at the root of its link, has the handle of the request and holds
  what \<open>enc\<close> makes of the attributes (ticks, scaled loss); a deleted one is gone; failures change nothing.  Of the
  errors of a deletion only two say something of the qdiscs, as in \<open>tc_get_qdisc\<close> of the kernel: \<open>ENOENT\<close> (2), that
  nothing but the default qdisc is at the root, and \<open>EINVAL\<close> (22), that the qdisc at the root has another handle
  or is not a netem.
\<close>

locale netlink_kernel =
  fixes nl :: "'k netlink"
    and enc :: "netem_attrs \<Rightarrow> qdisc"
  assumes link_inj: "nl_link nl k d = Inr i \<Longrightarrow> nl_link nl k d' = Inr i \<Longrightarrow> d' = d"
    and replace_link: "nl_replace nl k q a = (k', r) \<Longrightarrow> nl_link nl k' = nl_link nl k"
    and replace_list: "nl_replace nl k (root_attrs i) a = (k', None) \<Longrightarrow>
      \<exists>qs. nl_list nl k' i = Inr qs \<and> filter is_root_netem qs = [enc a]"
    and enc_handle: "qd_handle (enc a) = own_handle"
    and replace_other: "nl_replace nl k q a = (k', r) \<Longrightarrow> j \<noteq> qa_link q \<Longrightarrow> nl_list nl k' j = nl_list nl k j"
    and replace_fail: "nl_replace nl k q a = (k', Some e) \<Longrightarrow> k' = k"
    and del_link: "nl_del nl k q = (k', r) \<Longrightarrow> nl_link nl k' = nl_link nl k"
    and del_list: "nl_del nl k q = (k', None) \<Longrightarrow>
      \<exists>qs. nl_list nl k' (qa_link q) = Inr qs \<and> filter is_root_netem qs = []"
    and del_other: "nl_del nl k q = (k', r) \<Longrightarrow> j \<noteq> qa_link q \<Longrightarrow> nl_list nl k' j = nl_list nl k j"
    and del_fail: "nl_del nl k q = (k', Some e) \<Longrightarrow> k' = k"
    and del_enoent: "nl_del nl k q = (k', Some (Errno 2)) \<Longrightarrow>
      \<exists>qs. nl_list nl k (qa_link q) = Inr qs \<and> filter is_root_netem qs = []"
    and del_einval: "nl_del nl k q = (k', Some (Errno 22)) \<Longrightarrow>
      \<exists>qs. nl_list nl k (qa_link q) = Inr qs \<and> (\<forall>x\<in>set qs. is_root_netem x \<longrightarrow> qd_handle x \<noteq> qa_handle q)"

lemma first_netem_filter:
  "first_netem t qs = (case filter is_root_netem qs of [] \<Rightarrow> no_params | q # _ \<Rightarrow> read_netem t q)"
  by (induction qs) auto

definition netlink_obs :: "'k netlink \<Rightarrow> (netem_attrs \<Rightarrow> qdisc) \<Rightarrow> params \<Rightarrow> params" where
  "netlink_obs nl enc p = read_netem (nl_tick_in_usec nl) (enc (attrs_of p))"

text \<open>A netem at the root that has another handle than the shaper's: it was put there by someone else.\<close>

definition netlink_foreign :: "'k netlink \<Rightarrow> 'k \<Rightarrow> string \<Rightarrow> bool" where
  "netlink_foreign nl k dev = (case nl_link nl k dev of
     Inl e \<Rightarrow> False
   | Inr i \<Rightarrow> (case nl_list nl k i of
       Inl e \<Rightarrow> False
     | Inr qds \<Rightarrow> list_ex (\<lambda>q. is_root_netem q \<and> qd_handle q \<noteq> own_handle) qds))"

lemma netlink_shaper_sel [simp]:
  "sh_get (netlink_shaper nl) = netlink_get nl" "sh_apply (netlink_shaper nl) = netlink_apply nl"
  "sh_clear (netlink_shaper nl) = netlink_clear nl"
  by (simp_all add: netlink_shaper_def)

lemma netlink_apply_cases:
  assumes "netlink_apply nl k d p = (k', r)"
  obtains e where "k' = k" "r = Some (DeviceError d e)"
  | i s where "nl_link nl k d = Inr i" "nl_replace nl k (root_attrs i) (attrs_of p) = (k', s)" "r = map_option KernelError s"
  using assms by (auto simp: netlink_apply_def split: sum.splits prod.splits)

lemma netlink_clear_cases:
  assumes "netlink_clear nl k d = (k', r)"
  obtains e where "k' = k" "r = Some (DeviceError d e)"
  | i where "nl_link nl k d = Inr i" "nl_del nl k (root_attrs i) = (k', None)" "r = None"
  | i e where "nl_link nl k d = Inr i" "nl_del nl k (root_attrs i) = (k', Some e)" "is_not_found e" "r = None"
  | i e where "nl_link nl k d = Inr i" "nl_del nl k (root_attrs i) = (k', Some e)" "r = Some (KernelError e)"
  using assms by (auto simp: netlink_clear_def split: sum.splits prod.splits option.splits if_splits)

lemma netlink_get_cong:
  "nl_link nl k' d = nl_link nl k d \<Longrightarrow> (\<And>i. nl_link nl k d = Inr i \<Longrightarrow> nl_list nl k' i = nl_list nl k i) \<Longrightarrow>
   netlink_get nl k' d = netlink_get nl k d"
  by (simp add: netlink_get_def split: sum.splits)

lemma root_attrs_sel [simp]: "qa_link (root_attrs i) = i" "qa_handle (root_attrs i) = own_handle"
  by (simp_all add: root_attrs_def)

lemma only_root_netem:
  assumes "filter is_root_netem qs = [q]" "x \<in> set qs" "is_root_netem x"
  shows "x = q"
proof -
  have "x \<in> set (filter is_root_netem qs)" using assms(2,3) by simp
  then show ?thesis unfolding assms(1) by simp
qed

sublocale netlink_kernel \<subseteq> shaper_laws "netlink_shaper nl" "netlink_obs nl enc" "netlink_foreign nl"
proof (unfold_locales, unfold netlink_shaper_sel)
  fix k k' d p
  assume "netlink_apply nl k d p = (k', None)"
  then show "netlink_get nl k' d = Inr (netlink_obs nl enc p) \<and> \<not> netlink_foreign nl k' d"
  proof (cases rule: netlink_apply_cases)
    case (2 i s)
    then have r: "nl_replace nl k (root_attrs i) (attrs_of p) = (k', None)" by (cases s) auto
    obtain qs where qs: "nl_list nl k' i = Inr qs" "filter is_root_netem qs = [enc (attrs_of p)]"
      using replace_list [OF r] by blast
    have "\<not> netlink_foreign nl k' d"
      using qs replace_link [OF r] 2(1) only_root_netem [OF qs(2)] enc_handle
      by (auto simp: netlink_foreign_def list_ex_iff)
    with qs replace_link [OF r] 2(1) show ?thesis
      by (auto simp: netlink_get_def netlink_obs_def first_netem_filter)
  qed simp
next
  fix k k' d d' p r
  assume "netlink_apply nl k d p = (k', r)" "d' \<noteq> d"
  then show "netlink_get nl k' d' = netlink_get nl k d'"
  proof (cases rule: netlink_apply_cases)
    case (2 i s)
    then show ?thesis
      using \<open>d' \<noteq> d\<close> replace_link [OF 2(2)] replace_other [OF 2(2)] link_inj [OF 2(1), of d'] root_attrs_sel
      by (intro netlink_get_cong) auto
  qed simp
next
  fix k k' d p e
  assume "netlink_apply nl k d p = (k', Some e)"
  then show "k' = k"
  proof (cases rule: netlink_apply_cases)
    case (2 i s)
    then show ?thesis by (cases s) (auto dest: replace_fail)
  qed simp
next
  fix k k' d
  assume "netlink_clear nl k d = (k', None)"
  then show "netlink_get nl k' d = Inr no_params \<or> k' = k \<and> netlink_foreign nl k d"
  proof (cases rule: netlink_clear_cases)
    case (2 i)
    from del_list [OF 2(2)] del_link [OF 2(2)] 2(1) show ?thesis
      by (auto simp: netlink_get_def first_netem_filter)
  next
    case (3 i e)
    note same = del_fail [OF 3(2)]
    show ?thesis
    proof (cases "e = Errno 2")
      case True
      with del_enoent [of k "root_attrs i" k'] 3(1,2) same show ?thesis
        by (auto simp: netlink_get_def first_netem_filter)
    next
      case False
      with 3(3) have "e = Errno 22" by (simp add: is_not_found_def)
      with del_einval [of k "root_attrs i" k'] 3(2) obtain qs where qs: "nl_list nl k i = Inr qs"
        "\<forall>x\<in>set qs. is_root_netem x \<longrightarrow> qd_handle x \<noteq> own_handle" by auto
      show ?thesis
      proof (cases "filter is_root_netem qs")
        case Nil
        with qs(1) 3(1) same show ?thesis by (simp add: netlink_get_def first_netem_filter)
      next
        case (Cons q rest)
        then have "q \<in> set (filter is_root_netem qs)" by simp
        then have "q \<in> set qs" "is_root_netem q" by simp_all
        with qs 3(1) same show ?thesis by (auto simp: netlink_foreign_def list_ex_iff)
      qed
    qed
  qed simp_all
next
  fix k k' d d' r
  assume "netlink_clear nl k d = (k', r)" "d' \<noteq> d"
  then have same: "netlink_get nl k' d' = netlink_get nl k d'"
    if "nl_link nl k d = Inr i" "nl_del nl k (root_attrs i) = (k', q)" for i q
    using that del_link [OF that(2)] del_other [OF that(2)] link_inj [OF that(1), of d'] root_attrs_sel
    by (intro netlink_get_cong) auto
  from \<open>netlink_clear nl k d = (k', r)\<close> show "netlink_get nl k' d' = netlink_get nl k d'"
    by (cases rule: netlink_clear_cases) (simp, (erule (1) same)+)
next
  fix k k' d e
  assume "netlink_clear nl k d = (k', Some e)"
  then show "k' = k"
    by (cases rule: netlink_clear_cases) (auto dest: del_fail)
qed

context netlink_kernel
begin

lemma laws: "shaper_laws (netlink_shaper nl) (netlink_obs nl enc) (netlink_foreign nl)"
  by unfold_locales

end

text \<open>The position of a device in a list of names.\<close>

fun find_index_of :: "string \<Rightarrow> string list \<Rightarrow> nat option" where
  "find_index_of d [] = None"
| "find_index_of d (x # xs) = (if x = d then Some 0 else map_option Suc (find_index_of d xs))"

lemma find_index_of_Some: "find_index_of d xs = Some i \<Longrightarrow> i < length xs \<and> xs ! i = d"
  by (induction xs arbitrary: i) (auto split: if_splits)

text \<open>
  How the library stores the attributes: latency and jitter in scheduler ticks, the loss scaled to 32
  bits.
\<close>

definition time2tick :: "f64 \<Rightarrow> 32 word \<Rightarrow> 32 word" where
  "time2tick tick us = f64_to_uint32 (f64_of_int (uint us) * tick)"

text \<open>
  A reference kernel with the usual 15.625 ticks per microsecond that meets what is relied on: the
  devices are given, the state is the root qdisc of each link.
\<close>

definition ref_enc :: "netem_attrs \<Rightarrow> qdisc" where
  "ref_enc a = Netem True own_handle (time2tick (Fin (125/8)) (na_latency a)) (time2tick (Fin (125/8)) (na_jitter a))
     (f64_to_uint32 (na_loss a / Fin 100 * max_uint32)) (na_rate64 a)"

definition ref_netlink :: "string list \<Rightarrow> (nat \<Rightarrow> qdisc option) netlink" where
  "ref_netlink devs = \<lparr>
     nl_link = (\<lambda>k d. case find_index_of d devs of None \<Rightarrow> Inl (NlOther ''Link not found'') | Some i \<Rightarrow> Inr i),
     nl_replace = (\<lambda>k q a. (k(qa_link q := Some (ref_enc a)), None)),
     nl_list = (\<lambda>k i. Inr (case k i of None \<Rightarrow> [OtherQdisc] | Some q \<Rightarrow> [q])),
     nl_del = (\<lambda>k q. case k (qa_link q) of None \<Rightarrow> (k, Some (Errno 2))
       | Some x \<Rightarrow> if is_root_netem x \<and> qd_handle x = qa_handle q then (k(qa_link q := None), None)
           else (k, Some (Errno 22))),
     nl_tick_in_usec = Fin (125/8)\<rparr>"

interpretation ref_kernel: netlink_kernel "ref_netlink devs" ref_enc for devs
  by unfold_locales
    (auto simp: ref_netlink_def ref_enc_def is_not_found_def dest: find_index_of_Some split: option.splits if_splits)

section \<open>Validation\<close>

fun proper :: "f64 option \<Rightarrow> bool" where
  "proper (Some NaN) = False"
| "proper _ = True"

text \<open>No field is NaN: JSON cannot express one.\<close>

definition params_proper :: "params \<Rightarrow> bool" where
  "params_proper p \<longleftrightarrow> proper (p_delay p) \<and> proper (p_jitter p) \<and> proper (p_loss p) \<and> proper (p_rate p)"

lemma check_range_None:
  assumes "check_range n v (Fin lo) (Fin hi) = None" "proper v"
  shows "v = None \<or> (\<exists>q. v = Some (Fin q) \<and> lo \<le> q \<and> q \<le> hi)"
  using assms by (cases v; cases "the v") (auto simp: check_range_def split: if_splits)

lemma validate_ranges:
  assumes "validate p = None" "params_proper p"
  shows "p_delay p = None \<or> (\<exists>q. p_delay p = Some (Fin q) \<and> 0 \<le> q \<and> q \<le> 2000)"
    and "p_jitter p = None \<or> (\<exists>q. p_jitter p = Some (Fin q) \<and> 0 \<le> q \<and> q \<le> 1000)"
    and "p_loss p = None \<or> (\<exists>q. p_loss p = Some (Fin q) \<and> 0 \<le> q \<and> q \<le> 100)"
    and "p_rate p = None \<or> (\<exists>q. p_rate p = Some (Fin q) \<and> rnd (1/10) \<le> q \<and> q \<le> 10000)"
    and "p_jitter p = Some (Fin j) \<Longrightarrow> 0 < j \<Longrightarrow> \<exists>q. p_delay p = Some (Fin q) \<and> 0 < q"
proof -
  have tenth: "f64_of_rat (1/10) = Fin (rnd (1/10))"
    by (rule f64_of_rat_small) (simp add: f64_max_def)
  show "p_delay p = None \<or> (\<exists>q. p_delay p = Some (Fin q) \<and> 0 \<le> q \<and> q \<le> 2000)"
    using assms by (intro check_range_None [of "''delay_ms''"])
      (auto simp: validate_def params_proper_def split: option.splits)
  show "p_jitter p = None \<or> (\<exists>q. p_jitter p = Some (Fin q) \<and> 0 \<le> q \<and> q \<le> 1000)"
    using assms by (intro check_range_None [of "''jitter_ms''"])
      (auto simp: validate_def params_proper_def split: option.splits)
  show "p_loss p = None \<or> (\<exists>q. p_loss p = Some (Fin q) \<and> 0 \<le> q \<and> q \<le> 100)"
    using assms by (intro check_range_None [of "''loss_pct''"])
      (auto simp: validate_def params_proper_def split: option.splits)
  show "p_rate p = None \<or> (\<exists>q. p_rate p = Some (Fin q) \<and> rnd (1/10) \<le> q \<and> q \<le> 10000)"
    using assms by (intro check_range_None [of "''rate_mbit''"])
      (auto simp: validate_def params_proper_def tenth split: option.splits)
  show "\<exists>q. p_delay p = Some (Fin q) \<and> 0 < q" if "p_jitter p = Some (Fin j)" "0 < j"
    using that assms check_range_None [of "''delay_ms''" "p_delay p" 0 2000]
    by (auto simp: validate_def params_proper_def split: option.splits if_splits)
qed

lemma uint32_scaled:
  assumes "0 \<le> q" "q \<le> of_int m" "0 \<le> m" "m * 1000 < 2 ^ 31"
  shows "uint (f64_to_uint32 (Fin q * Fin 1000)) = \<lfloor>rnd (q * 1000)\<rfloor> \<and> \<lfloor>rnd (q * 1000)\<rfloor> \<le> m * 1000"
proof -
  have small1: "q * 1000 \<le> of_int (m * 1000)" using assms by simp
  have small2: "(of_int (m * 1000) :: rat) \<le> of_int (2 ^ 31)"
    using assms(4) by (simp only: of_int_le_iff less_imp_le)
  note small = small1 small2
  have "rnd (q * 1000) \<le> rnd (of_int (m * 1000))" using small(1) by (rule rnd_mono)
  also have "\<dots> = of_int (m * 1000)" using assms by (intro rnd_of_int) simp
  finally have up: "\<lfloor>rnd (q * 1000)\<rfloor> \<le> m * 1000" by (simp add: floor_le_iff)
  have lo: "0 \<le> rnd (q * 1000)" using assms by (intro rnd_nonneg) simp
  have "(of_int (2 ^ 31) :: rat) \<le> f64_max" by (simp add: f64_max_def)
  then have "\<bar>q * 1000\<bar> \<le> f64_max" using small assms(1) by simp
  then have "Fin q * Fin 1000 = Fin (rnd (q * 1000))" by (simp add: f64_of_rat_small)
  moreover have "f64_to_int64 (Fin (rnd (q * 1000))) = \<lfloor>rnd (q * 1000)\<rfloor>"
  proof -
    have "\<lfloor>rnd (q * 1000)\<rfloor> < 2 ^ 63"
      by (rule le_less_trans [OF up], rule less_trans [OF assms(4)]) simp
    then show ?thesis using lo unfolding f64_to_int64_def rat_trunc_def by simp
  qed
  moreover have "uint (word_of_int \<lfloor>rnd (q * 1000)\<rfloor> :: 32 word) = \<lfloor>rnd (q * 1000)\<rfloor>"
  proof -
    have "\<lfloor>rnd (q * 1000)\<rfloor> < 2 ^ 32"
      by (rule le_less_trans [OF up], rule less_trans [OF assms(4)]) simp
    moreover have "0 \<le> \<lfloor>rnd (q * 1000)\<rfloor>" using lo by simp
    ultimately show ?thesis unfolding uint_word_of_int by simp
  qed
  ultimately show ?thesis using up by (simp add: f64_to_uint32_def)
qed

lemma attrs_scaled:
  assumes "validate p = None" "params_proper p"
  shows "uint (na_latency (attrs_of p)) \<le> 2000000 \<and> uint (na_jitter (attrs_of p)) \<le> 1000000 \<and>
    uint (na_rate64 (attrs_of p)) \<le> 1250000000 \<and>
    (\<forall>q. p_delay p = Some (Fin q) \<longrightarrow> uint (na_latency (attrs_of p)) = \<lfloor>rnd (q * 1000)\<rfloor>) \<and>
    (\<forall>q. p_jitter p = Some (Fin q) \<longrightarrow> uint (na_jitter (attrs_of p)) = \<lfloor>rnd (q * 1000)\<rfloor>) \<and>
    (\<forall>q. p_rate p = Some (Fin q) \<longrightarrow> 12500 \<le> uint (na_rate64 (attrs_of p)) \<and>
       uint (na_rate64 (attrs_of p)) = \<lfloor>rnd (rnd (q * 1000000) / 8)\<rfloor>)"
proof -
  have delay: "uint (na_latency (attrs_of p)) \<le> 2000000 \<and>
      (\<forall>q. p_delay p = Some (Fin q) \<longrightarrow> uint (na_latency (attrs_of p)) = \<lfloor>rnd (q * 1000)\<rfloor>)"
    using validate_ranges(1) [OF assms] uint32_scaled [of _ 2000]
    by (auto simp: attrs_of_def simp del: f64_mul_Fin)
  have jitter: "uint (na_jitter (attrs_of p)) \<le> 1000000 \<and>
      (\<forall>q. p_jitter p = Some (Fin q) \<longrightarrow> uint (na_jitter (attrs_of p)) = \<lfloor>rnd (q * 1000)\<rfloor>)"
    using validate_ranges(2) [OF assms] uint32_scaled [of _ 1000]
    by (auto simp: attrs_of_def simp del: f64_mul_Fin)
  have rate: "uint (na_rate64 (attrs_of p)) \<le> 1250000000 \<and>
      (\<forall>q. p_rate p = Some (Fin q) \<longrightarrow> 12500 \<le> uint (na_rate64 (attrs_of p)) \<and>
         uint (na_rate64 (attrs_of p)) = \<lfloor>rnd (rnd (q * 1000000) / 8)\<rfloor>)"
  proof (cases "p_rate p")
    case None
    then show ?thesis by (simp add: attrs_of_def)
  next
    case (Some v)
    then obtain q where q: "p_rate p = Some (Fin q)" "rnd (1/10) \<le> q" "q \<le> 10000"
      using validate_ranges(4) [OF assms] by auto
    have "rnd (rnd (1/10) * 1000000) \<le> rnd (q * 1000000)" "rnd (q * 1000000) \<le> rnd (of_int 10000000000)"
      using q by (intro rnd_mono; simp)+
    moreover have "rnd (rnd (1/10) * 1000000) = 100000" by code_simp
    moreover have "rnd (of_int 10000000000) = of_int 10000000000" by (rule rnd_of_int) simp
    ultimately have m: "100000 \<le> rnd (q * 1000000)" "rnd (q * 1000000) \<le> 10000000000" by simp_all
    have "rnd (of_int 12500) \<le> rnd (rnd (q * 1000000) / 8)"
      "rnd (rnd (q * 1000000) / 8) \<le> rnd (of_int 1250000000)"
      using m by (intro rnd_mono; simp)+
    moreover have "rnd (of_int 12500) = of_int 12500" "rnd (of_int 1250000000) = of_int 1250000000"
      by (intro rnd_of_int; simp)+
    ultimately have d: "12500 \<le> rnd (rnd (q * 1000000) / 8)" "rnd (rnd (q * 1000000) / 8) \<le> 1250000000"
      by simp_all
    have pos: "0 \<le> q" using q(2) rnd_nonneg [of "1/10"] by simp
    have "Fin q * Fin 1000000 = Fin (rnd (q * 1000000))"
      using q(3) pos by (simp add: f64_of_rat_small f64_max_def)
    then have "Fin q * Fin 1000000 / Fin 8 = Fin (rnd (rnd (q * 1000000) / 8))"
      using m by (simp add: f64_of_rat_small f64_max_def)
    moreover have "f64_to_int64 (Fin (rnd (rnd (q * 1000000) / 8))) = \<lfloor>rnd (rnd (q * 1000000) / 8)\<rfloor>"
      using d by (simp add: f64_to_int64_def rat_trunc_def)
    moreover have fl: "12500 \<le> \<lfloor>rnd (rnd (q * 1000000) / 8)\<rfloor>" "\<lfloor>rnd (rnd (q * 1000000) / 8)\<rfloor> \<le> 1250000000"
      using d by (simp_all add: le_floor_iff)
    moreover have "uint (word_of_int \<lfloor>rnd (rnd (q * 1000000) / 8)\<rfloor> :: 64 word) = \<lfloor>rnd (rnd (q * 1000000) / 8)\<rfloor>"
      using fl by (simp add: uint_word_of_int)
    ultimately have "uint (na_rate64 (attrs_of p)) = \<lfloor>rnd (rnd (q * 1000000) / 8)\<rfloor>"
      using q(1) d(2) by (simp add: attrs_of_def f64_to_uint64_def del: f64_mul_Fin f64_div_Fin)
    with fl q(1) show ?thesis by simp
  qed
  from delay jitter rate show ?thesis by blast
qed

text \<open>
  C26: What is validated reaches the kernel as meant: the microseconds of delay and jitter and the
  bytes per second of the rate are the truncated products, within 2 s, 1 s and 1.25 GB/s, so that no
  conversion to the 32- and 64-bit attributes wraps around, and a rate is never rounded down to "no
  limit".
\<close>

theorem validated_attrs:
  assumes "validate p = None" "params_proper p"
  shows "uint (na_latency (attrs_of p)) \<le> 2000000 \<and> uint (na_jitter (attrs_of p)) \<le> 1000000 \<and>
    uint (na_rate64 (attrs_of p)) \<le> 1250000000 \<and>
    (\<forall>q. p_delay p = Some (Fin q) \<longrightarrow> uint (na_latency (attrs_of p)) = \<lfloor>rnd (q * 1000)\<rfloor>) \<and>
    (\<forall>q. p_jitter p = Some (Fin q) \<longrightarrow> uint (na_jitter (attrs_of p)) = \<lfloor>rnd (q * 1000)\<rfloor>) \<and>
    (\<forall>q. p_rate p = Some (Fin q) \<longrightarrow> 12500 \<le> uint (na_rate64 (attrs_of p)) \<and>
       uint (na_rate64 (attrs_of p)) = \<lfloor>rnd (rnd (q * 1000000) / 8)\<rfloor>)"
  using assms by (rule attrs_scaled)

definition ex_params :: params where
  "ex_params = \<lparr>p_delay = Some (Fin 50), p_jitter = Some (Fin 5), p_loss = None, p_rate = Some (Fin 20)\<rparr>"

lemma ex_params_valid: "validate ex_params = None" "params_proper ex_params"
  by code_simp+

theorem validated_attrs_witness: "uint (na_latency (attrs_of ex_params)) = \<lfloor>rnd (50 * 1000 :: rat)\<rfloor>"
  using validated_attrs [OF ex_params_valid] by (simp add: ex_params_def)

end
