(* ===== verification/LinkdTopo.thy ===== *)
theory LinkdTopo
  imports NetIp Shape
begin

text \<open>
  \<open>linkd/internal/topo\<close> and \<open>DevByAddr\<close> of \<open>linkd/internal/shape\<close>: which border-router interfaces
  a host has, and the network device behind each.  The decoded topology files and the kernel's list of
  links are arguments; a Go panic is a value of the error type.
\<close>

record linkd_iface =
  li_ifid :: string
  li_neighbor :: string
  li_link_to :: string
  li_local_ip :: ip_addr

record linkd_iface_conf =
  lc_local :: string
  lc_isd_as :: string
  lc_link_to :: string

record linkd_topo_file =
  lt_border_routers :: "(string, (string, linkd_iface_conf) gomap) gomap"

datatype linkd_topo_error = LtNoFiles | LtReadError string | LtBadAddress string string | LtPanic

text \<open>\<open>host[:strings.LastIndex(host, ":")]\<close> panics when there is no colon.\<close>

definition local_host :: "string \<Rightarrow> string option" where
  "local_host addr = (case last_index_byte CHR '':'' addr of
     None \<Rightarrow> None
   | Some i \<Rightarrow> Some (trim_suffix (trim_prefix (take i addr) ''['') '']''))"

fun linkd_ifaces :: "(string, linkd_iface_conf) gomap \<Rightarrow> linkd_topo_error + linkd_iface list" where
  "linkd_ifaces [] = Inr []"
| "linkd_ifaces ((ifid, ic) # rest) = (case local_host (lc_local ic) of
     None \<Rightarrow> Inl LtPanic
   | Some host \<Rightarrow> (case parse_addr host of
       None \<Rightarrow> Inl (LtBadAddress ifid host)
     | Some ip \<Rightarrow> (case linkd_ifaces rest of
         Inl e \<Rightarrow> Inl e
       | Inr out \<Rightarrow> Inr (\<lparr>li_ifid = ifid, li_neighbor = lc_isd_as ic, li_link_to = lc_link_to ic,
           li_local_ip = ip\<rparr> # out))))"

fun linkd_routers :: "(string, (string, linkd_iface_conf) gomap) gomap \<Rightarrow> linkd_topo_error + linkd_iface list" where
  "linkd_routers [] = Inr []"
| "linkd_routers ((_, ifs) # rest) = (case linkd_ifaces ifs of
     Inl e \<Rightarrow> Inl e
   | Inr out \<Rightarrow> (case linkd_routers rest of Inl e \<Rightarrow> Inl e | Inr out' \<Rightarrow> Inr (out @ out')))"

fun linkd_files :: "(linkd_topo_error + linkd_topo_file) list \<Rightarrow> linkd_topo_error + linkd_iface list" where
  "linkd_files [] = Inr []"
| "linkd_files (Inl e # fs) = Inl e"
| "linkd_files (Inr t # fs) = (case linkd_routers (lt_border_routers t) of
     Inl e \<Rightarrow> Inl e
   | Inr out \<Rightarrow> (case linkd_files fs of Inl e \<Rightarrow> Inl e | Inr out' \<Rightarrow> Inr (out @ out')))"

text \<open>The sort key drops the error of \<open>Atoi\<close>: what is not a number sorts as zero.\<close>

definition linkd_load :: "(linkd_topo_error + linkd_topo_file) list \<Rightarrow> linkd_topo_error + linkd_iface list" where
  "linkd_load files =
     (if files = [] then Inl LtNoFiles
      else map_sum id (sort_key (\<lambda>i. fst (atoi_full (li_ifid i)))) (linkd_files files))"

section \<open>The device of an address\<close>

definition addr_from_slice :: "8 word list \<Rightarrow> ip_addr option" where
  "addr_from_slice b = (if length b = 4 then Some (IPv4 b)
     else if length b = 16 then Some (IPv6 b '''') else None)"

definition owns :: "8 word list list \<Rightarrow> ip_addr \<Rightarrow> bool" where
  "owns addrs ip = list_ex (\<lambda>b. case addr_from_slice b of None \<Rightarrow> False | Some got \<Rightarrow> addr_unmap got = ip) addrs"

text \<open>\<open>LinkList\<close> with each link's \<open>AddrList\<close>; a link whose addresses cannot be read is skipped.\<close>

fun find_dev :: "(string \<times> (nl_error + 8 word list list)) list \<Rightarrow> ip_addr \<Rightarrow> string option" where
  "find_dev [] ip = None"
| "find_dev ((name, addrs) # links) ip = (case addrs of
     Inl e \<Rightarrow> find_dev links ip
   | Inr as \<Rightarrow> if owns as ip then Some name else find_dev links ip)"

datatype dev_error = LinkListFailed nl_error | NoDevice ip_addr

definition dev_by_addr ::
  "nl_error + (string \<times> (nl_error + 8 word list list)) list \<Rightarrow> ip_addr \<Rightarrow> dev_error + string" where
  "dev_by_addr links ip = (case links of
     Inl e \<Rightarrow> Inl (LinkListFailed e)
   | Inr ls \<Rightarrow> (case find_dev ls ip of None \<Rightarrow> Inl (NoDevice ip) | Some d \<Rightarrow> Inr d))"

section \<open>Managed interfaces\<close>

record managed_iface =
  mi_iface :: linkd_iface
  mi_dev :: string

abbreviation mi_ifid :: "managed_iface \<Rightarrow> string" where
  "mi_ifid m \<equiv> li_ifid (mi_iface m)"

text \<open>The loop of \<open>main\<close>: an interface without a device is logged and skipped.\<close>

definition managed_ifaces ::
  "nl_error + (string \<times> (nl_error + 8 word list list)) list \<Rightarrow> linkd_iface list \<Rightarrow> managed_iface list" where
  "managed_ifaces links ifs = List.map_filter (\<lambda>i. case dev_by_addr links (li_local_ip i) of
     Inl _ \<Rightarrow> None | Inr dev \<Rightarrow> Some \<lparr>mi_iface = i, mi_dev = dev\<rparr>) ifs"

section \<open>Properties\<close>

lemma local_host_v6: "local_host (CHR ''['' # h @ '']:'' @ port) = Some h"
  if "CHR '':'' \<notin> set port"
proof -
  have "last_index_byte CHR '':'' ((CHR ''['' # h @ '']'') @ CHR '':'' # port) = Some (length h + 2)"
    using last_index_byte_append [OF that, of "CHR ''['' # h @ '']''"] by simp
  then have "last_index_byte CHR '':'' (CHR ''['' # h @ '']:'' @ port) = Some (length h + 2)" by simp
  moreover have "take (length h + 2) (CHR ''['' # h @ '']:'' @ port) = ''['' @ (h @ '']'')" by simp
  ultimately show ?thesis
    unfolding local_host_def by (simp only: option.case trim_prefix_append) (simp add: trim_suffix_def)
qed

lemma linkd_ifaces_sound:
  "linkd_ifaces ifs = Inr out \<Longrightarrow>
   map (\<lambda>i. (li_ifid i, li_neighbor i, li_link_to i)) out = map (\<lambda>(k, c). (k, lc_isd_as c, lc_link_to c)) ifs \<and>
   list_all2 (\<lambda>i (k, c). \<exists>h. local_host (lc_local c) = Some h \<and> parse_addr h = Some (li_local_ip i)) out ifs"
  by (induction ifs arbitrary: out rule: linkd_ifaces.induct) (auto split: option.splits sum.splits)

lemma find_dev_owner:
  "find_dev links ip = Some d \<Longrightarrow> \<exists>as. (d, Inr as) \<in> set links \<and> owns as ip"
  by (induction links) (auto split: sum.splits if_splits)

end
