(* ===== verification/BgpStatus.thy ===== *)
theory BgpStatus
  imports Prelude
begin

text \<open>
  \<open>linkd/internal/bgpstatus\<close>: the BGP sessions and best routes that linkd reads off birdc's text
  output, behind a short-lived cache.  Running birdc is a parameter, and so is the parsing of a
  local timestamp, which depends on the host's time zone.
\<close>

section \<open>Data\<close>

record session =
  bs_ifid :: string
  bs_state :: string
  bs_bfd :: string
  bs_since :: int

record route =
  rt_prefix_as :: int
  rt_ifid :: string

record bgp_snapshot =
  sn_sessions :: "session list"
  sn_routes :: "route list"

text \<open>\<open>fetchedAt\<close> is \<open>None\<close> while it is the zero time; times are in nanoseconds.\<close>

record collector =
  co_ifid_by_dev :: "string \<rightharpoonup> string"
  co_ttl :: int
  co_cached :: bgp_snapshot
  co_fetched_at :: "int option"

type_synonym birdc = "string \<Rightarrow> string list \<Rightarrow> string + string"

datatype bgp_error = ProtocolsFailed string | BfdFailed string | RouteFailed string

definition collector_new :: "(string, string) gomap \<Rightarrow> collector" where
  "collector_new devByIfid = \<lparr>
     co_ifid_by_dev = foldl (\<lambda>m (ifid, dev). m(dev \<mapsto> ifid)) Map.empty devByIfid,
     co_ttl = 2 * 10 ^ 9, co_cached = \<lparr>sn_sessions = [], sn_routes = []\<rparr>, co_fetched_at = None\<rparr>"

section \<open>Parsers\<close>

definition newline :: char where "newline = CHR 0x0A"

definition parse_protocol_line :: "(string \<Rightarrow> int option) \<Rightarrow> string \<Rightarrow> session option" where
  "parse_protocol_line parse_time line =
     (let f = str_fields line in
      if length f < 4 \<or> f ! 1 \<noteq> ''BGP'' \<or> \<not> has_prefix (f ! 0) ''bgp_if'' then None
      else Some \<lparr>bs_ifid = trim_prefix (f ! 0) ''bgp_if'',
        bs_state = (if 7 \<le> length f then f ! 6 else f ! 3), bs_bfd = '''',
        bs_since = (if 6 \<le> length f
          then (case parse_time (f ! 4 @ '' '' @ f ! 5) of Some t \<Rightarrow> t | None \<Rightarrow> 0) else 0)\<rparr>)"

definition parse_protocols :: "(string \<Rightarrow> int option) \<Rightarrow> string \<Rightarrow> session list" where
  "parse_protocols parse_time out = List.map_filter (parse_protocol_line parse_time) (split_on newline out)"

definition parse_route_line :: "string \<Rightarrow> route option" where
  "parse_route_line line =
     (let f = str_fields line in
      if length f < 3 \<or> f ! 1 \<noteq> ''unicast'' \<or> \<not> has_prefix (f ! 2) ''[bgp_if'' then None
      else (case cut_prefix (f ! 0) ''10.'' of
          None \<Rightarrow> None
        | Some rest \<Rightarrow> (case cut_suffix rest ''.0.0/16'' of
            None \<Rightarrow> None
          | Some asStr \<Rightarrow> (case atoi asStr of
              None \<Rightarrow> None
            | Some n \<Rightarrow> Some \<lparr>rt_prefix_as = n, rt_ifid = trim_prefix (f ! 2) ''[bgp_if''\<rparr>))))"

definition parse_routes :: "string \<Rightarrow> route list" where
  "parse_routes out = List.map_filter parse_route_line (split_on newline out)"

definition parse_bfd :: "string \<Rightarrow> (string \<rightharpoonup> string) \<Rightarrow> string \<rightharpoonup> string" where
  "parse_bfd out ifidByDev = foldl (\<lambda>m line.
       let f = str_fields line in
       if length f < 3 then m
       else (case ifidByDev (f ! 1) of None \<Rightarrow> m | Some ifid \<Rightarrow> m(ifid \<mapsto> f ! 2)))
     Map.empty (split_on newline out)"

section \<open>The cached snapshot\<close>

text \<open>\<open>now\<close> is the clock at the check, \<open>now2\<close> after the refresh; a missing BFD row reads as "".\<close>

definition snapshot ::
  "birdc \<Rightarrow> (string \<Rightarrow> int option) \<Rightarrow> int \<Rightarrow> int \<Rightarrow> collector \<Rightarrow> collector \<times> (bgp_error + bgp_snapshot)" where
  "snapshot run parse_time now now2 c =
     (if (case co_fetched_at c of None \<Rightarrow> False | Some t \<Rightarrow> now - t < co_ttl c) then (c, Inr (co_cached c))
      else (case run ''birdc'' [''-r'', ''show'', ''protocols''] of
        Inl e \<Rightarrow> (c, Inl (ProtocolsFailed e))
      | Inr proto \<Rightarrow> (case run ''birdc'' [''-r'', ''show'', ''bfd'', ''sessions''] of
          Inl e \<Rightarrow> (c, Inl (BfdFailed e))
        | Inr bfd \<Rightarrow> (case run ''birdc'' [''-r'', ''show'', ''route'', ''primary''] of
            Inl e \<Rightarrow> (c, Inl (RouteFailed e))
          | Inr routes \<Rightarrow>
              let bfdStates = parse_bfd bfd (co_ifid_by_dev c);
                  ss = map (\<lambda>s. s\<lparr>bs_bfd := (case bfdStates (bs_ifid s) of None \<Rightarrow> '''' | Some b \<Rightarrow> b)\<rparr>)
                    (parse_protocols parse_time proto);
                  snap = \<lparr>sn_sessions = ss, sn_routes = parse_routes routes\<rparr> in
              (c\<lparr>co_cached := snap, co_fetched_at := Some now2\<rparr>, Inr snap)))))"

section \<open>Properties of the parsers\<close>

lemma fields_aux_word:
  "list_all (\<lambda>c. \<not> is_space c) w \<Longrightarrow> str_fields_aux acc (w @ s) = str_fields_aux (rev w @ acc) s"
  by (induction w arbitrary: acc) auto

lemma fields_word_end: "list_all (\<lambda>c. \<not> is_space c) w \<Longrightarrow> w \<noteq> [] \<Longrightarrow> str_fields w = [w]"
  using fields_aux_word [of w "[]" "[]"] by (simp add: str_fields_def)

lemma fields_word: "list_all (\<lambda>c. \<not> is_space c) w \<Longrightarrow> w \<noteq> [] \<Longrightarrow> is_space c \<Longrightarrow>
    str_fields (w @ c # s) = w # str_fields s"
  using fields_aux_word [of w "[]" "c # s"] by (simp add: str_fields_def)

lemma fields_space: "is_space c \<Longrightarrow> str_fields (c # s) = str_fields s"
  by (simp add: str_fields_def)

text \<open>
  The lines of a table dump as BIRD prints them: the banner and the headings, the next hop under a
  route, and the routes themselves, each with its destination, the kind of route, the protocol it comes from and
  whatever else the line says.  \<open>Fabric\<close> is the row of a fabric prefix learned over the session
  \<open>bgp_if<ifid>\<close>, \<open>Row\<close> any other row.
\<close>

datatype table_line =
    Banner string | Restricted | Heading string | Blank
  | Via string string
  | Fabric route nat string
  | Row string nat string string string

definition row_text :: "string \<Rightarrow> nat \<Rightarrow> string \<Rightarrow> string \<Rightarrow> string \<Rightarrow> string" where
  "row_text dest pad kind proto rest =
     dest @ replicate (Suc pad) CHR '' '' @ kind @ '' ['' @ proto @ '' '' @ rest"

fun line_text :: "table_line \<Rightarrow> string" where
  "line_text (Banner version) = ''BIRD '' @ version @ '' ready.''"
| "line_text Restricted = ''Access restricted''"
| "line_text (Heading name) = ''Table '' @ name @ '':''"
| "line_text Blank = ''''"
| "line_text (Via addr dev) = CHR 0x09 # ''via '' @ addr @ '' on '' @ dev"
| "line_text (Fabric r pad rest) =
     row_text (''10.'' @ itoa (rt_prefix_as r) @ ''.0.0/16'') pad ''unicast'' (''bgp_if'' @ rt_ifid r) rest"
| "line_text (Row dest pad kind proto rest) = row_text dest pad kind proto rest"

fun unlines :: "string list \<Rightarrow> string" where
  "unlines [] = []"
| "unlines (l # ls) = l @ newline # unlines ls"

definition no_space :: "string \<Rightarrow> bool" where
  "no_space s \<longleftrightarrow> list_all (\<lambda>c. \<not> is_space c) s"

text \<open>
  Words have no white space in them; \<open>unicast\<close> is neither a version nor an address.  A \<open>Row\<close> is
  another kind of route, or from another protocol, or to another destination than a \<open>Fabric\<close> one.
\<close>

fun wf_line :: "table_line \<Rightarrow> bool" where
  "wf_line (Banner version) = (no_space version \<and> version \<noteq> [] \<and> version \<noteq> ''unicast'')"
| "wf_line Restricted = True"
| "wf_line (Heading name) = no_space name"
| "wf_line Blank = True"
| "wf_line (Via addr dev) = (no_space addr \<and> addr \<noteq> [] \<and> addr \<noteq> ''unicast'' \<and> no_space dev)"
| "wf_line (Fabric r pad rest) = (is_int64 (rt_prefix_as r) \<and> no_space (rt_ifid r) \<and> newline \<notin> set rest)"
| "wf_line (Row dest pad kind proto rest) =
     (no_space dest \<and> dest \<noteq> [] \<and> no_space kind \<and> kind \<noteq> [] \<and> no_space proto \<and> newline \<notin> set rest \<and>
      (kind \<noteq> ''unicast'' \<or> \<not> has_prefix proto ''bgp_if'' \<or>
       (\<forall>s. dest = ''10.'' @ s @ ''.0.0/16'' \<longrightarrow> atoi s = None)))"

fun fabric_route :: "table_line \<Rightarrow> route option" where
  "fabric_route (Fabric r pad rest) = Some r"
| "fabric_route _ = None"

lemma itoa_no_space: "no_space (itoa n)"
proof -
  have "\<not> is_space c" if "c \<in> set (itoa n)" for c
    using itoa_chars [OF that] by (auto simp: is_digit_def is_space_def)
  then show ?thesis by (simp add: no_space_def list_all_iff)
qed

lemma no_space_append [simp]: "no_space (s @ t) \<longleftrightarrow> no_space s \<and> no_space t"
  by (simp add: no_space_def)

lemma no_space_simps [simp]: "no_space []" "no_space (c # s) \<longleftrightarrow> \<not> is_space c \<and> no_space s"
  by (simp_all add: no_space_def)

lemma no_space_newline: "no_space s \<Longrightarrow> newline \<notin> set s"
  by (auto simp: no_space_def list_all_iff newline_def is_space_def)

lemma fields_gap: "str_fields (replicate n CHR '' '' @ s) = str_fields s"
  by (induction n) (simp_all add: fields_space is_space_def)

lemma fields_blank: "no_space w \<Longrightarrow> w \<noteq> [] \<Longrightarrow> str_fields (w @ CHR '' '' # s) = w # str_fields s"
  unfolding no_space_def by (rule fields_word) (simp_all add: is_space_def)

lemma row_fields:
  assumes "no_space dest" "dest \<noteq> []" "no_space kind" "kind \<noteq> []" "no_space proto"
  shows "str_fields (row_text dest pad kind proto rest) = dest # kind # (''['' @ proto) # str_fields rest"
  using assms fields_blank [of "''['' @ proto" rest] fields_blank [of kind "''['' @ proto @ '' '' @ rest"]
  by (simp add: row_text_def fields_blank fields_gap is_space_def)

lemma parse_route_line_iff:
  "parse_route_line l = Some r \<longleftrightarrow> (\<exists>s rest. str_fields l =
     (''10.'' @ s @ ''.0.0/16'') # ''unicast'' # (''[bgp_if'' @ rt_ifid r) # rest \<and> atoi s = Some (rt_prefix_as r))"
  (is "?parsed \<longleftrightarrow> ?row")
proof
  assume ?row
  then obtain s rest where f: "str_fields l = (''10.'' @ s @ ''.0.0/16'') # ''unicast'' # (''[bgp_if'' @ rt_ifid r) # rest"
    and n: "atoi s = Some (rt_prefix_as r)" by blast
  have "cut_prefix (''10.'' @ s @ ''.0.0/16'') ''10.'' = Some (s @ ''.0.0/16'')" by (rule cut_prefix_append)
  moreover have "cut_suffix (s @ ''.0.0/16'') ''.0.0/16'' = Some s" by (rule cut_suffix_append)
  moreover have "trim_prefix (''[bgp_if'' @ rt_ifid r) ''[bgp_if'' = rt_ifid r" by (rule trim_prefix_append)
  ultimately show ?parsed using n unfolding parse_route_line_def f Let_def by simp
next
  assume p: ?parsed
  then obtain rest' s where g: "2 < length (str_fields l)" "str_fields l ! 1 = ''unicast''" "has_prefix (str_fields l ! 2) ''[bgp_if''"
    and c: "cut_prefix (str_fields l ! 0) ''10.'' = Some rest'" "cut_suffix rest' ''.0.0/16'' = Some s" "atoi s = Some (rt_prefix_as r)"
    and r: "rt_ifid r = trim_prefix (str_fields l ! 2) ''[bgp_if''"
    by (auto simp: parse_route_line_def Let_def split: if_splits option.splits)
  from g(1) obtain a b d ds where f: "str_fields l = a # b # d # ds"
    by (cases "str_fields l" rule: remdups_adj.cases; cases "tl (tl (str_fields l))") auto
  show ?row using g c r unfolding f
    by (auto simp: cut_prefix_Some cut_suffix_Some prefix_def trim_prefix_def split: option.splits)
qed

lemma parse_route_line_cong: "str_fields l = str_fields l' \<Longrightarrow> parse_route_line l = parse_route_line l'"
  by (simp add: parse_route_line_def)

text \<open>The rows that the session's routes are read from, and the lines that give nothing.\<close>

lemma fabric_line: "wf_line (Fabric r pad rest) \<Longrightarrow> parse_route_line (line_text (Fabric r pad rest)) = Some r"
  using itoa_no_space [of "rt_prefix_as r"]
    row_fields [of "''10.'' @ itoa (rt_prefix_as r) @ ''.0.0/16''" "''unicast''" "''bgp_if'' @ rt_ifid r" pad rest]
  by (auto simp: parse_route_line_iff is_space_def intro!: exI [of _ "itoa (rt_prefix_as r)"])

lemma other_row: "wf_line (Row dest pad kind proto rest) \<Longrightarrow> parse_route_line (line_text (Row dest pad kind proto rest)) = None"
proof (rule ccontr)
  assume wf: "wf_line (Row dest pad kind proto rest)"
    and "parse_route_line (line_text (Row dest pad kind proto rest)) \<noteq> None"
  then obtain r where "parse_route_line (line_text (Row dest pad kind proto rest)) = Some r" by auto
  with wf show False by (auto simp: parse_route_line_iff row_fields prefix_def)
qed

lemma text_lines:
  "wf_line (Banner v) \<Longrightarrow> str_fields (line_text (Banner v)) = [''BIRD'', v, ''ready.'']"
  "str_fields (line_text Restricted) = [''Access'', ''restricted'']"
  "wf_line (Heading t) \<Longrightarrow> str_fields (line_text (Heading t)) = [''Table'', t @ '':'']"
  "str_fields (line_text Blank) = []"
  "wf_line (Via a d) \<Longrightarrow> str_fields (line_text (Via a d)) = ''via'' # a # ''on'' # str_fields d"
proof -
  have e: "str_fields w = [w]" if "no_space w" "w \<noteq> []" for w
    using that fields_word_end by (simp add: no_space_def)
  show "wf_line (Banner v) \<Longrightarrow> str_fields (line_text (Banner v)) = [''BIRD'', v, ''ready.'']"
    using fields_blank [of "''BIRD''" "v @ '' ready.''"] fields_blank [of v "''ready.''"] by (simp add: e is_space_def)
  show "str_fields (line_text Restricted) = [''Access'', ''restricted'']"
    using fields_blank [of "''Access''" "''restricted''"] by (simp add: e is_space_def)
  show "wf_line (Heading t) \<Longrightarrow> str_fields (line_text (Heading t)) = [''Table'', t @ '':'']"
    using fields_blank [of "''Table''" "t @ '':''"] by (simp add: e is_space_def)
  show "str_fields (line_text Blank) = []" by (simp add: str_fields_def)
  show "wf_line (Via a d) \<Longrightarrow> str_fields (line_text (Via a d)) = ''via'' # a # ''on'' # str_fields d"
    using fields_blank [of "''via''" "a @ '' on '' @ d"] fields_blank [of a "''on '' @ d"] fields_blank [of "''on''" d]
    by (simp add: fields_space is_space_def)
qed

lemma line_parsed: "wf_line l \<Longrightarrow> parse_route_line (line_text l) = fabric_route l"
proof (cases l)
  case (Fabric r pad rest)
  then show "wf_line l \<Longrightarrow> ?thesis" using fabric_line by simp
next
  case (Row dest pad kind proto rest)
  then show "wf_line l \<Longrightarrow> ?thesis" using other_row by simp
qed (simp_all only: fabric_route.simps, simp_all add: parse_route_line_def text_lines Let_def del: line_text.simps)

lemma newline_split:
  assumes "\<forall>l \<in> set ls. newline \<notin> set l"
  shows "split_on newline (unlines ls) = ls @ [[]]"
  using assms by (induction ls) (auto simp: split_on_append)

lemma parse_route_line_Nil: "parse_route_line [] = None"
  by (simp add: parse_route_line_def str_fields_def Let_def)

lemma line_no_newline: "wf_line l \<Longrightarrow> newline \<notin> set (line_text l)"
  using no_space_newline [OF itoa_no_space]
  by (cases l) (auto simp: row_text_def no_space_newline, auto simp: newline_def)

text \<open>
  C23: Route parsing reads the fabric routes out of a table dump, and nothing else.  Whatever banners,
  headings, next hops and other routes (blackholes and other kinds, routes of other
  protocols than a fabric session, other destinations) the dump holds and wherever they stand, the
  result is the list of the fabric prefixes' unicast routes over \<open>bgp_if<ifid>\<close>, in order, each with its AS and interface.
\<close>

theorem parse_routes_roundtrip:
  assumes "\<forall>l \<in> set ls. wf_line l"
  shows "parse_routes (unlines (map line_text ls)) = List.map_filter fabric_route ls"
proof -
  have "List.map_filter parse_route_line (map line_text ls) = List.map_filter fabric_route ls"
    using assms by (induction ls) (simp_all add: map_filter_simps line_parsed split: option.splits)
  then show ?thesis
    unfolding parse_routes_def using newline_split [of "map line_text ls"] assms
    by (simp add: List.map_filter_def parse_route_line_Nil line_no_newline)
qed

text \<open>The dump of \<open>bgpstatus_test.go\<close>.\<close>

definition ex_table :: "table_line list" where
  "ex_table = [Banner ''2.14'', Restricted, Heading ''master4'',
     Fabric \<lparr>rt_prefix_as = 156, rt_ifid = ''48610''\<rparr> 7 ''14:40:28.269] * (100) [AS156i]'',
     Via ''fd00:fade:13::159'' ''sci13'',
     Fabric \<lparr>rt_prefix_as = 153, rt_ifid = ''59691''\<rparr> 7 ''15:24:57.010] * (100) [AS153i]'',
     Via ''fd00:fade:f::154'' ''sciF'',
     Row ''10.20.5.0/24'' 8 ''unicast'' ''originate4'' ''14:40:24.050] * (200)'',
     Via ''10.20.3.201'' ''eth0'',
     Row ''10.158.0.0/16'' 7 ''blackhole'' ''originate4'' ''14:40:24.050] * (200)'',
     Fabric \<lparr>rt_prefix_as = 155, rt_ifid = ''48164''\<rparr> 7 ''14:40:25.460] * (100) [AS155i]'',
     Via ''fd00:fade:11::155'' ''sci11'',
     Blank, Heading ''master6'',
     Row ''fd00:beef:153::/48'' 2 ''unicast'' ''bgp_if59691'' ''15:24:57.036] * (100) [AS153i]'',
     Via ''fd00:fade:f::154'' ''sciF'',
     Row ''fd00:beef:158::/48'' 2 ''blackhole'' ''originate6'' ''14:40:24.050] * (200)'']"

theorem parse_routes_roundtrip_witness:
  "parse_routes (unlines (map line_text ex_table)) =
    [\<lparr>rt_prefix_as = 156, rt_ifid = ''48610''\<rparr>, \<lparr>rt_prefix_as = 153, rt_ifid = ''59691''\<rparr>,
     \<lparr>rt_prefix_as = 155, rt_ifid = ''48164''\<rparr>]"
proof -
  have "\<forall>l \<in> set ex_table. wf_line l"
    by (simp add: ex_table_def no_space_def is_space_def newline_def is_int64_def min_int64_def max_int64_def)
  from parse_routes_roundtrip [OF this] show ?thesis by (simp add: ex_table_def map_filter_simps)
qed

section \<open>Properties of the cache\<close>

text \<open>What a refresh that works makes of birdc's output, and a sequence of requests.\<close>

definition fresh_snapshot :: "birdc \<Rightarrow> (string \<Rightarrow> int option) \<Rightarrow> (string \<rightharpoonup> string) \<Rightarrow> bgp_snapshot option" where
  "fresh_snapshot run pt devs = (case (run ''birdc'' [''-r'', ''show'', ''protocols''],
      run ''birdc'' [''-r'', ''show'', ''bfd'', ''sessions''], run ''birdc'' [''-r'', ''show'', ''route'', ''primary'']) of
     (Inr proto, Inr bfd, Inr routes) \<Rightarrow> Some \<lparr>
       sn_sessions = map (\<lambda>s. s\<lparr>bs_bfd := (case parse_bfd bfd devs (bs_ifid s) of None \<Rightarrow> '''' | Some b \<Rightarrow> b)\<rparr>)
         (parse_protocols pt proto),
       sn_routes = parse_routes routes\<rparr>
   | _ \<Rightarrow> None)"

definition collector_run ::
  "(string \<Rightarrow> int option) \<Rightarrow> collector \<Rightarrow> (int \<times> int \<times> birdc) list \<Rightarrow> collector" where
  "collector_run pt c reqs = foldl (\<lambda>c (now, now2, run). fst (snapshot run pt now now2 c)) c reqs"

text \<open>The first of the three commands that failed.\<close>

definition birdc_failure :: "birdc \<Rightarrow> bgp_error \<Rightarrow> bool" where
  "birdc_failure run e \<longleftrightarrow> (case run ''birdc'' [''-r'', ''show'', ''protocols''] of
     Inl m \<Rightarrow> e = ProtocolsFailed m
   | Inr _ \<Rightarrow> (case run ''birdc'' [''-r'', ''show'', ''bfd'', ''sessions''] of
       Inl m \<Rightarrow> e = BfdFailed m
     | Inr _ \<Rightarrow> (case run ''birdc'' [''-r'', ''show'', ''route'', ''primary''] of
         Inl m \<Rightarrow> e = RouteFailed m | Inr _ \<Rightarrow> False)))"

lemma birdc_failure_None: "birdc_failure run e \<Longrightarrow> fresh_snapshot run pt devs = None"
  by (auto simp: birdc_failure_def fresh_snapshot_def split: sum.splits)

text \<open>
  The last refresh in a history of requests: the request \<open>(t, t2, run)\<close> refreshed the collector to
  \<open>snap\<close> at \<open>t2\<close>, and every request since was answered within the time to live of \<open>t2\<close> or found birdc failing.
\<close>

definition last_refresh ::
  "(string \<Rightarrow> int option) \<Rightarrow> collector \<Rightarrow> (int \<times> int \<times> birdc) list \<Rightarrow> int \<Rightarrow> bgp_snapshot \<Rightarrow> bool" where
  "last_refresh pt c0 reqs t2 snap \<longleftrightarrow> (\<exists>pre t run post. reqs = pre @ (t, t2, run) # post \<and>
     snapshot run pt t t2 (collector_run pt c0 pre) =
       ((collector_run pt c0 pre)\<lparr>co_cached := snap, co_fetched_at := Some t2\<rparr>, Inr snap) \<and>
     fresh_snapshot run pt (co_ifid_by_dev c0) = Some snap \<and>
     (\<forall>(n, _, run') \<in> set post. n - t2 < co_ttl c0 \<or> fresh_snapshot run' pt (co_ifid_by_dev c0) = None))"

lemma snapshot_cases:
  assumes "snapshot run pt now now2 c = (c', r)"
  obtains (hit) t where "co_fetched_at c = Some t" "now - t < co_ttl c" "c' = c" "r = Inr (co_cached c)"
  | (fail) e where "\<forall>t. co_fetched_at c = Some t \<longrightarrow> co_ttl c \<le> now - t" "birdc_failure run e" "c' = c" "r = Inl e"
  | (refresh) snap where "\<forall>t. co_fetched_at c = Some t \<longrightarrow> co_ttl c \<le> now - t"
      "fresh_snapshot run pt (co_ifid_by_dev c) = Some snap" "r = Inr snap"
      "c' = c\<lparr>co_cached := snap, co_fetched_at := Some now2\<rparr>"
  using assms
  by (auto simp: snapshot_def fresh_snapshot_def birdc_failure_def Let_def split: option.splits if_splits sum.splits)

lemma last_refresh_snoc:
  assumes "last_refresh pt c0 reqs t2 snap" "n - t2 < co_ttl c0 \<or> fresh_snapshot run pt (co_ifid_by_dev c0) = None"
  shows "last_refresh pt c0 (reqs @ [(n, n2, run)]) t2 snap"
proof -
  from assms(1) obtain pre t run' post where "reqs = pre @ (t, t2, run') # post"
    "snapshot run' pt t t2 (collector_run pt c0 pre) =
       ((collector_run pt c0 pre)\<lparr>co_cached := snap, co_fetched_at := Some t2\<rparr>, Inr snap)"
    "fresh_snapshot run' pt (co_ifid_by_dev c0) = Some snap"
    "\<forall>(n, _, run') \<in> set post. n - t2 < co_ttl c0 \<or> fresh_snapshot run' pt (co_ifid_by_dev c0) = None"
    by (auto simp: last_refresh_def)
  with assms(2) show ?thesis
    unfolding last_refresh_def by (intro exI [of _ pre] exI [of _ t] exI [of _ run'] exI [of _ "post @ [(n, n2, run)]"]) auto
qed

lemma collector_run_inv:
  assumes "c = collector_run pt c0 reqs" "co_fetched_at c0 = None"
  shows "co_ifid_by_dev c = co_ifid_by_dev c0 \<and> co_ttl c = co_ttl c0 \<and>
    (\<forall>t. co_fetched_at c = Some t \<longrightarrow> last_refresh pt c0 reqs t (co_cached c))"
  using assms(1)
proof (induction reqs arbitrary: c rule: rev_induct)
  case Nil
  then show ?case by (simp add: collector_run_def assms(2))
next
  case (snoc q reqs)
  obtain now now2 run where q: "q = (now, now2, run)" by (cases q)
  let ?c = "collector_run pt c0 reqs"
  obtain c' r where s: "snapshot run pt now now2 ?c = (c', r)" by (cases "snapshot run pt now now2 ?c")
  then have c: "c = c'" using snoc.prems q by (simp add: collector_run_def)
  note IH = snoc.IH [OF refl]
  from s show ?case
  proof (cases rule: snapshot_cases)
    case (hit t)
    with IH c q show ?thesis by (simp add: last_refresh_snoc)
  next
    case (fail e)
    with IH c q show ?thesis by (simp add: last_refresh_snoc birdc_failure_None [OF fail(2)])
  next
    case (refresh snap)
    have "last_refresh pt c0 (reqs @ [q]) now2 snap"
      unfolding last_refresh_def q
      by (intro exI [of _ reqs] exI [of _ now] exI [of _ run] exI [of _ "[]"]) (use s refresh IH in simp)
    with refresh IH c show ?thesis by simp
  qed
qed

text \<open>
  C24: The cache serves what birdc said last and nothing else.  Over any sequence of requests, an
  answer without an error either is the parse of the outputs of the last successful refresh, which is younger than
  the time to live and since which every request was itself served from the cache or failed, and then leaves the
  cache alone; or there is no refresh that young, and the answer is the parse of what birdc says
  now and becomes the cache.  An answer with an error means that there is no refresh that young and birdc
  fails now: it names the command that failed, and leaves the cache as it was.
\<close>

theorem snapshot_source:
  assumes "c = collector_run pt (collector_new devs) reqs"
    and "snapshot run pt now now2 c = (c', r)"
  shows "(\<exists>t snap. last_refresh pt (collector_new devs) reqs t snap \<and> now - t < 2 * 10 ^ 9 \<and> r = Inr snap \<and> c' = c) \<or>
    (\<forall>t. co_fetched_at c = Some t \<longrightarrow> 2 * 10 ^ 9 \<le> now - t \<and> last_refresh pt (collector_new devs) reqs t (co_cached c)) \<and>
    ((\<exists>snap. fresh_snapshot run pt (co_ifid_by_dev (collector_new devs)) = Some snap \<and> r = Inr snap \<and>
        c' = c\<lparr>co_cached := snap, co_fetched_at := Some now2\<rparr>) \<or>
     (\<exists>e. birdc_failure run e \<and> r = Inl e \<and> c' = c))"
proof -
  have inv: "co_ifid_by_dev c = co_ifid_by_dev (collector_new devs) \<and> co_ttl c = co_ttl (collector_new devs) \<and>
    (\<forall>t. co_fetched_at c = Some t \<longrightarrow> last_refresh pt (collector_new devs) reqs t (co_cached c))"
    by (rule collector_run_inv [OF assms(1)]) (simp add: collector_new_def)
  have ttl: "co_ttl (collector_new devs) = 2 * 10 ^ 9" by (simp add: collector_new_def)
  from assms(2) show ?thesis
  proof (cases rule: snapshot_cases)
    case (hit t)
    with inv ttl show ?thesis by auto
  next
    case (fail e)
    with inv ttl show ?thesis by simp
  next
    case (refresh snap)
    with inv ttl show ?thesis by simp
  qed
qed

text \<open>A birdc that answers at first and then fails: within the time to live the cache answers, after it
  the error does, and the cache is still there.\<close>

definition ex_birdc :: birdc where
  "ex_birdc cmd args = Inr []"

definition dead_birdc :: birdc where
  "dead_birdc cmd args = Inl ''exit status 1''"

definition ex_collector :: collector where
  "ex_collector = collector_run (\<lambda>_. None) (collector_new []) [(1, 2, ex_birdc), (5, 6, dead_birdc)]"

lemma ex_collector: "ex_collector = (collector_new [])\<lparr>co_fetched_at := Some 2\<rparr>"
  by (simp add: ex_collector_def collector_run_def snapshot_def ex_birdc_def collector_new_def parse_protocols_def
      parse_routes_def parse_bfd_def map_filter_simps parse_protocol_line_def parse_route_line_Nil
      str_fields_def Let_def)

theorem snapshot_source_witness:
  "last_refresh (\<lambda>_. None) (collector_new []) [(1, 2, ex_birdc), (5, 6, dead_birdc)] 2 \<lparr>sn_sessions = [], sn_routes = []\<rparr> \<and>
   snapshot dead_birdc (\<lambda>_. None) (3 * 10 ^ 9) (4 * 10 ^ 9) ex_collector = (ex_collector, Inl (ProtocolsFailed ''exit status 1''))"
proof -
  have s: "snapshot dead_birdc (\<lambda>_. None) (3 * 10 ^ 9) (4 * 10 ^ 9) ex_collector = (ex_collector, Inl (ProtocolsFailed ''exit status 1''))"
    by (simp add: ex_collector snapshot_def dead_birdc_def collector_new_def)
  have "co_fetched_at ex_collector = Some 2 \<and> co_cached ex_collector = \<lparr>sn_sessions = [], sn_routes = []\<rparr>"
    by (simp add: ex_collector collector_new_def)
  with snapshot_source [OF ex_collector_def s] s show ?thesis by auto
qed

end
