(* ===== verification/LinkdApi.thy ===== *)
theory LinkdApi
  imports LinkdTopo BgpStatus
begin

text \<open>
  \<open>linkd/internal/api\<close>: the REST handlers of linkd, \<open>linkd/internal/baseline\<close>: the story profile they
  restore, and the preshaping loop of \<open>linkd/cmd/scion-linkd\<close>.  A handler takes the decoded request
  and returns the response, the kernel state it leaves behind, and whether it called \<open>onChange\<close>, in one
  step; Go runs handlers concurrently, and LinkdReset shows what two overlapping PUTs leave.  The
  handlers know the kernel only as a \<open>Shaper\<close>; their lemmas are proved from the contract
  \<open>shaper_laws\<close> and hold of the netlink shaper by its interpretation.
\<close>

section \<open>Data\<close>

record link_json =
  lj_ifid :: string
  lj_neighbor :: string
  lj_link_to :: string
  lj_device :: string
  lj_shaping :: "params option"
  lj_baseline :: "params option"
  lj_shaped :: bool

record linkd_server =
  sv_ifaces :: "string \<rightharpoonup> managed_iface"
  sv_order :: "string list"
  sv_baseline :: "string \<rightharpoonup> params"

datatype linkd_error = UnknownIface string | BadBody | ReadFailed string shape_error
  | Rejected param_error | ApplyFailed string shape_error | RestoreFailed string shape_error
  | ClearFailed string shape_error | BgpNotConfigured | BgpUnavailable bgp_error

text \<open>The health body has the two flags only when a status function is configured.\<close>

datatype linkd_body = BErr linkd_error | BParams params | BCleared | BLinks "link_json list"
  | BHealth nat "(bool \<times> bool) option" | BBgp bgp_snapshot

record 'k reply =
  re_kernel :: 'k
  re_code :: int
  re_body :: linkd_body
  re_changed :: bool

definition linkd_new :: "managed_iface list \<Rightarrow> (string \<rightharpoonup> params) \<Rightarrow> linkd_server" where
  "linkd_new ifaces baseline = \<lparr>
     sv_ifaces = foldl (\<lambda>m i. m(mi_ifid i \<mapsto> i)) Map.empty ifaces,
     sv_order = map mi_ifid ifaces, sv_baseline = baseline\<rparr>"

section \<open>Comparing parameters\<close>

definition approx_eq :: "f64 option \<Rightarrow> f64 option \<Rightarrow> bool" where
  "approx_eq a b =
     (let av = (case a of None \<Rightarrow> Fin 0 | Some x \<Rightarrow> x); bv = (case b of None \<Rightarrow> Fin 0 | Some x \<Rightarrow> x);
          diff = go_abs (av - bv) in
      diff \<le> f64_of_rat (1/10) \<or> diff \<le> f64_of_rat (1/100) * go_max (go_abs av) (go_abs bv))"

definition params_equal :: "params \<Rightarrow> params \<Rightarrow> bool" where
  "params_equal a b \<longleftrightarrow> approx_eq (p_delay a) (p_delay b) \<and> approx_eq (p_jitter a) (p_jitter b) \<and>
     approx_eq (p_loss a) (p_loss b) \<and> approx_eq (p_rate a) (p_rate b)"

section \<open>Handlers\<close>

definition fail :: "'k \<Rightarrow> int \<Rightarrow> linkd_error \<Rightarrow> 'k reply" where
  "fail k code e = \<lparr>re_kernel = k, re_code = code, re_body = BErr e, re_changed = False\<rparr>"

text \<open>One entry of the list.  A device that cannot be read is listed as unshaped.\<close>

definition list_entry :: "'k shaper \<Rightarrow> linkd_server \<Rightarrow> 'k \<Rightarrow> managed_iface \<Rightarrow> link_json" where
  "list_entry sh sv k m =
     (let got = sh_get sh k (mi_dev m);
          cur = (case got of Inl _ \<Rightarrow> no_params | Inr p \<Rightarrow> p) in
      \<lparr>lj_ifid = mi_ifid m, lj_neighbor = li_neighbor (mi_iface m), lj_link_to = li_link_to (mi_iface m),
       lj_device = mi_dev m,
       lj_shaping = (case got of Inl _ \<Rightarrow> None | Inr p \<Rightarrow> if \<not> params_empty p then Some p else None),
       lj_baseline = sv_baseline sv (mi_ifid m),
       lj_shaped = (case sv_baseline sv (mi_ifid m) of
          Some b \<Rightarrow> \<not> params_equal cur b | None \<Rightarrow> \<not> params_empty cur)\<rparr>)"

definition linkd_list :: "'k shaper \<Rightarrow> linkd_server \<Rightarrow> 'k \<Rightarrow> 'k reply" where
  "linkd_list sh sv k = \<lparr>re_kernel = k, re_code = 200,
     re_body = BLinks (map (\<lambda>ifid. list_entry sh sv k (the (sv_ifaces sv ifid))) (sv_order sv)),
     re_changed = False\<rparr>"

text \<open>The body is \<open>None\<close> when it does not decode.\<close>

definition linkd_put :: "'k shaper \<Rightarrow> linkd_server \<Rightarrow> 'k \<Rightarrow> string \<Rightarrow> params option \<Rightarrow> 'k reply" where
  "linkd_put sh sv k ifid body = (case sv_ifaces sv ifid of
     None \<Rightarrow> fail k 404 (UnknownIface ifid)
   | Some m \<Rightarrow> (case body of
       None \<Rightarrow> fail k 400 BadBody
     | Some upd \<Rightarrow> (case sh_get sh k (mi_dev m) of
         Inl e \<Rightarrow> fail k 502 (ReadFailed (mi_dev m) e)
       | Inr cur \<Rightarrow>
           let merged = merge cur upd in
           (case validate merged of
              Some e \<Rightarrow> fail k 400 (Rejected e)
            | None \<Rightarrow> (case sh_apply sh k (mi_dev m) merged of
                (k', Some e) \<Rightarrow> fail k' 502 (ApplyFailed (mi_dev m) e)
              | (k', None) \<Rightarrow> \<lparr>re_kernel = k', re_code = 200, re_body = BParams merged, re_changed = True\<rparr>)))))"

definition linkd_del :: "'k shaper \<Rightarrow> linkd_server \<Rightarrow> 'k \<Rightarrow> string \<Rightarrow> 'k reply" where
  "linkd_del sh sv k ifid = (case sv_ifaces sv ifid of
     None \<Rightarrow> fail k 404 (UnknownIface ifid)
   | Some m \<Rightarrow> (case sv_baseline sv (mi_ifid m) of
       Some base \<Rightarrow> (case sh_apply sh k (mi_dev m) base of
           (k', Some e) \<Rightarrow> fail k' 502 (RestoreFailed (mi_dev m) e)
         | (k', None) \<Rightarrow> \<lparr>re_kernel = k', re_code = 200, re_body = BParams base, re_changed = True\<rparr>)
     | None \<Rightarrow> (case sh_clear sh k (mi_dev m) of
           (k', Some e) \<Rightarrow> fail k' 502 (ClearFailed (mi_dev m) e)
         | (k', None) \<Rightarrow> \<lparr>re_kernel = k', re_code = 200, re_body = BCleared, re_changed = True\<rparr>)))"

text \<open>The number of interfaces is the size of the map.\<close>

definition linkd_health :: "linkd_server \<Rightarrow> (bool \<times> bool) option \<Rightarrow> 'k \<Rightarrow> 'k reply" where
  "linkd_health sv status k = \<lparr>re_kernel = k, re_code = 200,
     re_body = BHealth (length (remdups (sv_order sv))) status, re_changed = False\<rparr>"

definition linkd_bgp :: "(bgp_error + bgp_snapshot) option \<Rightarrow> 'k \<Rightarrow> 'k reply" where
  "linkd_bgp snap k = (case snap of
     None \<Rightarrow> fail k 503 BgpNotConfigured
   | Some (Inl e) \<Rightarrow> fail k 503 (BgpUnavailable e)
   | Some (Inr s) \<Rightarrow> \<lparr>re_kernel = k, re_code = 200, re_body = BBgp s, re_changed = False\<rparr>)"

datatype linkd_request = ReqList | ReqPut string "params option" | ReqDel string
  | ReqHealth "(bool \<times> bool) option" | ReqBgp "(bgp_error + bgp_snapshot) option"

fun linkd_serve :: "'k shaper \<Rightarrow> linkd_server \<Rightarrow> 'k \<Rightarrow> linkd_request \<Rightarrow> 'k reply" where
  "linkd_serve sh sv k ReqList = linkd_list sh sv k"
| "linkd_serve sh sv k (ReqPut ifid body) = linkd_put sh sv k ifid body"
| "linkd_serve sh sv k (ReqDel ifid) = linkd_del sh sv k ifid"
| "linkd_serve sh sv k (ReqHealth status) = linkd_health sv status k"
| "linkd_serve sh sv k (ReqBgp snap) = linkd_bgp snap k"

definition linkd_run :: "'k shaper \<Rightarrow> linkd_server \<Rightarrow> 'k \<Rightarrow> linkd_request list \<Rightarrow> 'k" where
  "linkd_run sh sv k reqs = foldl (\<lambda>k r. re_kernel (linkd_serve sh sv k r)) k reqs"

section \<open>Baselines\<close>

datatype baseline_error = BlUnreadable | BlMalformed | BlInvalid string param_error

definition baseline_load :: "(string, params) gomap option option \<Rightarrow> baseline_error + (string, params) gomap" where
  "baseline_load file = (case file of
     None \<Rightarrow> Inl BlUnreadable
   | Some None \<Rightarrow> Inl BlMalformed
   | Some (Some m) \<Rightarrow> (case find (\<lambda>(ifid, p). validate p \<noteq> None) m of
       Some (ifid, p) \<Rightarrow> Inl (BlInvalid ifid (the (validate p)))
     | None \<Rightarrow> Inr m))"

text \<open>The preshaping loop: a device that has a qdisc, or cannot be read, is left alone.\<close>

fun preshape :: "'k shaper \<Rightarrow> (string \<rightharpoonup> params) \<Rightarrow> 'k \<Rightarrow> managed_iface list \<Rightarrow> 'k" where
  "preshape sh blm k [] = k"
| "preshape sh blm k (m # ms) = (case blm (mi_ifid m) of
     None \<Rightarrow> preshape sh blm k ms
   | Some bp \<Rightarrow> (case sh_get sh k (mi_dev m) of
       Inl _ \<Rightarrow> preshape sh blm k ms
     | Inr cur \<Rightarrow> if \<not> params_empty cur then preshape sh blm k ms
         else preshape sh blm (fst (sh_apply sh k (mi_dev m) bp)) ms))"

section \<open>What the handlers do to the kernel\<close>

lemma linkd_new_ifaces:
  "sv_ifaces (linkd_new ifaces bl) i = Some m \<Longrightarrow> m \<in> set ifaces \<and> mi_ifid m = i"
proof -
  have "foldl (\<lambda>m i. m(mi_ifid i \<mapsto> i)) Map.empty xs i = Some m \<Longrightarrow> m \<in> set xs \<and> mi_ifid m = i" for xs
    by (induction xs rule: rev_induct) (auto split: if_splits)
  then show "sv_ifaces (linkd_new ifaces bl) i = Some m \<Longrightarrow> ?thesis"
    by (simp add: linkd_new_def)
qed

lemma baseline_load_valid:
  "baseline_load file = Inr m \<Longrightarrow> map_of m i = Some p \<Longrightarrow> validate p = None"
  by (auto simp: baseline_load_def find_None_iff dest!: map_of_SomeD split: option.splits)

lemma linkd_put_kernel:
  "re_kernel (linkd_put sh sv k ifid body) = k \<or>
   (\<exists>m p. sv_ifaces sv ifid = Some m \<and> validate p = None \<and>
      re_kernel (linkd_put sh sv k ifid body) = fst (sh_apply sh k (mi_dev m) p))"
proof (cases "sv_ifaces sv ifid")
  case (Some m)
  show ?thesis
  proof (cases "body = None \<or> isl (sh_get sh k (mi_dev m))")
    case False
    then obtain upd cur where "body = Some upd" "sh_get sh k (mi_dev m) = Inr cur"
      by (cases body; cases "sh_get sh k (mi_dev m)") auto
    then show ?thesis
      using Some by (cases "validate (merge cur upd)"; cases "sh_apply sh k (mi_dev m) (merge cur upd)")
        (auto simp: linkd_put_def fail_def Let_def split: option.splits)
  qed (use Some in \<open>auto simp: linkd_put_def fail_def isl_def split: option.splits\<close>)
qed (simp add: linkd_put_def fail_def)

lemma linkd_del_kernel:
  assumes "\<And>i b. sv_baseline sv i = Some b \<Longrightarrow> validate b = None"
  shows "re_kernel (linkd_del sh sv k ifid) = k \<or>
   (\<exists>m p. sv_ifaces sv ifid = Some m \<and> validate p = None \<and>
      re_kernel (linkd_del sh sv k ifid) = fst (sh_apply sh k (mi_dev m) p)) \<or>
   (\<exists>m. sv_ifaces sv ifid = Some m \<and>
      re_kernel (linkd_del sh sv k ifid) = fst (sh_clear sh k (mi_dev m)))"
proof (cases "sv_ifaces sv ifid")
  case (Some m)
  show ?thesis
  proof (cases "sv_baseline sv (mi_ifid m)")
    case None
    then show ?thesis
      using Some by (cases "sh_clear sh k (mi_dev m)") (auto simp: linkd_del_def fail_def split: option.splits)
  next
    case bl: (Some b)
    then show ?thesis
      using Some assms [OF bl]
      by (cases "sh_apply sh k (mi_dev m) b") (auto simp: linkd_del_def fail_def split: option.splits)
  qed
qed (simp add: linkd_del_def fail_def)

context shaper_laws
begin

text \<open>
  The reading of a device that the API may leave behind: validated parameters as the kernel shows
  them, or none.
\<close>

definition clean :: "shape_error + params \<Rightarrow> bool" where
  "clean g \<longleftrightarrow> g = Inr no_params \<or> (\<exists>p. validate p = None \<and> g = Inr (obs p))"

definition tidy :: "string set \<Rightarrow> 'k \<Rightarrow> 'k \<Rightarrow> bool" where
  "tidy devs k k' \<longleftrightarrow> (\<forall>d. (d \<notin> devs \<longrightarrow> sh_get sh k' d = sh_get sh k d) \<and>
     (sh_get sh k' d = sh_get sh k d \<or> clean (sh_get sh k' d)))"

lemma tidy_refl: "tidy devs k k"
  by (simp add: tidy_def)

lemma tidy_trans: "tidy devs k k' \<Longrightarrow> tidy devs k' k'' \<Longrightarrow> tidy devs k k''"
  unfolding tidy_def by metis

lemma tidy_apply:
  assumes "d \<in> devs" "validate p = None"
  shows "tidy devs k (fst (sh_apply sh k d p))"
proof -
  obtain k' r where a: "sh_apply sh k d p = (k', r)" by (cases "sh_apply sh k d p")
  show ?thesis
  proof (cases r)
    case None
    then show ?thesis
      using a assms apply_other [OF a] apply_get [of k d p k']
      unfolding tidy_def clean_def by (metis fst_conv)
  next
    case (Some e)
    then have "k' = k" using apply_fail a by blast
    with a show ?thesis by (simp add: tidy_refl)
  qed
qed

lemma tidy_clear:
  assumes "d \<in> devs"
  shows "tidy devs k (fst (sh_clear sh k d))"
proof -
  obtain k' r where a: "sh_clear sh k d = (k', r)" by (cases "sh_clear sh k d")
  show ?thesis
  proof (cases r)
    case None
    then show ?thesis
      using a assms clear_other [OF a] clear_get [of k d k']
      unfolding tidy_def clean_def by (metis fst_conv)
  next
    case (Some e)
    then have "k' = k" using clear_fail a by blast
    with a show ?thesis by (simp add: tidy_refl)
  qed
qed

lemma serve_tidy:
  assumes bl: "\<And>i b. sv_baseline sv i = Some b \<Longrightarrow> validate b = None"
    and ifs: "\<And>i m. sv_ifaces sv i = Some m \<Longrightarrow> mi_dev m \<in> devs"
  shows "tidy devs k (re_kernel (linkd_serve sh sv k r))"
proof (cases r)
  case (ReqPut ifid body)
  then show ?thesis
    using linkd_put_kernel [where sh = sh and sv = sv and k = k and ifid = ifid and body = body]
    by (elim disjE exE conjE) (simp_all add: tidy_refl tidy_apply [OF ifs])
next
  case (ReqDel ifid)
  have "re_kernel (linkd_del sh sv k ifid) = k \<or>
      (\<exists>m p. sv_ifaces sv ifid = Some m \<and> validate p = None \<and>
         re_kernel (linkd_del sh sv k ifid) = fst (sh_apply sh k (mi_dev m) p)) \<or>
      (\<exists>m. sv_ifaces sv ifid = Some m \<and>
         re_kernel (linkd_del sh sv k ifid) = fst (sh_clear sh k (mi_dev m)))"
    by (rule linkd_del_kernel) (rule bl)
  with ReqDel show ?thesis
    by (elim disjE exE conjE) (simp_all add: tidy_refl tidy_apply [OF ifs] tidy_clear [OF ifs])
qed (auto simp: linkd_list_def linkd_health_def linkd_bgp_def fail_def tidy_refl split: option.splits sum.splits)

lemma run_tidy:
  assumes "\<And>i b. sv_baseline sv i = Some b \<Longrightarrow> validate b = None"
    and "\<And>i m. sv_ifaces sv i = Some m \<Longrightarrow> mi_dev m \<in> devs"
  shows "tidy devs k (linkd_run sh sv k reqs)"
proof (induction reqs rule: rev_induct)
  case (snoc r reqs)
  have "linkd_run sh sv k (reqs @ [r]) = re_kernel (linkd_serve sh sv (linkd_run sh sv k reqs) r)"
    by (simp add: linkd_run_def)
  moreover have "tidy devs (linkd_run sh sv k reqs) (re_kernel (linkd_serve sh sv (linkd_run sh sv k reqs) r))"
    using assms by (rule serve_tidy)
  ultimately show ?case using snoc by (simp add: tidy_trans)
qed (simp add: linkd_run_def tidy_refl)

end

end
