(* ===== verification/LinkdReset.thy ===== *)
theory LinkdReset
  imports LinkdApi
begin

text \<open>
  What the linkd API promises over whole runs and across the kernel's rounding: failed requests change
  nothing, only validated shapes reach the kernel, and a link reset to its story baseline is listed as
  unshaped.
\<close>

section \<open>Rounding through the kernel\<close>

lemma rnd_close: "\<bar>x\<bar> \<le> 17000000000 \<Longrightarrow> \<bar>rnd x - x\<bar> \<le> 1/1000000"
proof -
  assume x: "\<bar>x\<bar> \<le> 17000000000"
  have "(2::rat) powi 34 = 17179869184" "(2::rat) powi (34 - 54) = 1/1048576"
    by (simp_all add: power_int_def power_divide)
  with x rnd_error [of x 34] show ?thesis by simp
qed

lemma floor_close: "\<bar>x\<bar> \<le> 10000000000 \<Longrightarrow> \<bar>of_int \<lfloor>rnd x\<rfloor> - x\<bar> \<le> 1 + 1/1000000"
  using rnd_close [of x] floor_correct [of "rnd x"] by linarith

definition opt_val :: "f64 option \<Rightarrow> f64" where
  "opt_val v = (case v of None \<Rightarrow> Fin 0 | Some x \<Rightarrow> x)"

lemma approx_eq_close:
  assumes "opt_val a = Fin v" "opt_val b = Fin q" "\<bar>v - q\<bar> \<le> 1/100"
  shows "approx_eq a b"
proof -
  have "\<bar>rnd (v - q)\<bar> \<le> 1/100 + 1/1000000"
    using rnd_close [of "v - q"] assms(3) by linarith
  moreover have "1/10 - 1/1000000 \<le> rnd (1/10)"
    using rnd_close [of "1/10"] by linarith
  ultimately have "\<bar>rnd (v - q)\<bar> \<le> rnd (1/10)" by simp
  moreover have "Fin v - Fin q = Fin (rnd (v - q))"
    using assms(3) by (simp add: f64_of_rat_small f64_max_def)
  moreover have "f64_of_rat (1/10) = Fin (rnd (1/10))"
    by (simp add: f64_of_rat_small f64_max_def)
  ultimately show ?thesis
    using assms(1,2) by (simp add: approx_eq_def opt_val_def Let_def split: option.splits)
qed

lemma fin_of_int: "\<bar>n\<bar> \<le> 10000000000 \<Longrightarrow> f64_of_int n = Fin (of_int n)"
proof -
  assume n: "\<bar>n\<bar> \<le> 10000000000"
  then have "rnd (of_int n) = of_int n" by (intro rnd_of_int) simp
  moreover have "\<bar>of_int n :: rat\<bar> \<le> 10000000000" using n by (metis of_int_abs of_int_le_numeral_iff)
  ultimately show ?thesis by (simp add: f64_of_int_def f64_of_rat_small f64_max_def)
qed

lemma to_int64_floor: "0 \<le> x \<Longrightarrow> x \<le> 10000000000 \<Longrightarrow> f64_to_int64 (Fin x) = \<lfloor>x\<rfloor>"
proof -
  assume x: "0 \<le> x" "x \<le> 10000000000"
  then have "\<lfloor>x\<rfloor> \<le> 10000000000" by (simp add: floor_le_iff)
  then have "\<lfloor>x\<rfloor> < 2 ^ 63" by simp
  moreover have "0 \<le> \<lfloor>x\<rfloor>" using x by simp
  ultimately show ?thesis using x(1) unfolding f64_to_int64_def rat_trunc_def by simp
qed

text \<open>From microseconds to ticks and back.\<close>

lemma tick_readback:
  assumes "1 \<le> t" "t \<le> 1000" "0 \<le> u" "u \<le> 2000000" "uint us = u"
  shows "\<exists>v. opt_val (if 0 < time2tick (Fin t) us then Some (f64_of_int (uint (time2tick (Fin t) us)) / Fin t / Fin 1000) else None)
      = Fin v \<and> \<bar>v - of_int u / 1000\<bar> \<le> 2/1000"
proof -
  have ut: "0 \<le> of_int u * t" "of_int u * t \<le> 2000000000"
  proof -
    have "of_int u * t \<le> 2000000 * 1000" using assms by (intro mult_mono) auto
    then show "of_int u * t \<le> 2000000000" by simp
  qed (use assms in simp)
  have mul: "f64_of_int u * Fin t = Fin (rnd (of_int u * t))"
    using assms ut by (simp add: fin_of_int f64_of_rat_small f64_max_def)
  define k where "k = \<lfloor>rnd (of_int u * t)\<rfloor>"
  have r: "0 \<le> rnd (of_int u * t)" "rnd (of_int u * t) \<le> 2000000001"
    using rnd_nonneg [OF ut(1)] rnd_close [of "of_int u * t"] ut by (linarith | simp)+
  have kb: "0 \<le> k" "k \<le> 2000000001"
    using r by (simp_all add: k_def floor_le_iff)
  have kc: "\<bar>of_int k - of_int u * t\<bar> \<le> 1 + 1/1000000"
    using floor_close [of "of_int u * t"] ut by (simp add: k_def)
  have tick: "time2tick (Fin t) us = word_of_int k"
    using r by (simp add: time2tick_def assms(5) mul f64_to_uint32_def to_int64_floor k_def del: f64_mul_Fin)
  have uk: "uint (word_of_int k :: 32 word) = k"
    using kb by (simp add: uint_word_of_int)
  show ?thesis
  proof (cases "k = 0")
    case True
    have "of_int u \<le> of_int u * t" using assms by (intro mult_left_mono [of 1 t, simplified]) auto
    then have "of_int u \<le> (1 + 1/1000000 :: rat)" using kc True by linarith
    then show ?thesis using assms(3) by (simp add: tick True opt_val_def)
  next
    case False
    then have pos: "(0 :: 32 word) < word_of_int k"
      using uk by (auto simp: word_gt_0)
    have kt: "0 \<le> of_int k / t" "of_int k / t \<le> 2000000001"
    proof -
      have "of_int k / t \<le> of_int k / 1" using kb assms by (intro divide_left_mono) auto
      also have "\<dots> \<le> 2000000001" using kb by simp
      finally show "of_int k / t \<le> 2000000001" .
    qed (use kb assms in simp)
    define a where "a = rnd (of_int k / t)"
    have a1: "\<bar>a - of_int k / t\<bar> \<le> 1/1000000"
      unfolding a_def by (rule rnd_close) (use kt in linarith)
    then have a: "\<bar>a - of_int k / t\<bar> \<le> 1/1000000" "\<bar>a\<bar> \<le> 2000000002"
      using kt by linarith+
    have v: "\<bar>rnd (a / 1000) - a / 1000\<bar> \<le> 1/1000000"
      using rnd_close [of "a / 1000"] a(2) by linarith
    have d1: "f64_of_int k / Fin t = Fin a"
      using assms kb kt by (simp add: fin_of_int f64_of_rat_small f64_max_def a_def)
    have d2: "Fin a / Fin 1000 = Fin (rnd (a / 1000))"
      using a(2) by (simp add: f64_of_rat_small f64_max_def)
    have "\<bar>of_int k / t - of_int u\<bar> = \<bar>of_int k - of_int u * t\<bar> / t"
      using assms by (simp add: field_simps abs_if)
    also have "\<dots> \<le> (1 + 1/1000000) / 1"
      using kc assms by (intro frac_le) auto
    finally have "\<bar>of_int k / t - of_int u\<bar> \<le> 1 + 1/1000000" by simp
    moreover have "\<bar>y - u' / 1000\<bar> \<le> 2/1000"
      if "\<bar>c - u'\<bar> \<le> 1 + 1/1000000" "\<bar>a - c\<bar> \<le> 1/1000000" "\<bar>y - a / 1000\<bar> \<le> 1/1000000" for c u' y :: rat
      using that by linarith
    ultimately have "\<bar>rnd (a / 1000) - of_int u / 1000\<bar> \<le> 2/1000"
      using a(1) v by blast
    then show ?thesis
      using pos by (simp add: tick uk opt_val_def d1 d2 del: f64_div_Fin)
  qed
qed

lemma rate_readback:
  assumes "rnd (1/10) \<le> q" "q \<le> 10000" "uint w = \<lfloor>rnd (rnd (q * 1000000) / 8)\<rfloor>" "12500 \<le> uint (w :: 64 word)"
  shows "\<exists>v. f64_of_int (uint w) * Fin 8 / Fin 1000000 = Fin v \<and> \<bar>v - q\<bar> \<le> 1/100"
proof -
  have q0: "0 \<le> q" using assms(1) rnd_nonneg [of "1/10"] by simp
  have m: "\<bar>rnd (q * 1000000) - q * 1000000\<bar> \<le> 1/1000000" "0 \<le> rnd (q * 1000000)"
    "rnd (q * 1000000) \<le> 10000000001"
    using rnd_close [of "q * 1000000"] rnd_nonneg [of "q * 1000000"] assms(2) q0 by (linarith | simp)+
  have b: "\<bar>of_int (uint w) - rnd (q * 1000000) / 8\<bar> \<le> 1 + 1/1000000"
    using floor_close [of "rnd (q * 1000000) / 8"] m assms(3) by linarith
  have bb: "(of_int (uint w) :: rat) \<le> 1250000002" using b m by linarith
  then have "(of_int (uint w) :: rat) \<le> of_int 1250000002" by simp
  then have ub: "uint w \<le> 1250000002" by (simp only: of_int_le_iff)
  define x where "x = rnd (of_int (uint w) * 8)"
  have x: "\<bar>x - of_int (uint w) * 8\<bar> \<le> 1/1000000"
  proof -
    have "(0::rat) \<le> of_int (uint w)" using assms(4) by (simp only: of_int_0_le_iff)
    then show ?thesis unfolding x_def by (intro rnd_close) (use bb in linarith)
  qed
  have xb: "\<bar>x\<bar> \<le> 10000000017" using x bb assms(4) by linarith
  have v: "\<bar>rnd (x / 1000000) - x / 1000000\<bar> \<le> 1/1000000"
    using rnd_close [of "x / 1000000"] xb by linarith
  have "f64_of_int (uint w) = Fin (of_int (uint w))"
    by (rule fin_of_int) (use ub assms(4) in linarith)
  moreover have "f64_of_rat (of_int (uint w) * 8) = Fin x"
    unfolding x_def
  proof (rule f64_of_rat_small)
    have "(0::rat) \<le> of_int (uint w)" using assms(4) by (simp only: of_int_0_le_iff)
    then have "\<bar>of_int (uint w) * 8 :: rat\<bar> \<le> 17000000000" using bb by linarith
    then show "\<bar>of_int (uint w) * 8\<bar> \<le> f64_max" by (simp add: f64_max_def)
  qed
  ultimately have "f64_of_int (uint w) * Fin 8 = Fin x" by (simp only: f64_mul_Fin)
  then have "f64_of_int (uint w) * Fin 8 / Fin 1000000 = Fin (rnd (x / 1000000))"
    using xb by (simp add: f64_of_rat_small f64_max_def)
  moreover have "\<bar>rnd (x / 1000000) - q\<bar> \<le> 1/100"
    using x v b m(1) by linarith
  ultimately show ?thesis by blast
qed

text \<open>A validated shape without loss reads back approximately as it was applied.\<close>

definition tick_enc :: "rat \<Rightarrow> (netem_attrs \<Rightarrow> qdisc) \<Rightarrow> bool" where
  "tick_enc t enc \<longleftrightarrow> (\<forall>a. na_loss a = Fin 0 \<longrightarrow>
     enc a = Netem True own_handle (time2tick (Fin t) (na_latency a)) (time2tick (Fin t) (na_jitter a)) 0 (na_rate64 a))"

lemma us_readback:
  assumes "1 \<le> t" "t \<le> 1000" "v = None \<and> uint us = 0 \<or> (\<exists>q. v = Some (Fin q) \<and> 0 \<le> q \<and> q \<le> 2000 \<and> uint us = \<lfloor>rnd (q * 1000)\<rfloor>)"
  shows "approx_eq (if 0 < time2tick (Fin t) us then Some (f64_of_int (uint (time2tick (Fin t) us)) / Fin t / Fin 1000) else None) v"
proof -
  obtain q where q: "opt_val v = Fin q" "0 \<le> q" "q \<le> 2000" "uint us = \<lfloor>rnd (q * 1000)\<rfloor>"
    using assms(3) by (auto simp: opt_val_def)
  have c: "\<bar>of_int (uint us) - q * 1000\<bar> \<le> 1 + 1/1000000"
    unfolding q(4) using q(2,3) by (intro floor_close) simp
  have "rnd (q * 1000) \<le> rnd (of_int 2000000)" using q(3) by (intro rnd_mono) simp
  also have "\<dots> = of_int 2000000" by (rule rnd_of_int) simp
  finally have "uint us \<le> 2000000" unfolding q(4) by (simp add: floor_le_iff)
  moreover have "0 \<le> uint us" by simp
  ultimately obtain w where w: "opt_val (if 0 < time2tick (Fin t) us
      then Some (f64_of_int (uint (time2tick (Fin t) us)) / Fin t / Fin 1000) else None) = Fin w"
    "\<bar>w - of_int (uint us) / 1000\<bar> \<le> 2/1000"
    using tick_readback [OF assms(1,2) _ _ refl, of us] by auto
  have "\<bar>w - q\<bar> \<le> 1/100" using w(2) c by linarith
  then show ?thesis by (rule approx_eq_close [OF w(1) q(1)])
qed

lemma shape_readback:
  assumes "validate b = None" "params_proper b" "p_loss b = None"
    and "nl_tick_in_usec nl = Fin t" "1 \<le> t" "t \<le> 1000" "tick_enc t enc"
  shows "params_equal (netlink_obs nl enc b) b"
proof -
  note at = attrs_scaled [OF assms(1,2)] and rg = validate_ranges [OF assms(1,2)]
  have zero: "p_delay b = None \<Longrightarrow> na_latency (attrs_of b) = 0" "p_jitter b = None \<Longrightarrow> na_jitter (attrs_of b) = 0"
    "p_rate b = None \<Longrightarrow> na_rate64 (attrs_of b) = 0" "na_loss (attrs_of b) = Fin 0"
    using assms(3) by (simp_all add: attrs_of_def)
  have obs: "netlink_obs nl enc b = read_netem (Fin t) (Netem True own_handle (time2tick (Fin t) (na_latency (attrs_of b)))
      (time2tick (Fin t) (na_jitter (attrs_of b))) 0 (na_rate64 (attrs_of b)))"
    using assms(4,7) zero(4) by (simp add: netlink_obs_def tick_enc_def)
  have delay: "approx_eq (p_delay (netlink_obs nl enc b)) (p_delay b)"
  proof -
    have "p_delay b = None \<and> uint (na_latency (attrs_of b)) = 0 \<or>
      (\<exists>q. p_delay b = Some (Fin q) \<and> 0 \<le> q \<and> q \<le> 2000 \<and> uint (na_latency (attrs_of b)) = \<lfloor>rnd (q * 1000)\<rfloor>)"
      using rg(1) at zero(1) by auto
    from us_readback [OF assms(5,6) this] show ?thesis
      unfolding obs read_netem_def qdisc.sel params.simps .
  qed
  have jitter: "approx_eq (p_jitter (netlink_obs nl enc b)) (p_jitter b)"
  proof -
    have "p_jitter b = None \<and> uint (na_jitter (attrs_of b)) = 0 \<or>
      (\<exists>q. p_jitter b = Some (Fin q) \<and> 0 \<le> q \<and> q \<le> 2000 \<and> uint (na_jitter (attrs_of b)) = \<lfloor>rnd (q * 1000)\<rfloor>)"
      using rg(2) at zero(2) by auto
    from us_readback [OF assms(5,6) this] show ?thesis
      unfolding obs read_netem_def qdisc.sel params.simps .
  qed
  have same: "approx_eq None None"
    by (rule approx_eq_close [of _ 0 _ 0]) (simp_all add: opt_val_def)
  have rate: "approx_eq (p_rate (netlink_obs nl enc b)) (p_rate b)"
  proof (cases "p_rate b")
    case None
    with zero(3) same show ?thesis by (simp add: obs read_netem_def)
  next
    case (Some r)
    then obtain q where q: "p_rate b = Some (Fin q)" "rnd (1/10) \<le> q" "q \<le> 10000" using rg(4) by auto
    have w: "12500 \<le> uint (na_rate64 (attrs_of b))"
      "uint (na_rate64 (attrs_of b)) = \<lfloor>rnd (rnd (q * 1000000) / 8)\<rfloor>" using at q(1) by blast+
    obtain v where v: "f64_of_int (uint (na_rate64 (attrs_of b))) * Fin 8 / Fin 1000000 = Fin v" "\<bar>v - q\<bar> \<le> 1/100"
      using rate_readback [OF q(2,3) w(2,1)] by blast
    have "na_rate64 (attrs_of b) \<noteq> 0" using w(1) by auto
    then have "p_rate (netlink_obs nl enc b) = Some (Fin v)"
      using v(1) by (simp add: obs read_netem_def word_gt_0)
    then show ?thesis using v(2) q(1) by (intro approx_eq_close [of _ v _ q]) (simp_all add: opt_val_def)
  qed
  have loss: "approx_eq (p_loss (netlink_obs nl enc b)) (p_loss b)"
    using same assms(3) by (simp add: obs read_netem_def)
  from delay jitter rate loss show ?thesis by (simp add: params_equal_def)
qed

section \<open>Requests that overlap\<close>

text \<open>
  Go runs handlers concurrently and no lock spans the reading and the applying of a PUT.  Taken apart
  at that point, two PUTs to one interface that both read before either applies leave the later one's
  merge with the old reading: the earlier body is lost, although both answers are 200.
\<close>

definition put_read :: "'k shaper \<Rightarrow> linkd_server \<Rightarrow> 'k \<Rightarrow> string \<Rightarrow> params option \<Rightarrow> 'k reply + managed_iface \<times> params" where
  "put_read sh sv k ifid body = (case sv_ifaces sv ifid of
     None \<Rightarrow> Inl (fail k 404 (UnknownIface ifid))
   | Some m \<Rightarrow> (case body of
       None \<Rightarrow> Inl (fail k 400 BadBody)
     | Some upd \<Rightarrow> (case sh_get sh k (mi_dev m) of
         Inl e \<Rightarrow> Inl (fail k 502 (ReadFailed (mi_dev m) e))
       | Inr cur \<Rightarrow> (case validate (merge cur upd) of
             Some e \<Rightarrow> Inl (fail k 400 (Rejected e))
           | None \<Rightarrow> Inr (m, merge cur upd)))))"

definition put_write :: "'k shaper \<Rightarrow> 'k \<Rightarrow> managed_iface \<times> params \<Rightarrow> 'k reply" where
  "put_write sh k mp = (case sh_apply sh k (mi_dev (fst mp)) (snd mp) of
     (k', Some e) \<Rightarrow> fail k' 502 (ApplyFailed (mi_dev (fst mp)) e)
   | (k', None) \<Rightarrow> \<lparr>re_kernel = k', re_code = 200, re_body = BParams (snd mp), re_changed = True\<rparr>)"

lemma put_split:
  "linkd_put sh sv k ifid body = (case put_read sh sv k ifid body of Inl r \<Rightarrow> r | Inr mp \<Rightarrow> put_write sh k mp)"
  by (simp add: linkd_put_def put_read_def put_write_def Let_def split: option.split sum.split)

lemma put_read_Inr:
  "put_read sh sv k ifid body = Inr (m, p) \<Longrightarrow> sv_ifaces sv ifid = Some m \<and>
     (\<exists>upd cur. body = Some upd \<and> sh_get sh k (mi_dev m) = Inr cur \<and> p = merge cur upd)"
  by (auto simp: put_read_def split: option.splits sum.splits)

section \<open>The API over whole runs\<close>

context shaper_laws
begin

lemma applied_reply:
  assumes "sh_apply sh k d p = (k', None)"
  shows "(\<forall>d'. d' \<noteq> d \<longrightarrow> sh_get sh k' d' = sh_get sh k d') \<and> sh_get sh k' d = Inr (obs p) \<and> \<not> foreign k' d"
  using apply_get [OF assms] apply_other [OF assms] by blast

lemma cleared_reply:
  assumes "sh_clear sh k d = (k', None)"
  shows "(\<forall>d'. d' \<noteq> d \<longrightarrow> sh_get sh k' d' = sh_get sh k d') \<and> (sh_get sh k' d = Inr no_params \<or> k' = k \<and> foreign k d)"
  using clear_get [OF assms] clear_other [OF assms] by blast

definition truthful :: "linkd_server \<Rightarrow> 'k \<Rightarrow> string \<Rightarrow> bool \<Rightarrow> params option \<Rightarrow> 'k reply \<Rightarrow> bool" where
  "truthful sv k ifid put body r \<longleftrightarrow>
    (re_code r \<noteq> 200 \<longrightarrow> re_kernel r = k \<and> \<not> re_changed r) \<and>
    (re_code r = 200 \<longrightarrow> re_changed r \<and> (\<exists>m. sv_ifaces sv ifid = Some m \<and>
       (\<forall>d. d \<noteq> mi_dev m \<longrightarrow> sh_get sh (re_kernel r) d = sh_get sh k d) \<and>
       ((\<exists>p. re_body r = BParams p \<and> sh_get sh (re_kernel r) (mi_dev m) = Inr (obs p) \<and> \<not> foreign (re_kernel r) (mi_dev m) \<and>
            (if put then validate p = None \<and> (\<exists>upd cur. body = Some upd \<and> sh_get sh k (mi_dev m) = Inr cur \<and> p = merge cur upd)
             else sv_baseline sv (mi_ifid m) = Some p)) \<or>
        re_body r = BCleared \<and> \<not> put \<and> sv_baseline sv (mi_ifid m) = None \<and>
          (sh_get sh (re_kernel r) (mi_dev m) = Inr no_params \<or> re_kernel r = k \<and> foreign k (mi_dev m)))))"

lemma truthful_fail: "code \<noteq> 200 \<Longrightarrow> truthful sv k ifid put body (fail k code e)"
  by (simp add: truthful_def fail_def)

lemma put_truthful: "truthful sv k ifid True body (linkd_put sh sv k ifid body)"
proof (cases "sv_ifaces sv ifid")
  case (Some m)
  show ?thesis
  proof (cases "body = None \<or> isl (sh_get sh k (mi_dev m))")
    case True
    then show ?thesis
      using Some by (auto simp: linkd_put_def truthful_fail isl_def split: option.splits)
  next
    case False
    then obtain upd cur where uc: "body = Some upd" "sh_get sh k (mi_dev m) = Inr cur"
      by (cases body; cases "sh_get sh k (mi_dev m)") auto
    obtain k' e where a: "sh_apply sh k (mi_dev m) (merge cur upd) = (k', e)"
      by (cases "sh_apply sh k (mi_dev m) (merge cur upd)")
    show ?thesis
    proof (cases e)
      case None
      with a Some uc applied_reply show ?thesis
        by (cases "validate (merge cur upd)")
          (auto simp: linkd_put_def truthful_fail Let_def, simp add: truthful_def)
    next
      case (Some e')
      with a apply_fail have "k' = k" by blast
      with a Some uc \<open>sv_ifaces sv ifid = _\<close> show ?thesis
        by (cases "validate (merge cur upd)") (auto simp: linkd_put_def truthful_fail Let_def)
    qed
  qed
qed (simp add: linkd_put_def truthful_fail)

text \<open>The later of two overlapping PUTs wins with its old reading.\<close>

lemma overlapping_puts:
  assumes "put_read sh sv k ifid body1 = Inr mp1" "put_read sh sv k ifid body2 = Inr mp2"
    and "r1 = put_write sh k mp1" "r2 = put_write sh (re_kernel r1) mp2" "re_code r2 = 200"
  shows "\<exists>m cur upd2. sv_ifaces sv ifid = Some m \<and> body2 = Some upd2 \<and> sh_get sh k (mi_dev m) = Inr cur \<and>
    sh_get sh (re_kernel r2) (mi_dev m) = Inr (obs (merge cur upd2))"
proof -
  obtain m p where mp: "mp2 = (m, p)" by (cases mp2)
  from assms(2) obtain upd cur where read: "sv_ifaces sv ifid = Some m" "body2 = Some upd"
    "sh_get sh k (mi_dev m) = Inr cur" "p = merge cur upd"
    using put_read_Inr unfolding mp by metis
  obtain k' e where a: "sh_apply sh (re_kernel r1) (mi_dev m) p = (k', e)" by (cases "sh_apply sh (re_kernel r1) (mi_dev m) p")
  with assms(4,5) mp have "e = None" "re_kernel r2 = k'" by (cases e; simp add: put_write_def fail_def)+
  with a applied_reply read show ?thesis by metis
qed

lemma del_truthful: "truthful sv k ifid False body (linkd_del sh sv k ifid)"
proof (cases "sv_ifaces sv ifid")
  case (Some m)
  show ?thesis
  proof (cases "sv_baseline sv (mi_ifid m)")
    case None
    obtain k' e where a: "sh_clear sh k (mi_dev m) = (k', e)" by (cases "sh_clear sh k (mi_dev m)")
    show ?thesis
    proof (cases e)
      case (Some e')
      with a clear_fail have "k' = k" by blast
      with a Some None \<open>sv_ifaces sv ifid = _\<close> show ?thesis by (simp add: linkd_del_def truthful_fail)
    next
      case noerr: None
      with a cleared_reply [of k "mi_dev m" k'] None Some show ?thesis
        by (simp add: linkd_del_def truthful_def)
    qed
  next
    case bl: (Some b)
    obtain k' e where a: "sh_apply sh k (mi_dev m) b = (k', e)" by (cases "sh_apply sh k (mi_dev m) b")
    show ?thesis
    proof (cases e)
      case (Some e')
      with a apply_fail have "k' = k" by blast
      with a Some bl \<open>sv_ifaces sv ifid = _\<close> show ?thesis by (simp add: linkd_del_def truthful_fail)
    next
      case noerr: None
      with a applied_reply [of k "mi_dev m" b k'] bl Some show ?thesis
        by (simp add: linkd_del_def truthful_def)
    qed
  qed
qed (simp add: linkd_del_def truthful_fail)

end

lemma netlink_laws: "netlink_kernel nl enc \<Longrightarrow> shaper_laws (netlink_shaper nl) (netlink_obs nl enc) (netlink_foreign nl)"
  by (rule netlink_kernel.laws)

text \<open>
  C8: A reply tells the truth about the kernel.  A PUT or DELETE that answers anything but 200 has
  left the kernel alone and triggered no metadata sync; one that answers 200 with parameters has
  changed its own device only, which then reads as those parameters through the kernel's resolution,
  and they are the validated merge of body and reading for a PUT and the interface's baseline for a DELETE;
  "cleared" is the answer to a DELETE without a baseline only, and leaves its device reading as unshaped, or, if a
  netem with another handle than linkd's \<open>1:0\<close> is at its root, as it was.  After an answer with parameters there
  is no such netem, so that a device linkd has shaped is really cleared.
\<close>

theorem linkd_replies_truthful:
  assumes "netlink_kernel nl enc" "r = linkd_serve (netlink_shaper nl) sv k req"
    and "req = (if put then ReqPut ifid body else ReqDel ifid)"
  shows "(re_code r \<noteq> 200 \<longrightarrow> re_kernel r = k \<and> \<not> re_changed r) \<and>
    (re_code r = 200 \<longrightarrow> re_changed r \<and> (\<exists>m. sv_ifaces sv ifid = Some m \<and>
       (\<forall>d. d \<noteq> mi_dev m \<longrightarrow> netlink_get nl (re_kernel r) d = netlink_get nl k d) \<and>
       ((\<exists>p. re_body r = BParams p \<and> netlink_get nl (re_kernel r) (mi_dev m) = Inr (netlink_obs nl enc p) \<and>
            \<not> netlink_foreign nl (re_kernel r) (mi_dev m) \<and>
            (if put then validate p = None \<and> (\<exists>upd cur. body = Some upd \<and> netlink_get nl k (mi_dev m) = Inr cur \<and> p = merge cur upd)
             else sv_baseline sv (mi_ifid m) = Some p)) \<or>
        re_body r = BCleared \<and> \<not> put \<and> sv_baseline sv (mi_ifid m) = None \<and>
          (netlink_get nl (re_kernel r) (mi_dev m) = Inr no_params \<or> re_kernel r = k \<and> netlink_foreign nl k (mi_dev m)))))"
proof -
  note laws = netlink_laws [OF assms(1)]
  have "shaper_laws.truthful (netlink_shaper nl) (netlink_obs nl enc) (netlink_foreign nl) sv k ifid put body r"
    using assms(2,3) shaper_laws.put_truthful [OF laws, of sv k ifid body] shaper_laws.del_truthful [OF laws, of sv k ifid body]
    by (cases put) simp_all
  then show ?thesis
    unfolding shaper_laws.truthful_def [OF laws] netlink_shaper_sel .
qed

text \<open>
  C7: Over any sequence of API requests, on a kernel that keeps its side: no device outside the
  managed ones is ever touched, and a managed device reads as it did at the start, or as unshaped, or
  as some validated shape, the baseline profile included, since loading the profile validates it.
\<close>

theorem linkd_requests_safe:
  assumes "netlink_kernel nl enc" "baseline_load file = Inr bl"
    and "k' = linkd_run (netlink_shaper nl) (linkd_new ifaces (map_of bl)) k reqs"
  shows "(d \<notin> mi_dev ` set ifaces \<longrightarrow> netlink_get nl k' d = netlink_get nl k d) \<and>
    (netlink_get nl k' d = netlink_get nl k d \<or> netlink_get nl k' d = Inr no_params \<or>
     (\<exists>p. validate p = None \<and> netlink_get nl k' d = Inr (netlink_obs nl enc p)))"
proof -
  note laws = netlink_laws [OF assms(1)]
  have "shaper_laws.tidy (netlink_shaper nl) (netlink_obs nl enc) (mi_dev ` set ifaces) k k'"
    unfolding assms(3)
  proof (rule shaper_laws.run_tidy [OF laws])
    show "validate b = None" if "sv_baseline (linkd_new ifaces (map_of bl)) i = Some b" for i b
      using that baseline_load_valid [OF assms(2)] by (simp add: linkd_new_def)
    show "mi_dev m \<in> mi_dev ` set ifaces" if "sv_ifaces (linkd_new ifaces (map_of bl)) i = Some m" for i m
      using linkd_new_ifaces [OF that] by blast
  qed
  then show ?thesis
    unfolding shaper_laws.tidy_def [OF laws] shaper_laws.clean_def [OF laws] netlink_shaper_sel by blast
qed

text \<open>
  C3: Reset works through the kernel's rounding: when a DELETE restores a baseline of delay, jitter
  and rate, the scheduler ticks and bytes per second the kernel keeps of it stay within the listing's
  tolerance, so that the link is listed as not shaped.
\<close>

theorem reset_lists_unshaped:
  assumes "netlink_kernel nl enc"
    and "nl_tick_in_usec nl = Fin t" "1 \<le> t" "t \<le> 1000" "tick_enc t enc"
    and "sv_ifaces sv ifid = Some m" "sv_baseline sv (mi_ifid m) = Some b"
    and "validate b = None" "params_proper b" "p_loss b = None"
    and "r = linkd_del (netlink_shaper nl) sv k ifid" "re_code r = 200"
  shows "\<not> lj_shaped (list_entry (netlink_shaper nl) sv (re_kernel r) m)"
proof -
  note laws = netlink_laws [OF assms(1)]
  obtain k' where k': "netlink_apply nl k (mi_dev m) b = (k', None)" "re_kernel r = k'"
    using assms(6,7,11,12)
    by (auto simp: linkd_del_def fail_def split: option.splits prod.splits)
  have "netlink_get nl k' (mi_dev m) = Inr (netlink_obs nl enc b)"
    using shaper_laws.apply_get [OF laws, of k "mi_dev m" b k'] k'(1) by simp
  moreover have "params_equal (netlink_obs nl enc b) b"
    using assms by (intro shape_readback)
  ultimately show ?thesis
    using assms(7) k'(2) by (simp add: list_entry_def Let_def)
qed

section \<open>A concrete daemon\<close>

definition ex_iface :: managed_iface where
  "ex_iface = \<lparr>mi_iface = \<lparr>li_ifid = ''1'', li_neighbor = ''1-151'', li_link_to = ''core'', li_local_ip = NoAddr\<rparr>,
     mi_dev = ''sci1''\<rparr>"

definition ex_baseline :: "(string, params) gomap" where
  "ex_baseline = [(''1'', no_params\<lparr>p_delay := Some (Fin 10), p_rate := Some (Fin 50)\<rparr>)]"

abbreviation ex_nl :: "(nat \<Rightarrow> qdisc option) netlink" where
  "ex_nl \<equiv> ref_netlink [''sci1'', ''sci2'']"

definition ex_server :: linkd_server where
  "ex_server = linkd_new [ex_iface] (map_of ex_baseline)"

lemma ex_lookup: "sv_ifaces ex_server ''1'' = Some ex_iface" "mi_dev ex_iface = ''sci1''" "mi_ifid ex_iface = ''1''"
  by (simp_all add: ex_server_def linkd_new_def ex_iface_def)

lemma ex_base: "sv_baseline ex_server ''1'' = Some (no_params\<lparr>p_delay := Some (Fin 10), p_rate := Some (Fin 50)\<rparr>)"
  by (simp add: ex_server_def linkd_new_def ex_baseline_def)

lemma ex_base_valid:
  "validate (no_params\<lparr>p_delay := Some (Fin 10), p_rate := Some (Fin 50)\<rparr>) = None"
  "params_proper (no_params\<lparr>p_delay := Some (Fin 10), p_rate := Some (Fin 50)\<rparr>)"
  "p_loss (no_params\<lparr>p_delay := Some (Fin 10), p_rate := Some (Fin 50)\<rparr>) = None"
  by code_simp+

lemma ex_load: "baseline_load (Some (Some ex_baseline)) = Inr ex_baseline"
  using ex_base_valid(1) by (simp add: baseline_load_def ex_baseline_def)

lemma ex_apply: "\<exists>k'. netlink_apply ex_nl k ''sci1'' p = (k', None)"
  by (simp add: netlink_apply_def ref_netlink_def)

lemma ex_del: "re_code (linkd_del (netlink_shaper ex_nl) ex_server k ''1'') = 200"
  using ex_apply [of k "no_params\<lparr>p_delay := Some (Fin 10), p_rate := Some (Fin 50)\<rparr>"]
  by (auto simp: linkd_del_def ex_lookup ex_base)

lemma ref_tick_enc: "tick_enc (125/8) ref_enc"
proof -
  have "f64_to_uint32 (Fin 0 / Fin 100 * max_uint32) = 0" by code_simp
  then show ?thesis by (simp add: tick_enc_def ref_enc_def)
qed

theorem linkd_replies_truthful_witness:
  "netlink_get ex_nl (re_kernel (linkd_del (netlink_shaper ex_nl) ex_server Map.empty ''1'')) ''sci1'' =
     Inr (netlink_obs ex_nl ref_enc (no_params\<lparr>p_delay := Some (Fin 10), p_rate := Some (Fin 50)\<rparr>))"
  using linkd_replies_truthful [OF ref_kernel.netlink_kernel_axioms [of "[''sci1'', ''sci2'']"] refl,
      where sv = ex_server and k = Map.empty and req = "ReqDel ''1''" and put = False and ifid = "''1''"]
    ex_del [of Map.empty]
  by (auto simp: ex_lookup ex_base)

text \<open>
  The case of the other handle does happen: someone's netem at the root of a managed device, added with \<open>tc\<close>, which
  picks the handle, survives a DELETE that answers "cleared".
\<close>

definition bare_server :: linkd_server where
  "bare_server = linkd_new [ex_iface] Map.empty"

lemma foreign_netem_survives:
  "let k = [0 \<mapsto> Netem True 0x80010000 156250 0 0 0]; r = linkd_del (netlink_shaper ex_nl) bare_server k ''1'' in
   re_code r = 200 \<and> re_body r = BCleared \<and> re_changed r \<and> re_kernel r = k \<and>
   netlink_get ex_nl (re_kernel r) ''sci1'' = Inr (no_params\<lparr>p_delay := Some (Fin 10)\<rparr>)"
proof -
  let ?k = "[0 \<mapsto> Netem True 0x80010000 156250 0 0 0]"
  have "netlink_clear ex_nl ?k ''sci1'' = (?k, None)"
    by (simp add: netlink_clear_def ref_netlink_def root_attrs_def own_handle_def is_not_found_def)
  moreover have "netlink_get ex_nl ?k ''sci1'' = Inr (no_params\<lparr>p_delay := Some (Fin 10)\<rparr>)" by code_simp
  ultimately show ?thesis
    by (simp add: Let_def linkd_del_def bare_server_def linkd_new_def ex_iface_def)
qed

theorem linkd_requests_safe_witness:
  "netlink_get ex_nl (linkd_run (netlink_shaper ex_nl) (linkd_new [ex_iface] (map_of ex_baseline)) Map.empty
     [ReqDel ''1'', ReqPut ''1'' (Some (no_params\<lparr>p_loss := Some (Fin 3)\<rparr>))]) ''sci2'' = Inr no_params"
proof -
  have "''sci2'' \<notin> mi_dev ` set [ex_iface]" by (simp add: ex_iface_def)
  moreover have "netlink_get ex_nl Map.empty ''sci2'' = Inr no_params"
    by (simp add: netlink_get_def ref_netlink_def)
  ultimately show ?thesis
    using linkd_requests_safe [OF ref_kernel.netlink_kernel_axioms ex_load refl] by metis
qed

theorem reset_lists_unshaped_witness:
  "\<not> lj_shaped (list_entry (netlink_shaper ex_nl) ex_server
     (re_kernel (linkd_del (netlink_shaper ex_nl) ex_server Map.empty ''1'')) ex_iface)"
proof -
  have "nl_tick_in_usec ex_nl = Fin (125/8)" by (simp add: ref_netlink_def)
  from reset_lists_unshaped [OF ref_kernel.netlink_kernel_axioms this _ _ ref_tick_enc ex_lookup(1) _ ex_base_valid refl ex_del]
  show ?thesis by (simp add: ex_lookup ex_base)
qed

end
