(* ===== verification/MetaSync.thy ===== *)
theory MetaSync
  imports LinkdApi
begin

text \<open>
  \<open>linkd/internal/staticinfo\<close> (the writer), \<open>linkd/internal/topowriter\<close> and the \<open>regen\<close> and
  \<open>status\<close> closures of \<open>linkd/cmd/scion-linkd\<close>: rebuilding the beacon metadata and the router's
  topology from the live shaping, and telling the services to reload.  A decoded JSON object is a
  partial function, which is what a Go map is to the code that updates it; the text it marshals to,
  the files and the outcome of a signal are arguments.  A base document is an object: the value
  \<open>null\<close>, which decodes to a nil map that \<open>setInter\<close> panics on, is outside the model.
\<close>

section \<open>Documents\<close>

datatype json = JNull | JBool bool | JNum f64 | JInt int | JStr string | JArr "json list"
  | JObj "string \<Rightarrow> json option"

type_synonym json_doc = "string \<rightharpoonup> json"

text \<open>The type assertion \<open>x.(map[string]any)\<close>, where a failed one reads as nil.\<close>

definition as_obj :: "json option \<Rightarrow> json_doc option" where
  "as_obj x = (case x of Some (JObj m) \<Rightarrow> Some m | _ \<Rightarrow> None)"

abbreviation obj_or_empty :: "json option \<Rightarrow> json_doc" where
  "obj_or_empty x \<equiv> (case as_obj x of None \<Rightarrow> Map.empty | Some m \<Rightarrow> m)"

section \<open>The static info document\<close>

definition set_inter :: "json_doc \<Rightarrow> string \<Rightarrow> string \<Rightarrow> json \<Rightarrow> json_doc" where
  "set_inter doc section ifid v =
     (let sec = obj_or_empty (doc section); entry = obj_or_empty (sec ifid) in
      doc(section \<mapsto> JObj (sec(ifid \<mapsto> JObj (entry(''Inter'' \<mapsto> v))))))"

definition latency_text :: "f64 \<Rightarrow> string" where
  "latency_text d = itoa (f64_to_int64 (go_round (d * Fin 1000))) @ ''us''"

definition set_link :: "json_doc \<Rightarrow> string \<times> params \<Rightarrow> json_doc" where
  "set_link doc = (\<lambda>(ifid, p).
     let doc1 = (case p_delay p of None \<Rightarrow> doc
                 | Some d \<Rightarrow> set_inter doc ''Latency'' ifid (JStr (latency_text d))) in
     case p_rate p of None \<Rightarrow> doc1
     | Some r \<Rightarrow> if Fin 0 < r then set_inter doc1 ''Bandwidth'' ifid (JInt (uint (f64_to_uint64 (r * Fin 1000)))) else doc1)"

definition static_merged :: "(string, params) gomap \<Rightarrow> json_doc \<Rightarrow> json_doc" where
  "static_merged live doc = foldl set_link doc live"

section \<open>The router topology\<close>

text \<open>Each visited value is updated in place and nothing else is, so the iteration order is immaterial.\<close>

definition set_speed :: "(string \<rightharpoonup> params) \<Rightarrow> string \<Rightarrow> json \<Rightarrow> json" where
  "set_speed live ifid ifAny = (case live ifid of
     None \<Rightarrow> ifAny
   | Some p \<Rightarrow> (case p_rate p of
       None \<Rightarrow> ifAny
     | Some r \<Rightarrow>
         if r \<le> Fin 0 then ifAny
         else (case ifAny of
             JObj iface \<Rightarrow> JObj (iface(''idint'' \<mapsto> JObj ((obj_or_empty (iface ''idint''))
               (''speed'' \<mapsto> JInt (f64_to_int64 (go_round (r * Fin 1000000)))))))
           | _ \<Rightarrow> ifAny)))"

definition set_router :: "(string \<rightharpoonup> params) \<Rightarrow> json \<Rightarrow> json" where
  "set_router live brAny = (case brAny of
     JObj br \<Rightarrow> (case as_obj (br ''interfaces'') of
         None \<Rightarrow> brAny
       | Some ifaces \<Rightarrow> JObj (br(''interfaces'' \<mapsto> JObj (\<lambda>ifid. map_option (set_speed live ifid) (ifaces ifid)))))
   | _ \<Rightarrow> brAny)"

definition topo_merged :: "(string, params) gomap \<Rightarrow> json_doc \<Rightarrow> json_doc" where
  "topo_merged live doc = (case as_obj (doc ''border_routers'') of
     None \<Rightarrow> doc
   | Some brs \<Rightarrow> doc(''border_routers'' \<mapsto> JObj (\<lambda>k. map_option (set_router (map_of live)) (brs k))))"

section \<open>Writing and signalling\<close>

record doc_writer =
  dw_unit :: string
  dw_meta_fail :: bool
  dw_hup_fail :: bool

definition writer_new :: "string \<Rightarrow> doc_writer" where
  "writer_new unit = \<lparr>dw_unit = unit, dw_meta_fail = False, dw_hup_fail = False\<rparr>"

text \<open>
  What a \<open>Write\<close> meets: the decoded base document, the outcome of the atomic replace (temp file,
  write, chmod, close, rename) and of the signal.
\<close>

datatype meta_error = BaseUnreadable string | BaseMalformed string | MarshalFailed string
  | AtomicFailed string | SignalFailed string

record write_env =
  we_base :: "meta_error + json_doc"
  we_atomic :: "meta_error option"
  we_signal :: "meta_error option"

record write_result =
  wr_writer :: doc_writer
  wr_out :: "string option"
  wr_signalled :: bool
  wr_error :: "meta_error option"

text \<open>
  \<open>Write\<close>, the same in both packages up to the merge.  The output file is its content, or \<open>None\<close>
  when it cannot be read; \<open>wr_signalled\<close> says that the unit was signalled successfully.
\<close>

definition write_doc ::
  "(json_doc \<Rightarrow> meta_error + string) \<Rightarrow> (json_doc \<Rightarrow> json_doc) \<Rightarrow> write_env \<Rightarrow> doc_writer \<Rightarrow> string option \<Rightarrow> write_result"
where
  "write_doc marshal merged env w out =
     (let failed = (\<lambda>e. \<lparr>wr_writer = w\<lparr>dw_meta_fail := True, dw_hup_fail := True\<rparr>, wr_out = out,
        wr_signalled = False, wr_error = Some e\<rparr>);
          ok = w\<lparr>dw_meta_fail := False, dw_hup_fail := False\<rparr> in
      case we_base env of
        Inl e \<Rightarrow> failed e
      | Inr base \<Rightarrow> (case marshal (merged base) of
          Inl e \<Rightarrow> failed e
        | Inr doc \<Rightarrow>
            if (case out of None \<Rightarrow> False | Some existing \<Rightarrow> trim_suffix existing [newline] = doc)
            then \<lparr>wr_writer = ok, wr_out = out, wr_signalled = False, wr_error = None\<rparr>
            else (case we_atomic env of
                Some e \<Rightarrow> failed e
              | None \<Rightarrow>
                  let out' = Some (doc @ [newline]) in
                  if dw_unit w = [] then \<lparr>wr_writer = ok, wr_out = out', wr_signalled = False, wr_error = None\<rparr>
                  else (case we_signal env of
                      Some e \<Rightarrow> \<lparr>wr_writer = w\<lparr>dw_meta_fail := False, dw_hup_fail := True\<rparr>, wr_out = out',
                        wr_signalled = False, wr_error = Some e\<rparr>
                    | None \<Rightarrow> \<lparr>wr_writer = ok, wr_out = out', wr_signalled = True, wr_error = None\<rparr>))))"

definition static_write where
  "static_write marshal live = write_doc marshal (static_merged live)"

definition topo_write where
  "topo_write marshal live = write_doc marshal (topo_merged live)"

definition writer_status :: "doc_writer \<Rightarrow> bool \<times> bool" where
  "writer_status w = (\<not> dw_meta_fail w, \<not> dw_hup_fail w)"

section \<open>The daemon's regeneration\<close>

text \<open>The live map: unreadable devices are left out; a later interface of the same id overwrites.\<close>

definition live_params :: "'k shaper \<Rightarrow> 'k \<Rightarrow> managed_iface list \<Rightarrow> (string, params) gomap" where
  "live_params sh k managed = foldl (\<lambda>m mi. case sh_get sh k (mi_dev mi) of
     Inl _ \<Rightarrow> m | Inr p \<Rightarrow> put_key (mi_ifid mi) p m) [] managed"

record meta_state =
  ms_static :: "(doc_writer \<times> string option) option"
  ms_topo :: "(doc_writer \<times> string option) option"

definition regen ::
  "(json_doc \<Rightarrow> meta_error + string) \<Rightarrow> write_env \<Rightarrow> write_env \<Rightarrow> 'k shaper \<Rightarrow> 'k \<Rightarrow> managed_iface list \<Rightarrow>
   meta_state \<Rightarrow> meta_state" where
  "regen marshal env1 env2 sh k managed s =
     (let live = live_params sh k managed in
      \<lparr>ms_static = map_option (\<lambda>(w, out). let r = static_write marshal live env1 w out in (wr_writer r, wr_out r)) (ms_static s),
       ms_topo = map_option (\<lambda>(w, out). let r = topo_write marshal live env2 w out in (wr_writer r, wr_out r)) (ms_topo s)\<rparr>)"

definition regen_status :: "meta_state \<Rightarrow> (bool \<times> bool) option" where
  "regen_status s =
     (if ms_static s = None \<and> ms_topo s = None then None
      else (let (m1, r1) = (case ms_static s of None \<Rightarrow> (True, True) | Some (w, _) \<Rightarrow> writer_status w);
                (m2, r2) = (case ms_topo s of None \<Rightarrow> (True, True) | Some (w, _) \<Rightarrow> writer_status w) in
            Some (m1 \<and> m2, r1 \<and> r2)))"

section \<open>The merged documents\<close>

text \<open>The value at \<open>doc[section][ifid][field]\<close>.\<close>

definition doc_at :: "json_doc \<Rightarrow> string \<Rightarrow> string \<Rightarrow> string \<Rightarrow> json option" where
  "doc_at doc section ifid field = obj_or_empty (obj_or_empty (doc section) ifid) field"

lemma obj_or_empty_JObj [simp]: "as_obj (Some (JObj m)) = Some m"
  by (simp add: as_obj_def)

lemma as_obj_None [simp]: "as_obj None = None"
  by (simp add: as_obj_def)

lemma at_set_inter:
  "doc_at (set_inter doc s i v) s' i' f = (if s' = s \<and> i' = i \<and> f = ''Inter'' then Some v else doc_at doc s' i' f)"
  by (simp add: doc_at_def set_inter_def Let_def)

lemma set_inter_other: "s' \<noteq> s \<Longrightarrow> set_inter doc s i v s' = doc s'"
  by (simp add: set_inter_def Let_def)

definition live_latency :: "params \<Rightarrow> json option" where
  "live_latency p = map_option (\<lambda>d. JStr (latency_text d)) (p_delay p)"

definition live_bandwidth :: "params \<Rightarrow> json option" where
  "live_bandwidth p = (case p_rate p of None \<Rightarrow> None
     | Some r \<Rightarrow> if Fin 0 < r then Some (JInt (uint (f64_to_uint64 (r * Fin 1000)))) else None)"

text \<open>The value the live state gives a field, if it gives one.\<close>

definition live_field :: "(string \<rightharpoonup> params) \<Rightarrow> string \<Rightarrow> string \<Rightarrow> string \<Rightarrow> json option" where
  "live_field live s i f =
     (if f = ''Inter'' then
        (if s = ''Latency'' then Option.bind (live i) live_latency
         else if s = ''Bandwidth'' then Option.bind (live i) live_bandwidth else None)
      else None)"

lemma at_set_link:
  "doc_at (set_link doc (i, p)) s i' f =
     (case live_field [i \<mapsto> p] s i' f of Some v \<Rightarrow> Some v | None \<Rightarrow> doc_at doc s i' f)"
  by (auto simp: set_link_def at_set_inter live_field_def live_latency_def live_bandwidth_def
      split: option.splits)

lemma set_link_other: "s \<noteq> ''Latency'' \<Longrightarrow> s \<noteq> ''Bandwidth'' \<Longrightarrow> set_link doc x s = doc s"
  by (cases x) (auto simp: set_link_def set_inter_other split: option.splits)

lemma live_field_Cons:
  assumes "i \<notin> fst ` set live"
  shows "live_field (map_of ((i, p) # live)) s i' f =
    (case live_field (map_of live) s i' f of Some v \<Rightarrow> Some v | None \<Rightarrow> live_field [i \<mapsto> p] s i' f)"
proof -
  have "map_of live i = None" using assms by (simp add: map_of_eq_None_iff)
  then show ?thesis by (auto simp: live_field_def split: option.splits)
qed

lemma at_static_merged:
  assumes "wf_map live"
  shows "doc_at (static_merged live doc) s i f =
    (case live_field (map_of live) s i f of Some v \<Rightarrow> Some v | None \<Rightarrow> doc_at doc s i f)"
  using assms
proof (induction live arbitrary: doc)
  case (Cons x live)
  obtain j p where x: "x = (j, p)" by (cases x)
  have "doc_at (static_merged (x # live) doc) s i f = doc_at (static_merged live (set_link doc (j, p))) s i f"
    by (simp add: static_merged_def x)
  also have "\<dots> = (case live_field (map_of live) s i f of Some v \<Rightarrow> Some v
      | None \<Rightarrow> (case live_field [j \<mapsto> p] s i f of Some v \<Rightarrow> Some v | None \<Rightarrow> doc_at doc s i f))"
    using Cons by (auto simp: at_set_link split: option.splits)
  also have "\<dots> = (case live_field (map_of (x # live)) s i f of Some v \<Rightarrow> Some v | None \<Rightarrow> doc_at doc s i f)"
    using Cons.prems live_field_Cons [of j live p s i f] x by (auto split: option.splits)
  finally show ?case .
qed (simp add: static_merged_def live_field_def)

text \<open>
  The rebuilt static info document is the base document with the live shaping written over it:
  an interface's inter-AS latency and bandwidth are the live ones exactly where the live state has a
  delay, or a positive rate; every other field of every entry, and every other section, is the base's.
\<close>

theorem static_merged_overrides:
  assumes "wf_map live"
  shows "doc_at (static_merged live doc) s i f =
      (case live_field (map_of live) s i f of Some v \<Rightarrow> Some v | None \<Rightarrow> doc_at doc s i f) \<and>
    (s \<noteq> ''Latency'' \<and> s \<noteq> ''Bandwidth'' \<longrightarrow> static_merged live doc s = doc s)"
proof -
  have "static_merged live doc s = doc s" if "s \<noteq> ''Latency''" "s \<noteq> ''Bandwidth''"
    unfolding static_merged_def using that
    by (induction live arbitrary: doc) (simp_all add: set_link_other)
  with at_static_merged [OF assms] show ?thesis by blast
qed

theorem static_merged_overrides_witness:
  "doc_at (static_merged [(''7'', no_params\<lparr>p_delay := Some (Fin 20)\<rparr>)] Map.empty) ''Latency'' ''7'' ''Inter'' =
    Some (JStr (itoa 20000 @ ''us''))"
proof -
  have "f64_to_int64 (go_round (Fin 20 * Fin 1000)) = 20000" by code_simp
  then have "latency_text (Fin 20) = itoa 20000 @ ''us''" by (simp add: latency_text_def)
  then have lf: "live_field (map_of [(''7'', no_params\<lparr>p_delay := Some (Fin 20)\<rparr>)]) ''Latency'' ''7'' ''Inter'' =
      Some (JStr (itoa 20000 @ ''us''))"
    by (simp add: live_field_def live_latency_def)
  have "wf_map [(''7'', no_params\<lparr>p_delay := Some (Fin 20)\<rparr>)]" by simp
  from static_merged_overrides [OF this, of Map.empty "''Latency''" "''7''" "''Inter''"] lf
  show ?thesis by simp
qed

text \<open>The value at a path of keys.\<close>

fun json_path :: "json option \<Rightarrow> string list \<Rightarrow> json option" where
  "json_path x [] = x"
| "json_path x (k # ks) = (case as_obj x of None \<Rightarrow> None | Some m \<Rightarrow> json_path (m k) ks)"

definition speed_path :: "string \<Rightarrow> string \<Rightarrow> string list" where
  "speed_path br ifid = [''border_routers'', br, ''interfaces'', ifid, ''idint'', ''speed'']"

definition live_speed :: "(string \<rightharpoonup> params) \<Rightarrow> string \<Rightarrow> json option" where
  "live_speed live ifid = (case live ifid of None \<Rightarrow> None | Some p \<Rightarrow> (case p_rate p of None \<Rightarrow> None
     | Some r \<Rightarrow> if r \<le> Fin 0 then None else Some (JInt (f64_to_int64 (go_round (r * Fin 1000000))))))"

lemma json_path_None [simp]: "json_path None ks = None"
  by (cases ks) auto

lemma set_speed_path:
  assumes "\<not> prefix ks [''idint'', ''speed'']" "\<not> prefix [''idint'', ''speed''] ks"
  shows "json_path (Some (set_speed live ifid x)) ks = json_path (Some x) ks"
proof (cases x)
  case (JObj iface)
  obtain k1 r1 where ks: "ks = k1 # r1" using assms by (cases ks) auto
  show ?thesis
  proof (cases "k1 = ''idint''")
    case True
    then obtain k2 r2 where r1: "r1 = k2 # r2" "k2 \<noteq> ''speed''" using assms ks by (cases r1) auto
    show ?thesis
      using True ks r1 JObj
      by (auto simp: set_speed_def split: option.splits)
  qed (use ks JObj in \<open>auto simp: set_speed_def split: option.splits\<close>)
qed (auto simp: set_speed_def split: option.splits)

lemma set_speed_value:
  "json_path (Some (set_speed live ifid (JObj iface))) [''idint'', ''speed''] =
    (case live_speed live ifid of Some v \<Rightarrow> Some v | None \<Rightarrow> json_path (Some (JObj iface)) [''idint'', ''speed''])"
  by (auto simp: set_speed_def live_speed_def split: option.splits)

lemma set_speed_no_obj: "as_obj (Some x) = None \<Longrightarrow> set_speed live ifid x = x"
  by (cases x) (auto simp: set_speed_def split: option.splits)

lemma set_router_path:
  "json_path (Some (set_router live x)) (k # ks) =
    (if k = ''interfaces'' then (case ks of [] \<Rightarrow> json_path (Some (set_router live x)) [k]
       | ifid # rest \<Rightarrow> json_path (map_option (set_speed live ifid) (json_path (Some x) [k, ifid])) rest)
     else json_path (Some x) (k # ks))"
proof (cases x)
  case (JObj br)
  then show ?thesis
    by (cases ks; cases "as_obj (br ''interfaces'')") (auto simp: set_router_def)
qed (auto simp: set_router_def as_obj_def split: list.splits)

lemma topo_merged_path:
  "json_path (Some (JObj (topo_merged live doc))) (k # ks) =
    (if k = ''border_routers'' then (case ks of [] \<Rightarrow> json_path (Some (JObj (topo_merged live doc))) [k]
       | br # rest \<Rightarrow> json_path (map_option (set_router (map_of live)) (json_path (Some (JObj doc)) [k, br])) rest)
     else json_path (Some (JObj doc)) (k # ks))"
  by (cases ks; cases "as_obj (doc ''border_routers'')") (auto simp: topo_merged_def)

lemma json_path_append: "json_path x (ks @ ls) = json_path (json_path x ks) ls"
  by (induction ks arbitrary: x) (auto split: option.splits)

lemma topo_merged_off:
  assumes "\<And>b i. \<not> prefix ks (speed_path b i) \<and> \<not> prefix (speed_path b i) ks"
  shows "json_path (Some (JObj (topo_merged live doc))) ks = json_path (Some (JObj doc)) ks"
proof -
  let ?L = "map_of live"
  obtain k1 r1 where ks: "ks = k1 # r1" using assms by (cases ks) auto
  show ?thesis
  proof (cases "k1 = ''border_routers''")
    case False
    then show ?thesis by (simp add: ks topo_merged_path del: json_path.simps(2))
  next
    case k1: True
    then obtain br r2 where r1: "r1 = br # r2" using assms ks by (cases r1) (auto simp: speed_path_def)
    obtain k3 r3 where r2: "r2 = k3 # r3"
      using assms [of br] ks k1 r1 by (cases r2) (auto simp: speed_path_def)
    define x where "x = json_path (Some (JObj doc)) [''border_routers'', br]"
    have l: "json_path (Some (JObj (topo_merged live doc))) ks = json_path (map_option (set_router ?L) x) (k3 # r3)"
      unfolding ks k1 r1 r2 x_def by (subst topo_merged_path) simp
    have r: "json_path (Some (JObj doc)) ks = json_path x (k3 # r3)"
      using json_path_append [of "Some (JObj doc)" "[''border_routers'', br]" "k3 # r3"]
      by (simp only: ks k1 r1 r2 x_def append_Cons append_Nil)
    show ?thesis
    proof (cases x)
      case None
      with l r show ?thesis by simp
    next
      case (Some xv)
      show ?thesis
      proof (cases "k3 = ''interfaces''")
        case False
        then have "json_path (Some (set_router ?L xv)) (k3 # r3) = json_path (Some xv) (k3 # r3)"
          by (subst set_router_path) (simp only: if_False)
        with l r Some show ?thesis by (simp only: option.map)
      next
        case k3: True
        then obtain i r4 where r3: "r3 = i # r4"
          using assms [of br] ks k1 r1 r2 by (cases r3) (auto simp: speed_path_def)
        have off: "\<not> prefix r4 [''idint'', ''speed'']" "\<not> prefix [''idint'', ''speed''] r4"
          using assms [of br i] by (auto simp: ks k1 r1 r2 k3 r3 speed_path_def)
        have l2: "json_path (Some (set_router ?L xv)) (k3 # r3) =
            json_path (map_option (set_speed ?L i) (json_path (Some xv) [''interfaces'', i])) r4"
          unfolding k3 r3 by (subst set_router_path) simp
        have r2': "json_path (Some xv) (k3 # r3) = json_path (json_path (Some xv) [''interfaces'', i]) r4"
          using json_path_append [of "Some xv" "[''interfaces'', i]" r4]
          by (simp only: k3 r3 append_Cons append_Nil)
        show ?thesis
          using set_speed_path [OF off] l r l2 r2' Some
          by (cases "json_path (Some xv) [''interfaces'', i]") (simp_all only: option.map)
      qed
    qed
  qed
qed

text \<open>
  The rebuilt router topology is the base topology with the live rates written over the
  ID-INT speeds: an interface object that the live state gives a positive rate gets that rate in bits
  per second at \<open>idint.speed\<close>, every other interface keeps its speed, and nothing off these paths
  changes.
\<close>

theorem topo_merged_speeds:
  assumes "json_path (Some (JObj doc)) [''border_routers'', br, ''interfaces'', ifid] = Some (JObj iface)"
  shows "json_path (Some (JObj (topo_merged live doc))) (speed_path br ifid) =
      (case live_speed (map_of live) ifid of Some v \<Rightarrow> Some v
       | None \<Rightarrow> json_path (Some (JObj doc)) (speed_path br ifid)) \<and>
    ((\<forall>b i. \<not> prefix ks (speed_path b i) \<and> \<not> prefix (speed_path b i) ks) \<longrightarrow>
      json_path (Some (JObj (topo_merged live doc))) ks = json_path (Some (JObj doc)) ks)"
proof
  obtain brs router ifs where o: "as_obj (doc ''border_routers'') = Some brs" "as_obj (brs br) = Some router"
    "as_obj (router ''interfaces'') = Some ifs" "ifs ifid = Some (JObj iface)"
    using assms by (auto split: option.splits)
  have rj: "brs br = Some (JObj router)"
    using o(2) by (auto simp: as_obj_def split: option.splits json.splits)
  let ?L = "map_of live"
  have tm: "topo_merged live doc ''border_routers'' = Some (JObj (\<lambda>k. map_option (set_router ?L) (brs k)))"
    using o(1) by (simp add: topo_merged_def)
  have sr: "set_router ?L (JObj router) =
      JObj (router(''interfaces'' \<mapsto> JObj (\<lambda>i. map_option (set_speed ?L i) (ifs i))))"
    using o(3) by (simp add: set_router_def)
  have "json_path (Some (JObj (topo_merged live doc))) (speed_path br ifid) =
      json_path (Some (set_speed ?L ifid (JObj iface))) [''idint'', ''speed'']"
    by (simp add: speed_path_def tm sr o(4) rj)
  moreover have "json_path (Some (JObj doc)) (speed_path br ifid) =
      json_path (Some (JObj iface)) [''idint'', ''speed'']"
    by (simp add: speed_path_def o rj)
  ultimately show "json_path (Some (JObj (topo_merged live doc))) (speed_path br ifid) =
      (case live_speed ?L ifid of Some v \<Rightarrow> Some v
       | None \<Rightarrow> json_path (Some (JObj doc)) (speed_path br ifid))"
    by (simp only: set_speed_value)
  show "(\<forall>b i. \<not> prefix ks (speed_path b i) \<and> \<not> prefix (speed_path b i) ks) \<longrightarrow>
      json_path (Some (JObj (topo_merged live doc))) ks = json_path (Some (JObj doc)) ks"
  proof
    assume off: "\<forall>b i. \<not> prefix ks (speed_path b i) \<and> \<not> prefix (speed_path b i) ks"
    show "json_path (Some (JObj (topo_merged live doc))) ks = json_path (Some (JObj doc)) ks"
      by (rule topo_merged_off [OF off [rule_format]])
  qed
qed

definition ex_topo_doc :: json_doc where
  "ex_topo_doc = [''border_routers'' \<mapsto> JObj [''br1'' \<mapsto> JObj [''interfaces'' \<mapsto> JObj [''7'' \<mapsto> JObj Map.empty]]]]"

theorem topo_merged_speeds_witness:
  "json_path (Some (JObj (topo_merged [(''7'', no_params\<lparr>p_rate := Some (Fin 50)\<rparr>)] ex_topo_doc))) (speed_path ''br1'' ''7'') =
    Some (JInt 50000000)"
proof -
  have p: "json_path (Some (JObj ex_topo_doc)) [''border_routers'', ''br1'', ''interfaces'', ''7''] = Some (JObj Map.empty)"
    by (simp add: ex_topo_doc_def)
  have "f64_to_int64 (go_round (Fin 50 * Fin 1000000)) = 50000000" by code_simp
  then have "live_speed (map_of [(''7'', no_params\<lparr>p_rate := Some (Fin 50)\<rparr>)]) ''7'' = Some (JInt 50000000)"
    by (simp add: live_speed_def)
  then show ?thesis
    using topo_merged_speeds [OF p, of "[(''7'', no_params\<lparr>p_rate := Some (Fin 50)\<rparr>)]"] by simp
qed

section \<open>Writing and reloading\<close>

lemma trim_suffix_append [simp]: "trim_suffix (s @ p) p = s"
  by (simp add: trim_suffix_def)

lemma write_doc_cases:
  assumes "r = write_doc marshal merged env w out"
  obtains (failed) e where "wr_error r = Some e" "wr_out r = out" "writer_status (wr_writer r) = (False, False)"
      "\<not> wr_signalled r" "dw_unit (wr_writer r) = dw_unit w"
  | (same) base doc existing where "we_base env = Inr base" "marshal (merged base) = Inr doc" "out = Some existing"
      "trim_suffix existing [newline] = doc" "wr_error r = None" "wr_out r = out"
      "writer_status (wr_writer r) = (True, True)" "\<not> wr_signalled r" "dw_unit (wr_writer r) = dw_unit w"
  | (written) base doc where "we_base env = Inr base" "marshal (merged base) = Inr doc"
      "\<forall>existing. out = Some existing \<longrightarrow> trim_suffix existing [newline] \<noteq> doc"
      "wr_out r = Some (doc @ [newline])" "dw_unit (wr_writer r) = dw_unit w" "we_atomic env = None"
      "fst (writer_status (wr_writer r))"
      "wr_signalled r \<longleftrightarrow> dw_unit w \<noteq> [] \<and> we_signal env = None"
      "wr_error r = (if dw_unit w = [] then None else we_signal env)"
      "snd (writer_status (wr_writer r)) \<longleftrightarrow> wr_error r = None"
proof (cases "we_base env")
  case (Inl e)
  with assms show ?thesis by (intro failed) (simp_all add: write_doc_def Let_def writer_status_def)
next
  case (Inr base)
  show ?thesis
  proof (cases "marshal (merged base)")
    case (Inl e)
    with assms Inr show ?thesis by (intro failed) (simp_all add: write_doc_def Let_def writer_status_def)
  next
    case m: (Inr doc)
    show ?thesis
    proof (cases "\<exists>existing. out = Some existing \<and> trim_suffix existing [newline] = doc")
      case True
      then obtain existing where "out = Some existing" "trim_suffix existing [newline] = doc" by blast
      with assms Inr m show ?thesis by (intro same) (simp_all add: write_doc_def Let_def writer_status_def)
    next
      case False
      then have ne: "\<not> (case out of None \<Rightarrow> False | Some existing \<Rightarrow> trim_suffix existing [newline] = doc)"
        by (auto split: option.splits)
      show ?thesis
      proof (cases "we_atomic env")
        case (Some e)
        with assms Inr m ne show ?thesis by (intro failed) (simp_all add: write_doc_def Let_def writer_status_def)
      next
        case None
        with assms Inr m ne False show ?thesis
          by (intro written) (auto simp: write_doc_def Let_def writer_status_def split: option.splits)
      qed
    qed
  qed
qed

text \<open>
  C20: A write that returns no error leaves the output holding exactly the rebuilt document, reports
  both flags good, and has signalled the service if and only if there is one and the file changed; a
  write that fails has signalled nobody and reports the reload as not done, and reports the metadata
  as good only if the file does hold the rebuilt document.
\<close>

theorem static_write_outcome:
  assumes "r = static_write marshal live env w out"
  shows "(wr_error r = None \<longrightarrow> writer_status (wr_writer r) = (True, True) \<and>
      (\<exists>base doc c. we_base env = Inr base \<and> marshal (static_merged live base) = Inr doc \<and>
         wr_out r = Some c \<and> trim_suffix c [newline] = doc) \<and>
      (wr_signalled r \<longleftrightarrow> dw_unit w \<noteq> [] \<and> wr_out r \<noteq> out)) \<and>
    (wr_error r \<noteq> None \<longrightarrow> \<not> wr_signalled r \<and> \<not> snd (writer_status (wr_writer r)) \<and>
      (fst (writer_status (wr_writer r)) \<longrightarrow>
         (\<exists>base doc. we_base env = Inr base \<and> marshal (static_merged live base) = Inr doc \<and> wr_out r = Some (doc @ [newline]))) \<and>
      (\<not> fst (writer_status (wr_writer r)) \<longrightarrow> wr_out r = out))"
  using assms unfolding static_write_def
proof (cases rule: write_doc_cases)
  case (written base doc)
  have "wr_out r \<noteq> out" using written(3,4) by auto
  with written show ?thesis
    by (cases "writer_status (wr_writer r)") (auto split: if_splits)
qed auto

theorem static_write_outcome_witness:
  "let r = static_write (\<lambda>_. Inr ''{}'') [] \<lparr>we_base = Inr Map.empty, we_atomic = None, we_signal = None\<rparr>
      (writer_new ''cs.service'') None in
   wr_signalled r \<and> writer_status (wr_writer r) = (True, True)"
proof -
  let ?r = "static_write (\<lambda>_. Inr ''{}'') [] \<lparr>we_base = Inr Map.empty, we_atomic = None, we_signal = None\<rparr>
      (writer_new ''cs.service'') None"
  have "wr_error ?r = None" "wr_out ?r \<noteq> None"
    by (simp_all add: static_write_def write_doc_def writer_new_def Let_def)
  with static_write_outcome [of ?r, OF refl] show ?thesis by (simp add: writer_new_def Let_def)
qed

text \<open>
  C22: A reload that failed is forgotten.  When the file was written but the signal failed, the next
  write that rebuilds the same document finds it on disk and, without signalling the service, reports
  the reload as done: \<open>/healthz\<close> then claims \<open>reload_ok\<close> while the service still runs on the old
  document.
\<close>

theorem reload_failure_forgotten:
  assumes "r1 = static_write marshal live env1 w out" "writer_status (wr_writer r1) = (True, False)"
    and "we_base env2 = we_base env1" "r2 = static_write marshal live env2 (wr_writer r1) (wr_out r1)"
  shows "\<not> wr_signalled r1 \<and> \<not> wr_signalled r2 \<and> wr_out r2 = wr_out r1 \<and>
    writer_status (wr_writer r2) = (True, True) \<and> wr_error r2 = None"
  using assms(1) unfolding static_write_def
proof (cases rule: write_doc_cases)
  case (written base doc)
  have r2: "r2 = write_doc marshal (static_merged live) env2 (wr_writer r1) (Some (doc @ [newline]))"
    using assms(4) written(4) by (simp add: static_write_def)
  have "wr_out r2 = Some (doc @ [newline]) \<and> \<not> wr_signalled r2 \<and>
      writer_status (wr_writer r2) = (True, True) \<and> wr_error r2 = None"
    using written(1,2) assms(3) by (simp add: r2 write_doc_def Let_def writer_status_def)
  moreover have "\<not> wr_signalled r1" using written(8,9,10) assms(2) by (auto split: if_splits)
  ultimately show ?thesis using written(4) by simp
qed (use assms(2) in auto)

theorem reload_failure_forgotten_witness:
  "let env = \<lparr>we_base = Inr Map.empty, we_atomic = None, we_signal = Some (SignalFailed ''timed out'')\<rparr>;
       r1 = static_write (\<lambda>_. Inr ''{}'') [] env (writer_new ''cs.service'') None;
       r2 = static_write (\<lambda>_. Inr ''{}'') [] env (wr_writer r1) (wr_out r1) in
   \<not> wr_signalled r1 \<and> \<not> wr_signalled r2 \<and> writer_status (wr_writer r2) = (True, True)"
proof -
  let ?env = "\<lparr>we_base = Inr Map.empty, we_atomic = None, we_signal = Some (SignalFailed ''timed out'')\<rparr>"
  let ?r1 = "static_write (\<lambda>_. Inr ''{}'') [] ?env (writer_new ''cs.service'') None"
  have "writer_status (wr_writer ?r1) = (True, False)"
    by (simp add: static_write_def write_doc_def writer_new_def writer_status_def Let_def)
  from reload_failure_forgotten [OF refl this refl refl] show ?thesis by (simp add: Let_def)
qed

end
