(* ===== verification/LinkdMain.thy ===== *)
theory LinkdMain
  imports LinkdReset MetaSync
begin

text \<open>
  \<open>linkd/cmd/scion-linkd/main.go\<close> and \<open>linkd/internal/config\<close>: the daemon's start, from its configuration to
  the server it runs.  Files, the links of the kernel and the decoders are arguments; the parts of the start are
  those of the other theories.  The theorem is the one that makes a restart of linkd harmless: shaping that is
  live is not clobbered, and nothing outside the story profile is applied.
\<close>

section \<open>Configuration\<close>

record linkd_config =
  lk_listen :: string
  lk_topology_glob :: string
  lk_static_base :: string
  lk_static_out :: string
  lk_baseline_profile :: string
  lk_cs_unit :: string
  lk_topology_base :: string
  lk_topology_out :: string
  lk_br_unit :: string

definition linkd_default_config :: linkd_config where
  "linkd_default_config = \<lparr>lk_listen = '':30480'', lk_topology_glob = ''/etc/scion/AS*/topology.json'', lk_static_base = '''',
     lk_static_out = '''', lk_baseline_profile = ''/etc/scion/AS*/linkd-baseline.json'', lk_cs_unit = '''',
     lk_topology_base = '''', lk_topology_out = '''', lk_br_unit = ''''\<rparr>"

definition linkd_load_config :: "(linkd_config \<Rightarrow> string + linkd_config) \<Rightarrow> string + linkd_config" where
  "linkd_load_config decode_file = decode_file linkd_default_config"

text \<open>\<open>filepath.Glob\<close> is the argument: \<open>None\<close> for a malformed pattern, else the matching files.\<close>

datatype resolve_error = BadPattern string | Matches string nat

definition resolve_one :: "(string \<Rightarrow> string list option) \<Rightarrow> string \<Rightarrow> resolve_error + string" where
  "resolve_one glob pattern = (case glob pattern of
     None \<Rightarrow> Inl (BadPattern pattern)
   | Some ms \<Rightarrow> (case ms of [m] \<Rightarrow> Inr m | _ \<Rightarrow> Inl (Matches pattern (length ms))))"

section \<open>The start\<close>

text \<open>A writer's base and output path and its state.\<close>

record writer_conf =
  wc_base :: string
  wc_out :: string
  wc_writer :: doc_writer

definition writer_of :: "(string \<Rightarrow> string list option) \<Rightarrow> string \<Rightarrow> string \<Rightarrow> string \<Rightarrow> writer_conf option" where
  "writer_of glob base out unit = (case resolve_one glob base of
     Inl _ \<Rightarrow> None
   | Inr bp \<Rightarrow> Some \<lparr>wc_base = bp, wc_out = (if out = '''' then trim_suffix bp ''.base.json'' @ ''.json'' else out),
       wc_writer = writer_new unit\<rparr>)"

text \<open>A profile that cannot be found, read or validated is logged and left out.\<close>

definition profile_of ::
  "(string \<Rightarrow> string list option) \<Rightarrow> (string \<Rightarrow> (string, params) gomap option option) \<Rightarrow> string \<Rightarrow> (string, params) gomap" where
  "profile_of glob read pattern = (case resolve_one glob pattern of
     Inl _ \<Rightarrow> []
   | Inr p \<Rightarrow> (case baseline_load (read p) of Inl _ \<Rightarrow> [] | Inr m \<Rightarrow> m))"

datatype linkd_fatal = FatalLinkdConfig string | FatalLinkdTopo linkd_topo_error | NoInterfaces

record 'k linkd_daemon =
  ld_server :: linkd_server
  ld_managed :: "managed_iface list"
  ld_collector :: collector
  ld_static :: "writer_conf option"
  ld_topo :: "writer_conf option"
  ld_kernel :: 'k

definition linkd_start ::
  "'k shaper \<Rightarrow> (linkd_config \<Rightarrow> string + linkd_config) \<Rightarrow> (string \<Rightarrow> linkd_topo_error + linkd_iface list) \<Rightarrow>
   nl_error + (string \<times> (nl_error + 8 word list list)) list \<Rightarrow> (string \<Rightarrow> string list option) \<Rightarrow>
   (string \<Rightarrow> (string, params) gomap option option) \<Rightarrow> 'k \<Rightarrow> linkd_fatal + 'k linkd_daemon" where
  "linkd_start sh decode_file load links glob read k = (case linkd_load_config decode_file of
     Inl e \<Rightarrow> Inl (FatalLinkdConfig e)
   | Inr cfg \<Rightarrow> (case load (lk_topology_glob cfg) of
       Inl e \<Rightarrow> Inl (FatalLinkdTopo e)
     | Inr ifs \<Rightarrow>
        (let managed = managed_ifaces links ifs in
         if managed = [] then Inl NoInterfaces
         else let blm = profile_of glob read (lk_baseline_profile cfg) in
           Inr \<lparr>ld_server = linkd_new managed (map_of blm), ld_managed = managed,
             ld_collector = collector_new (foldl (\<lambda>m mi. put_key (mi_ifid mi) (mi_dev mi) m) [] managed),
             ld_static = writer_of glob (lk_static_base cfg) (lk_static_out cfg) (lk_cs_unit cfg),
             ld_topo = writer_of glob (lk_topology_base cfg) (lk_topology_out cfg) (lk_br_unit cfg),
             ld_kernel = preshape sh (map_of blm) k managed\<rparr>)))"

text \<open>The documents are regenerated once at the start, if there is a writer.\<close>

definition linkd_meta :: "(string \<Rightarrow> string option) \<Rightarrow> 'k linkd_daemon \<Rightarrow> meta_state" where
  "linkd_meta files d = \<lparr>ms_static = map_option (\<lambda>c. (wc_writer c, files (wc_out c))) (ld_static d),
     ms_topo = map_option (\<lambda>c. (wc_writer c, files (wc_out c))) (ld_topo d)\<rparr>"

definition linkd_converge ::
  "(json_doc \<Rightarrow> meta_error + string) \<Rightarrow> write_env \<Rightarrow> write_env \<Rightarrow> 'k shaper \<Rightarrow> (string \<Rightarrow> string option) \<Rightarrow>
   'k linkd_daemon \<Rightarrow> meta_state" where
  "linkd_converge marshal env1 env2 sh files d =
     (let s = linkd_meta files d in
      if ld_static d \<noteq> None \<or> ld_topo d \<noteq> None then regen marshal env1 env2 sh (ld_kernel d) (ld_managed d) s else s)"

section \<open>Preshaping\<close>

context shaper_laws
begin

lemma preshape_get:
  "sh_get sh (preshape sh blm k ms) dev = sh_get sh k dev \<or>
   (\<exists>p. sh_get sh k dev = Inr p \<and> params_empty p) \<and>
   (\<exists>m\<in>set ms. \<exists>b. mi_dev m = dev \<and> blm (mi_ifid m) = Some b \<and> sh_get sh (preshape sh blm k ms) dev = Inr (obs b))"
proof (induction ms arbitrary: k)
  case (Cons m ms)
  show ?case
  proof (cases "\<exists>b p. blm (mi_ifid m) = Some b \<and> sh_get sh k (mi_dev m) = Inr p \<and> params_empty p")
    case True
    then obtain b p where b: "blm (mi_ifid m) = Some b" "sh_get sh k (mi_dev m) = Inr p" "params_empty p" by blast
    obtain k1 r where k1: "sh_apply sh k (mi_dev m) b = (k1, r)" by (cases "sh_apply sh k (mi_dev m) b")
    have step: "preshape sh blm k (m # ms) = preshape sh blm k1 ms" using b k1 by simp
    show ?thesis
    proof (cases "dev = mi_dev m \<and> r = None")
      case True
      then have "sh_get sh k1 dev = Inr (obs b)" using apply_get k1 by simp
      then show ?thesis
        using Cons.IH [of k1] True b unfolding step by (metis list.set_intros)
    next
      case False
      then have "sh_get sh k1 dev = sh_get sh k dev"
        using apply_other [OF k1] apply_fail [of k "mi_dev m" b k1] k1 by (cases r) auto
      then show ?thesis
        using Cons.IH [of k1] unfolding step by (metis list.set_intros(2))
    qed
  next
    case False
    then have "preshape sh blm k (m # ms) = preshape sh blm k ms"
      by (auto split: option.split sum.split)
    then show ?thesis using Cons.IH [of k] by (metis list.set_intros(2))
  qed
qed simp

lemma preshape_restores:
  assumes "sh_get sh k dev = Inr p" "params_empty p" "m \<in> set ms" "mi_dev m = dev" "blm (mi_ifid m) = Some b"
  shows "(\<exists>m'\<in>set ms. \<exists>b'. mi_dev m' = dev \<and> blm (mi_ifid m') = Some b' \<and> sh_get sh (preshape sh blm k ms) dev = Inr (obs b'))
    \<or> (\<exists>k1. sh_get sh k1 dev = Inr p \<and> snd (sh_apply sh k1 dev b) \<noteq> None)"
  using assms
proof (induction ms arbitrary: k)
  case (Cons m0 ms)
  show ?case
  proof (cases "\<exists>b0 p0. blm (mi_ifid m0) = Some b0 \<and> sh_get sh k (mi_dev m0) = Inr p0 \<and> params_empty p0")
    case True
    then obtain b0 p0 where b0: "blm (mi_ifid m0) = Some b0" "sh_get sh k (mi_dev m0) = Inr p0" "params_empty p0" by blast
    obtain k1 r where k1: "sh_apply sh k (mi_dev m0) b0 = (k1, r)" by (cases "sh_apply sh k (mi_dev m0) b0")
    have step: "preshape sh blm k (m0 # ms) = preshape sh blm k1 ms" using b0 k1 by simp
    show ?thesis
    proof (cases "dev = mi_dev m0 \<and> r = None")
      case True
      then have "sh_get sh k1 dev = Inr (obs b0)" using apply_get k1 by simp
      then show ?thesis
        using preshape_get [of blm k1 ms dev] True b0(1) unfolding step by (metis list.set_intros)
    next
      case False
      then have same: "sh_get sh k1 dev = Inr p"
        using apply_other [OF k1] apply_fail [of k "mi_dev m0" b0 k1] k1 Cons.prems(1) by (cases r) auto
      show ?thesis
      proof (cases "m0 = m")
        case True
        with False k1 b0(1) Cons.prems(1,4,5) show ?thesis by auto
      next
        case False
        with Cons.prems have "m \<in> set ms" by auto
        from Cons.IH [OF same Cons.prems(2) this Cons.prems(4,5)] show ?thesis unfolding step by auto
      qed
    qed
  next
    case False
    then have step: "preshape sh blm k (m0 # ms) = preshape sh blm k ms"
      by (auto split: option.split sum.split)
    have "m \<in> set ms" using False Cons.prems by auto
    from Cons.IH [OF Cons.prems(1,2) this Cons.prems(4,5)] show ?thesis unfolding step by auto
  qed
qed simp

lemma preshape_none: "(\<And>i. blm i = None) \<Longrightarrow> preshape sh blm k ms = k"
  by (induction ms) auto

end

text \<open>The profile that a start applies: none, or a file that is the only match and validates.\<close>

lemma profile_of_cases:
  "(\<forall>p. resolve_one glob pattern = Inr p \<longrightarrow> isl (baseline_load (read p))) \<Longrightarrow> profile_of glob read pattern = []"
  "resolve_one glob pattern = Inr p \<Longrightarrow> baseline_load (read p) = Inr bl \<Longrightarrow> profile_of glob read pattern = bl"
  by (auto simp: profile_of_def isl_def split: sum.splits)

lemma profile_valid: "map_of (profile_of glob read pattern) i = Some b \<Longrightarrow> validate b = None"
  using baseline_load_valid by (auto simp: profile_of_def split: sum.splits)

lemma linkd_start_cases:
  assumes "linkd_start sh decode_file load links glob read k = Inr d"
  obtains cfg blm where "linkd_load_config decode_file = Inr cfg" "blm = profile_of glob read (lk_baseline_profile cfg)"
    "ld_server d = linkd_new (ld_managed d) (map_of blm)" "ld_kernel d = preshape sh (map_of blm) k (ld_managed d)"
    "\<And>i b. map_of blm i = Some b \<Longrightarrow> validate b = None"
    "\<And>glob' read'. \<exists>d'. linkd_start sh decode_file load links glob' read' k = Inr d' \<and> ld_managed d' = ld_managed d"
proof -
  obtain cfg ifs where c: "linkd_load_config decode_file = Inr cfg" "load (lk_topology_glob cfg) = Inr ifs"
    using assms by (auto simp: linkd_start_def split: sum.splits)
  with assms have d: "managed_ifaces links ifs \<noteq> []" "ld_managed d = managed_ifaces links ifs"
    by (auto simp: linkd_start_def Let_def split: if_splits)
  have "\<exists>d'. linkd_start sh decode_file load links glob' read' k = Inr d' \<and> ld_managed d' = ld_managed d" for glob' read'
    using c d by (simp add: linkd_start_def Let_def)
  moreover have "ld_server d = linkd_new (ld_managed d) (map_of (profile_of glob read (lk_baseline_profile cfg)))"
    "ld_kernel d = preshape sh (map_of (profile_of glob read (lk_baseline_profile cfg))) k (ld_managed d)"
    using assms c by (auto simp: linkd_start_def Let_def split: if_splits)
  ultimately show thesis using c(1) by (intro that [of cfg "profile_of glob read (lk_baseline_profile cfg)"]) (auto dest: profile_valid)
qed

text \<open>
  C9: Restarting linkd is harmless.  On a kernel that keeps its side, and whatever files the start finds, a
  device that reads as shaped before the start reads the same after it, and any other reads the same or as the
  validated story profile of an interface on it.  A managed device that reads as unshaped and has a profile does get
  one, unless the kernel refuses to set it.  Whatever profile files there are, and whether they can be read, the daemon
  starts with the same interfaces; a profile that is missing, ambiguous, malformed or invalid leaves the kernel alone,
  and otherwise the one file is what the server restores.  From there no sequence of requests changes a device
  outside the managed ones, or leaves one in a shape that was not validated.
\<close>

theorem linkd_restart_keeps:
  assumes "netlink_kernel nl enc" "linkd_start (netlink_shaper nl) decode_file load links glob read k = Inr d"
    and "k' = linkd_run (netlink_shaper nl) (ld_server d) (ld_kernel d) reqs"
  shows "(\<forall>p. netlink_get nl k dev = Inr p \<and> \<not> params_empty p \<longrightarrow> netlink_get nl (ld_kernel d) dev = Inr p) \<and>
    (netlink_get nl (ld_kernel d) dev = netlink_get nl k dev \<or>
     (\<exists>m\<in>set (ld_managed d). \<exists>b. mi_dev m = dev \<and> sv_baseline (ld_server d) (mi_ifid m) = Some b \<and>
        validate b = None \<and> netlink_get nl (ld_kernel d) dev = Inr (netlink_obs nl enc b))) \<and>
    (\<forall>p m b. netlink_get nl k dev = Inr p \<and> params_empty p \<and> m \<in> set (ld_managed d) \<and> mi_dev m = dev \<and>
        sv_baseline (ld_server d) (mi_ifid m) = Some b \<longrightarrow>
      (\<exists>m'\<in>set (ld_managed d). \<exists>b'. mi_dev m' = dev \<and> sv_baseline (ld_server d) (mi_ifid m') = Some b' \<and>
        netlink_get nl (ld_kernel d) dev = Inr (netlink_obs nl enc b')) \<or>
      (\<exists>k1. netlink_get nl k1 dev = Inr p \<and> snd (netlink_apply nl k1 dev b) \<noteq> None)) \<and>
    (\<forall>glob' read'. \<exists>d'. linkd_start (netlink_shaper nl) decode_file load links glob' read' k = Inr d' \<and> ld_managed d' = ld_managed d) \<and>
    (\<exists>cfg. linkd_load_config decode_file = Inr cfg \<and>
      ((\<forall>p. resolve_one glob (lk_baseline_profile cfg) = Inr p \<longrightarrow> isl (baseline_load (read p))) \<longrightarrow> ld_kernel d = k) \<and>
      (\<forall>p bl. resolve_one glob (lk_baseline_profile cfg) = Inr p \<and> baseline_load (read p) = Inr bl \<longrightarrow>
        sv_baseline (ld_server d) = map_of bl)) \<and>
    (dev \<notin> mi_dev ` set (ld_managed d) \<longrightarrow> netlink_get nl k' dev = netlink_get nl k dev) \<and>
    (netlink_get nl k' dev = netlink_get nl k dev \<or> netlink_get nl k' dev = Inr no_params \<or>
     (\<exists>p. validate p = None \<and> netlink_get nl k' dev = Inr (netlink_obs nl enc p)))"
proof -
  note laws = netlink_laws [OF assms(1)]
  obtain cfg blm where cfg: "linkd_load_config decode_file = Inr cfg" "blm = profile_of glob read (lk_baseline_profile cfg)"
    and sv: "ld_server d = linkd_new (ld_managed d) (map_of blm)"
    and kd: "ld_kernel d = preshape (netlink_shaper nl) (map_of blm) k (ld_managed d)"
    and valid: "\<And>i b. map_of blm i = Some b \<Longrightarrow> validate b = None"
    and starts: "\<And>glob' read'. \<exists>d'. linkd_start (netlink_shaper nl) decode_file load links glob' read' k = Inr d' \<and> ld_managed d' = ld_managed d"
    using linkd_start_cases [OF assms(2)] by blast
  have base: "sv_baseline (ld_server d) = map_of blm" by (simp add: sv linkd_new_def)
  note pre = shaper_laws.preshape_get [OF laws, of "map_of blm" k "ld_managed d" dev, folded kd, unfolded netlink_shaper_sel]
  have "shaper_laws.tidy (netlink_shaper nl) (netlink_obs nl enc) (mi_dev ` set (ld_managed d)) (ld_kernel d) k'"
    unfolding assms(3)
  proof (rule shaper_laws.run_tidy [OF laws])
    show "validate b = None" if "sv_baseline (ld_server d) i = Some b" for i b using that base valid by simp
    show "mi_dev m \<in> mi_dev ` set (ld_managed d)" if "sv_ifaces (ld_server d) i = Some m" for i m
      using linkd_new_ifaces [OF that [unfolded sv]] by blast
  qed
  then have run: "dev \<notin> mi_dev ` set (ld_managed d) \<longrightarrow> netlink_get nl k' dev = netlink_get nl (ld_kernel d) dev"
    "netlink_get nl k' dev = netlink_get nl (ld_kernel d) dev \<or> netlink_get nl k' dev = Inr no_params \<or>
     (\<exists>p. validate p = None \<and> netlink_get nl k' dev = Inr (netlink_obs nl enc p))"
    unfolding shaper_laws.tidy_def [OF laws] shaper_laws.clean_def [OF laws] netlink_shaper_sel by blast+
  have restores: "(\<exists>m'\<in>set (ld_managed d). \<exists>b'. mi_dev m' = dev \<and> sv_baseline (ld_server d) (mi_ifid m') = Some b' \<and>
        netlink_get nl (ld_kernel d) dev = Inr (netlink_obs nl enc b')) \<or>
      (\<exists>k1. netlink_get nl k1 dev = Inr p \<and> snd (netlink_apply nl k1 dev b) \<noteq> None)"
    if "netlink_get nl k dev = Inr p \<and> params_empty p \<and> m \<in> set (ld_managed d) \<and> mi_dev m = dev \<and>
        sv_baseline (ld_server d) (mi_ifid m) = Some b" for p m b
    using shaper_laws.preshape_restores [OF laws, of k dev p m "ld_managed d" "map_of blm" b] that
    unfolding netlink_shaper_sel base kd by blast
  have profile: "\<exists>cfg. linkd_load_config decode_file = Inr cfg \<and>
      ((\<forall>p. resolve_one glob (lk_baseline_profile cfg) = Inr p \<longrightarrow> isl (baseline_load (read p))) \<longrightarrow> ld_kernel d = k) \<and>
      (\<forall>p bl. resolve_one glob (lk_baseline_profile cfg) = Inr p \<and> baseline_load (read p) = Inr bl \<longrightarrow>
        sv_baseline (ld_server d) = map_of bl)"
    using cfg(1) profile_of_cases [where glob = glob and pattern = "lk_baseline_profile cfg" and read = read] shaper_laws.preshape_none [OF laws, of "map_of []"]
    unfolding base kd cfg(2) by (intro exI [of _ cfg]) auto
  have start: "(\<forall>p. netlink_get nl k dev = Inr p \<and> \<not> params_empty p \<longrightarrow> netlink_get nl (ld_kernel d) dev = Inr p) \<and>
    (netlink_get nl (ld_kernel d) dev = netlink_get nl k dev \<or>
     (\<exists>m\<in>set (ld_managed d). \<exists>b. mi_dev m = dev \<and> sv_baseline (ld_server d) (mi_ifid m) = Some b \<and>
        validate b = None \<and> netlink_get nl (ld_kernel d) dev = Inr (netlink_obs nl enc b)))"
    using pre valid base by (cases "netlink_get nl (ld_kernel d) dev = netlink_get nl k dev") auto
  have later: "(dev \<notin> mi_dev ` set (ld_managed d) \<longrightarrow> netlink_get nl k' dev = netlink_get nl k dev) \<and>
    (netlink_get nl k' dev = netlink_get nl k dev \<or> netlink_get nl k' dev = Inr no_params \<or>
     (\<exists>p. validate p = None \<and> netlink_get nl k' dev = Inr (netlink_obs nl enc p)))"
    using run start by auto
  show ?thesis
    by (intro conjI; (rule start [THEN conjunct1] start [THEN conjunct2] later [THEN conjunct1] later [THEN conjunct2] profile)?)
      (use restores starts in blast)+
qed

section \<open>A concrete start\<close>

definition ex_ifs :: "linkd_iface list" where
  "ex_ifs = [\<lparr>li_ifid = ''1'', li_neighbor = ''1-151'', li_link_to = ''core'', li_local_ip = IPv4 [10, 0, 0, 1]\<rparr>]"

definition ex_links :: "nl_error + (string \<times> (nl_error + 8 word list list)) list" where
  "ex_links = Inr [(''sci2'', Inr [[10, 0, 0, 2]]), (''sci1'', Inr [[10, 0, 0, 1]])]"

theorem linkd_restart_keeps_witness:
  "\<exists>d. linkd_start (netlink_shaper ex_nl) Inr (\<lambda>_. Inr ex_ifs) ex_links (\<lambda>_. Some [''p'']) (\<lambda>_. Some (Some ex_baseline))
      (Map.empty :: nat \<Rightarrow> qdisc option) = Inr d \<and> netlink_get ex_nl (linkd_run (netlink_shaper ex_nl) (ld_server d) (ld_kernel d) [ReqDel ''1'']) ''sci2'' = Inr no_params"
proof -
  let ?k = "Map.empty :: nat \<Rightarrow> qdisc option"
  have dev: "managed_ifaces ex_links ex_ifs = [\<lparr>mi_iface = hd ex_ifs, mi_dev = ''sci1''\<rparr>]"
    by (simp add: managed_ifaces_def ex_links_def ex_ifs_def dev_by_addr_def owns_def addr_from_slice_def addr_unmap_def
        List.map_filter_def)
  then obtain d where d: "linkd_start (netlink_shaper ex_nl) Inr (\<lambda>_. Inr ex_ifs) ex_links (\<lambda>_. Some [''p''])
      (\<lambda>_. Some (Some ex_baseline)) ?k = Inr d" and m: "ld_managed d = [\<lparr>mi_iface = hd ex_ifs, mi_dev = ''sci1''\<rparr>]"
    by (simp add: linkd_start_def linkd_load_config_def Let_def)
  have "netlink_get ex_nl ?k ''sci2'' = Inr no_params"
    by (simp add: netlink_get_def ref_netlink_def)
  with linkd_restart_keeps [OF ref_kernel.netlink_kernel_axioms d refl, where dev = "''sci2''" and reqs = "[ReqDel ''1'']"] d m
  show ?thesis by auto
qed

end
