(* ===== verification/AtomicFile.thy ===== *)
theory AtomicFile
  imports MetaSync
begin

text \<open>
  \<open>linkd/internal/staticinfo/staticinfo.go\<close>, \<open>WriteAtomic\<close>: the file steps behind the document writers of theory
  MetaSync, where replacing a file is one outcome.  The file system is a map from paths to contents; each system
  call may fail, and a reader (or the next start after a crash) may see the files between any two calls.
\<close>

section \<open>The calls\<close>

text \<open>Whether each call succeeds; a write that fails may have written a part.\<close>

record atomic_env =
  ae_create :: bool
  ae_write :: "nat option"
  ae_chmod :: bool
  ae_close :: bool
  ae_rename :: bool
  ae_remove :: bool

type_synonym files = "string \<rightharpoonup> string"

text \<open>
  The file systems after each call, the one at the return, and whether the error is nil.  \<open>tmp\<close> is the name
  \<open>os.CreateTemp\<close> picks; the deferred \<open>os.Remove\<close> runs at every return after it.
\<close>

definition remove_temp :: "atomic_env \<Rightarrow> string \<Rightarrow> files \<Rightarrow> files" where
  "remove_temp env tmp fs = (if ae_remove env then fs(tmp := None) else fs)"

definition rename_file :: "string \<Rightarrow> string \<Rightarrow> files \<Rightarrow> files" where
  "rename_file a b fs = (fs(b := fs a))(a := None)"

definition write_atomic :: "atomic_env \<Rightarrow> string \<Rightarrow> string \<Rightarrow> string \<Rightarrow> files \<Rightarrow> files list \<times> files \<times> bool" where
  "write_atomic env tmp path doc fs =
     (if \<not> ae_create env then ([], fs, False)
      else let fs1 = fs(tmp \<mapsto> []) in
        case ae_write env of
          Some n \<Rightarrow> let fs2 = fs1(tmp \<mapsto> take n (doc @ [newline])) in ([fs1, fs2], remove_temp env tmp fs2, False)
        | None \<Rightarrow> let fs2 = fs1(tmp \<mapsto> doc @ [newline]) in
            if \<not> ae_chmod env then ([fs1, fs2], remove_temp env tmp fs2, False)
            else if \<not> ae_close env then ([fs1, fs2], remove_temp env tmp fs2, False)
            else if \<not> ae_rename env then ([fs1, fs2], remove_temp env tmp fs2, False)
            else let fs3 = rename_file tmp path fs2 in ([fs1, fs2, fs3], remove_temp env tmp fs3, True))"

section \<open>Properties\<close>

text \<open>What one replacement can leave at the path, at any moment.\<close>

lemma write_atomic_cases:
  assumes "tmp \<noteq> path" "write_atomic env tmp path doc fs = (sts, fs', ok)" "f \<in> insert fs' (set sts)"
  shows "f path \<in> {fs path, Some (doc @ [newline])}" "q \<notin> {tmp, path} \<Longrightarrow> f q = fs q"
    and "fs' path = (if ok then Some (doc @ [newline]) else fs path)"
  using assms by (auto simp: write_atomic_def remove_temp_def rename_file_def Let_def split: if_splits option.splits)

text \<open>
  C21: The advertised metadata is replaced atomically.  Running the writer's file calls for its outcome parameter, whatever
  call fails: between any two calls, and after a crash there, the file at the writer's path is the old document
  or the complete new one, and no other file but the temporary one has changed; at the end the path holds
  what the writer of theory MetaSync says; and after an attempt without a crash the temporary file is gone if it can be removed.
\<close>

theorem write_doc_atomic:
  assumes "tmp \<noteq> path" "fs tmp = None" "write_atomic aenv tmp path doc fs = (sts, fs', ok)"
    and "we_base env = Inr base" "marshal (merged base) = Inr doc" "we_atomic env = (if ok then None else Some e)"
    and "r = write_doc marshal merged env w (fs path)" "\<nexists>x. fs path = Some x \<and> trim_suffix x [newline] = doc"
  shows "wr_out r = fs' path \<and> (\<forall>f\<in>set sts. f path = fs path \<or> f path = Some (doc @ [newline]))
    \<and> (\<forall>f\<in>insert fs' (set sts). \<forall>q. q \<noteq> tmp \<and> q \<noteq> path \<longrightarrow> f q = fs q)
    \<and> (ok \<longrightarrow> fs' path = Some (doc @ [newline])) \<and> (\<not> ok \<longrightarrow> fs' path = fs path \<and> wr_error r = Some e)
    \<and> (ok \<or> ae_remove aenv \<longrightarrow> fs' tmp = None)"
proof -
  note cs = write_atomic_cases [OF assms(1,3)]
  have "(case fs path of None \<Rightarrow> False | Some existing \<Rightarrow> trim_suffix existing [newline] = doc) = False"
    using assms(8) by (auto split: option.splits)
  then have "wr_out r = (if ok then Some (doc @ [newline]) else fs path) \<and> (\<not> ok \<longrightarrow> wr_error r = Some e)"
    using assms(4-7) by (auto simp: write_doc_def Let_def split: option.splits)
  moreover have "ok \<or> ae_remove aenv \<longrightarrow> fs' tmp = None"
    using assms(1-3) by (auto simp: write_atomic_def remove_temp_def rename_file_def Let_def split: if_splits option.splits)
  moreover have "fs' path = (if ok then Some (doc @ [newline]) else fs path)" using cs(3) [of fs'] by simp
  ultimately show ?thesis using cs(1) cs(2) by (auto split: if_splits)
qed

definition good_env :: atomic_env where
  "good_env = \<lparr>ae_create = True, ae_write = None, ae_chmod = True, ae_close = True, ae_rename = True, ae_remove = True\<rparr>"

theorem write_doc_atomic_witness:
  "wr_out (write_doc (\<lambda>_. Inr ''{}'') (\<lambda>b. b) \<lparr>we_base = Inr Map.empty, we_atomic = None, we_signal = None\<rparr> (writer_new '''') (Some ''old''))
     = Some (''{}'' @ [newline])"
proof -
  let ?fs = "[''out'' \<mapsto> ''old'']"
  obtain sts fs' ok where r: "write_atomic good_env ''tmp'' ''out'' ''{}'' ?fs = (sts, fs', ok)" by (metis prod_cases3)
  then have ok: "ok" by (auto simp: write_atomic_def good_env_def Let_def)
  have "trim_suffix ''old'' [newline] \<noteq> ''{}''" by code_simp
  then have "\<nexists>x. ?fs ''out'' = Some x \<and> trim_suffix x [newline] = ''{}''" by simp
  from write_doc_atomic [OF _ _ r _ _ _ refl this, of "\<lparr>we_base = Inr Map.empty, we_atomic = None, we_signal = None\<rparr>" Map.empty "\<lambda>_. Inr ''{}''" "\<lambda>b. b"] ok
  show ?thesis by simp
qed

end
