(* ===== verification/Coalesce.thy ===== *)
theory Coalesce
  imports Prelude
begin

text \<open>
  \<open>Coalesce\<close> of \<open>linkd/internal/staticinfo\<close>: at most one immediate and one trailing run of a function
  per window.  \<open>call\<close> and \<open>fire\<close> are the two critical sections; the runs they start are concurrent,
  so the system is a step relation over calls, timers and the phases of a run, where a run is linkd's
  \<open>regen\<close>: it reads the live shaping first and writes the documents later, under the writer's lock.
\<close>

section \<open>The coalescer\<close>

text \<open>The timer is the time it is due, and \<open>None\<close> in a quiescent period.\<close>

record coalescer =
  co_d :: int
  co_timer :: "int option"
  co_dirty :: bool

definition coalesce :: "int \<Rightarrow> coalescer" where
  "coalesce d = \<lparr>co_d = d, co_timer = None, co_dirty = False\<rparr>"

text \<open>The result says whether the caller runs the function after leaving the critical section.\<close>

definition co_call :: "int \<Rightarrow> coalescer \<Rightarrow> coalescer \<times> bool" where
  "co_call now c = (case co_timer c of
     None \<Rightarrow> (c\<lparr>co_timer := Some (now + co_d c)\<rparr>, True)
   | Some _ \<Rightarrow> (c\<lparr>co_dirty := True\<rparr>, False))"

definition co_fire :: "coalescer \<Rightarrow> coalescer \<times> bool" where
  "co_fire c = (c\<lparr>co_dirty := False, co_timer := None\<rparr>, co_dirty c)"

section \<open>The system\<close>

text \<open>
  \<open>sy_called\<close> counts the calls: it is the version of the live state, since every call follows a change.
  \<open>sy_pending\<close> runs have been decided on and not begun; \<open>sy_reading\<close> holds the version each begun run
  has read.  \<open>sy_seen\<close> is the last version read, \<open>sy_written\<close> the last one written, \<open>sy_starts\<close> the times
  at which runs were decided on, newest first.
\<close>

record system =
  sy_co :: coalescer
  sy_now :: int
  sy_called :: nat
  sy_pending :: nat
  sy_reading :: "nat list"
  sy_seen :: nat
  sy_written :: nat
  sy_starts :: "int list"

definition sys_init :: "int \<Rightarrow> system" where
  "sys_init d = \<lparr>sy_co = coalesce d, sy_now = 0, sy_called = 0, sy_pending = 0, sy_reading = [],
     sy_seen = 0, sy_written = 0, sy_starts = []\<rparr>"

definition start_if :: "bool \<Rightarrow> system \<Rightarrow> system" where
  "start_if run s = (if run then s\<lparr>sy_pending := sy_pending s + 1, sy_starts := sy_now s # sy_starts s\<rparr> else s)"

definition sys_call :: "system \<Rightarrow> system" where
  "sys_call s = (case co_call (sy_now s) (sy_co s) of (c, run) \<Rightarrow>
     start_if run (s\<lparr>sy_co := c, sy_called := sy_called s + 1\<rparr>))"

definition sys_fire :: "system \<Rightarrow> system" where
  "sys_fire s = (case co_fire (sy_co s) of (c, run) \<Rightarrow> start_if run (s\<lparr>sy_co := c\<rparr>))"

definition sys_read :: "system \<Rightarrow> system" where
  "sys_read s = s\<lparr>sy_pending := sy_pending s - 1, sy_reading := sy_called s # sy_reading s, sy_seen := sy_called s\<rparr>"

definition sys_write :: "nat \<Rightarrow> system \<Rightarrow> system" where
  "sys_write v s = s\<lparr>sy_reading := remove1 v (sy_reading s), sy_written := v\<rparr>"

inductive sys_step :: "system \<Rightarrow> system \<Rightarrow> bool" where
  st_tick: "0 \<le> dt \<Longrightarrow> sys_step s (s\<lparr>sy_now := sy_now s + dt\<rparr>)"
| st_call: "sys_step s (sys_call s)"
| st_fire: "co_timer (sy_co s) = Some due \<Longrightarrow> due \<le> sy_now s \<Longrightarrow> sys_step s (sys_fire s)"
| st_read: "0 < sy_pending s \<Longrightarrow> sys_step s (sys_read s)"
| st_write: "v \<in> set (sy_reading s) \<Longrightarrow> sys_step s (sys_write v s)"

inductive_cases sys_stepE: "sys_step s s'"

abbreviation reachable :: "int \<Rightarrow> system \<Rightarrow> bool" where
  "reachable d s \<equiv> sys_step\<^sup>*\<^sup>* (sys_init d) s"

lemmas sys_defs = sys_call_def sys_fire_def sys_read_def sys_write_def start_if_def co_call_def co_fire_def

section \<open>No call is lost\<close>

definition no_lost :: "system \<Rightarrow> bool" where
  "no_lost s \<longleftrightarrow> (co_dirty (sy_co s) \<longrightarrow> co_timer (sy_co s) \<noteq> None) \<and>
     (sy_seen s = sy_called s \<or> co_dirty (sy_co s) \<or> 0 < sy_pending s)"

lemma no_lost_step: "no_lost s \<Longrightarrow> sys_step s s' \<Longrightarrow> no_lost s'"
  by (erule sys_stepE) (auto simp: no_lost_def sys_defs split: option.splits)

lemma no_lost_reachable: "reachable d s \<Longrightarrow> no_lost s"
proof (induction rule: rtranclp_induct)
  case base
  then show ?case by (simp add: no_lost_def sys_init_def coalesce_def)
qed (rule no_lost_step)

text \<open>
  C13: No call is lost, whatever calls, timers and runs interleave: a call that did not start a run
  itself is remembered with a timer that will fire, and once nothing is pending a run has read the live
  state after the last call.
\<close>

theorem coalesce_no_lost_call:
  assumes "reachable d s"
  shows "(co_dirty (sy_co s) \<longrightarrow> co_timer (sy_co s) \<noteq> None) \<and>
    (\<not> co_dirty (sy_co s) \<and> sy_pending s = 0 \<longrightarrow> sy_seen s = sy_called s)"
  using no_lost_reachable [OF assms] by (auto simp: no_lost_def)

section \<open>At most two runs per window\<close>

fun spaced :: "int \<Rightarrow> int list \<Rightarrow> bool" where
  "spaced d (a # b # c # ts) \<longleftrightarrow> d \<le> a - c \<and> spaced d (b # c # ts)"
| "spaced d _ \<longleftrightarrow> True"

definition rate_inv :: "int \<Rightarrow> system \<Rightarrow> bool" where
  "rate_inv d s \<longleftrightarrow> co_d (sy_co s) = d \<and> spaced d (sy_starts s) \<and> sorted_wrt (\<ge>) (sy_now s # sy_starts s) \<and>
     (case co_timer (sy_co s) of
        Some due \<Rightarrow> (\<exists>ts. sy_starts s = (due - d) # ts)
      | None \<Rightarrow> (\<forall>a b ts. sy_starts s = a # b # ts \<longrightarrow> b + d \<le> sy_now s))"

lemma spaced_Cons: "spaced d (a # ts) \<longleftrightarrow> spaced d ts \<and> (\<forall>b c us. ts = b # c # us \<longrightarrow> d \<le> a - c)"
  by (cases ts; cases "tl ts") auto

lemma rate_step:
  assumes "rate_inv d s" "sys_step s s'"
  shows "rate_inv d s'"
  using assms(2)
proof (cases rule: sys_step.cases)
  case (st_tick dt)
  with assms(1) show ?thesis by (auto simp: rate_inv_def split: option.splits)
next
  case st_call
  show ?thesis
  proof (cases "co_timer (sy_co s)")
    case None
    with assms(1) st_call show ?thesis
      by (auto simp: rate_inv_def sys_defs spaced_Cons)
  next
    case (Some due)
    with assms(1) st_call show ?thesis by (auto simp: rate_inv_def sys_defs)
  qed
next
  case (st_fire due)
  then obtain ts where ts: "sy_starts s = (due - d) # ts" using assms(1) by (auto simp: rate_inv_def)
  have le: "\<forall>t \<in> set ts. t \<le> due - d" using assms(1) ts by (auto simp: rate_inv_def)
  show ?thesis
    using assms(1) st_fire ts le
    by (cases ts) (auto simp: rate_inv_def sys_defs spaced_Cons)
next
  case st_read
  with assms(1) show ?thesis by (auto simp: rate_inv_def sys_defs split: option.splits)
next
  case (st_write v)
  with assms(1) show ?thesis by (auto simp: rate_inv_def sys_defs split: option.splits)
qed

lemma rate_reachable: "reachable d s \<Longrightarrow> rate_inv d s"
proof (induction rule: rtranclp_induct)
  case base
  then show ?case by (simp add: rate_inv_def sys_init_def coalesce_def)
qed (rule rate_step)

lemma spaced_nth: "spaced d ts \<Longrightarrow> i + 2 < length ts \<Longrightarrow> d \<le> ts ! i - ts ! (i + 2)"
proof (induction d ts arbitrary: i rule: spaced.induct)
  case (1 d a b c ts)
  then show ?case by (cases i) auto
qed auto

text \<open>
  A burst costs at most two runs per window: among any three runs in a row, the first and the
  last are started at least the window's length apart, so no half-open interval of that length sees
  three starts.
\<close>

theorem coalesce_rate:
  assumes "reachable d s" "i + 2 < length (sy_starts s)"
  shows "d \<le> sy_starts s ! i - sy_starts s ! (i + 2)"
  using rate_reachable [OF assms(1)] assms(2) by (intro spaced_nth) (auto simp: rate_inv_def)

section \<open>Overlapping runs\<close>

text \<open>
  A leading run that has read is overtaken by the trailing run of its window: both write, the older
  one last.
\<close>

definition run_stale :: "int \<Rightarrow> system" where
  "run_stale d = (let s1 = sys_read (sys_call (sys_init d)); s2 = sys_call s1;
     s3 = sys_read (sys_fire (s2\<lparr>sy_now := sy_now s2 + d\<rparr>)) in sys_write 1 (sys_write 2 s3))"

lemmas run_defs = sys_defs sys_init_def coalesce_def run_stale_def Let_def

lemma run_stale_reachable:
  assumes "0 \<le> d"
  shows "reachable d (run_stale d)"
proof -
  let ?s0 = "sys_init d"
  let ?s1 = "sys_call ?s0"
  let ?s2 = "sys_read ?s1"
  let ?s3 = "sys_call ?s2"
  let ?s4 = "?s3\<lparr>sy_now := sy_now ?s3 + d\<rparr>"
  let ?s5 = "sys_fire ?s4"
  let ?s6 = "sys_read ?s5"
  let ?s7 = "sys_write 2 ?s6"
  have "sys_step ?s0 ?s1" by (rule st_call)
  moreover have "sys_step ?s1 ?s2" by (rule st_read) (simp add: run_defs)
  moreover have "sys_step ?s2 ?s3" by (rule st_call)
  moreover have "sys_step ?s3 ?s4" using assms by (rule st_tick)
  moreover have "sys_step ?s4 ?s5" by (rule st_fire [of _ d]) (simp_all add: run_defs)
  moreover have "sys_step ?s5 ?s6" by (rule st_read) (simp add: run_defs)
  moreover have "sys_step ?s6 ?s7" by (rule st_write) (simp add: run_defs)
  moreover have "sys_step ?s7 (run_stale d)" unfolding run_stale_def Let_def by (rule st_write) (simp add: run_defs)
  ultimately show ?thesis
    by (meson converse_rtranclp_into_rtranclp rtranclp.rtrancl_refl)
qed

theorem coalesce_no_lost_call_witness: "sy_seen (run_stale 5) = sy_called (run_stale 5) \<and> sy_called (run_stale 5) = 2"
proof -
  have "\<not> co_dirty (sy_co (run_stale 5))" "sy_pending (run_stale 5) = 0" "sy_called (run_stale 5) = 2"
    by (simp_all add: run_defs)
  then show ?thesis using coalesce_no_lost_call [OF run_stale_reachable, of 5] by simp
qed

theorem coalesce_rate_witness: "5 \<le> sy_starts (sys_call (run_stale 5)) ! 0 - sy_starts (sys_call (run_stale 5)) ! 2"
proof -
  have "reachable 5 (sys_call (run_stale 5))"
    by (rule rtranclp.rtrancl_into_rtrancl [OF run_stale_reachable st_call]) simp
  moreover have "0 + 2 < length (sy_starts (sys_call (run_stale 5)))"
    by (simp add: run_defs)
  ultimately show ?thesis using coalesce_rate [of 5 "sys_call (run_stale 5)" 0] by (simp add: numeral_2_eq_2)
qed

text \<open>
  What is written last need not be what was read last.  Since a run reads the live state before it
  takes the writer's lock, a leading run that is delayed past the window can overwrite the documents of
  the trailing run: a state is reachable with no run in progress, no call remembered and no timer set
  whose documents are older than the last call.
\<close>

theorem stale_overwrite_reachable:
  assumes "0 \<le> d"
  shows "\<exists>s. reachable d s \<and> sy_pending s = 0 \<and> sy_reading s = [] \<and> \<not> co_dirty (sy_co s) \<and>
    co_timer (sy_co s) = None \<and> sy_written s < sy_called s"
proof (intro exI conjI)
  show "reachable d (run_stale d)" using assms by (rule run_stale_reachable)
  show "sy_pending (run_stale d) = 0" "sy_reading (run_stale d) = []" "\<not> co_dirty (sy_co (run_stale d))"
    "co_timer (sy_co (run_stale d)) = None" "sy_written (run_stale d) < sy_called (run_stale d)"
    by (simp_all add: run_defs)
qed

theorem stale_overwrite_reachable_witness:
  "\<exists>s. reachable 1000000000 s \<and> sy_pending s = 0 \<and> sy_written s < sy_called s"
  using stale_overwrite_reachable [of 1000000000] by auto

text \<open>A run that writes before another one reads.\<close>

inductive serial_step :: "system \<Rightarrow> system \<Rightarrow> bool" where
  "sys_step s s' \<Longrightarrow> sy_reading s = [] \<or> length (sy_reading s') \<le> length (sy_reading s) \<Longrightarrow> serial_step s s'"

definition serial_inv :: "system \<Rightarrow> bool" where
  "serial_inv s \<longleftrightarrow> no_lost s \<and> (sy_reading s = [] \<and> sy_written s = sy_seen s \<or> sy_reading s = [sy_seen s])"

lemma serial_inv_step:
  assumes "serial_inv s" "serial_step s s'"
  shows "serial_inv s'"
proof -
  have step: "sys_step s s'" and one: "sy_reading s = [] \<or> length (sy_reading s') \<le> length (sy_reading s)"
    using assms(2) by (auto elim: serial_step.cases)
  have "no_lost s'" using assms(1) step by (auto simp: serial_inv_def intro: no_lost_step)
  moreover have "sy_reading s' = [] \<and> sy_written s' = sy_seen s' \<or> sy_reading s' = [sy_seen s']"
    using step assms(1) one
    by cases (auto simp: serial_inv_def sys_defs split: option.splits)
  ultimately show ?thesis by (simp add: serial_inv_def)
qed

text \<open>
  Runs that do not overlap are safe: if every run writes before another one reads, then whenever
  nothing is in progress and no call is remembered, the documents on disk are those of the last call.
\<close>

theorem serial_runs_converge:
  assumes "serial_step\<^sup>*\<^sup>* (sys_init d) s"
  shows "\<not> co_dirty (sy_co s) \<and> sy_pending s = 0 \<and> sy_reading s = [] \<longrightarrow> sy_written s = sy_called s"
proof -
  from assms have "serial_inv s"
  proof (induction rule: rtranclp_induct)
    case base
    then show ?case by (simp add: serial_inv_def no_lost_def sys_init_def coalesce_def)
  qed (rule serial_inv_step)
  then show ?thesis by (auto simp: serial_inv_def no_lost_def)
qed

theorem serial_runs_converge_witness:
  "sy_written (sys_write 1 (sys_read (sys_call (sys_init 5)))) = 1"
proof -
  let ?s1 = "sys_call (sys_init 5)"
  let ?s2 = "sys_read ?s1"
  let ?s3 = "sys_write 1 ?s2"
  have "serial_step (sys_init 5) ?s1" by (rule serial_step.intros [OF st_call]) (simp add: run_defs)
  moreover have "serial_step ?s1 ?s2" by (rule serial_step.intros [OF st_read]) (simp_all add: run_defs)
  moreover have "serial_step ?s2 ?s3" by (rule serial_step.intros [OF st_write]) (simp_all add: run_defs)
  ultimately have "serial_step\<^sup>*\<^sup>* (sys_init 5) ?s3"
    by (meson converse_rtranclp_into_rtranclp rtranclp.rtrancl_refl)
  from serial_runs_converge [OF this] show ?thesis by (simp add: run_defs)
qed

end
