(* ===== verification/SampleStore.thy ===== *)
theory SampleStore
  imports Prelude Float64
begin

text \<open>
  \<open>dashboard/backend/internal/store\<close>: one fixed-capacity ring of samples per key.  The ring is
  shown to implement "the last \<open>cap\<close> samples put", and the store to implement one such history
  per key (locale \<open>history\<close>, interpreted on the code's model); the rate computation is
  shown never to be negative and to telescope on well-behaved counters.  Every operation runs under
  the store's lock, so each is one atomic function of the state.
\<close>

section \<open>The interface: bounded histories\<close>

text \<open>
  What the readers of a store rely on: putting a value appends it to its key's history, keeps at
  most the capacity's worth of recent values, and leaves the other histories alone.
\<close>

locale history =
  fixes put :: "'s \<Rightarrow> 'k \<Rightarrow> 'v \<Rightarrow> 's"
    and hist :: "'s \<Rightarrow> 'k \<Rightarrow> 'v list"
    and cap :: "'s \<Rightarrow> nat"
    and inv :: "'s \<Rightarrow> bool"
  assumes inv_put: "inv s \<Longrightarrow> inv (put s k v)"
    and cap_put: "inv s \<Longrightarrow> cap (put s k v) = cap s"
    and hist_put: "inv s \<Longrightarrow>
      hist (put s k v) k' = (if k' = k then take_last (cap s) (hist s k @ [v]) else hist s k')"
    and hist_le: "inv s \<Longrightarrow> length (hist s k) \<le> cap s"
begin

definition puts :: "'s \<Rightarrow> ('k \<times> 'v) list \<Rightarrow> 's" where
  "puts s kvs = foldl (\<lambda>s (k, v). put s k v) s kvs"

lemma inv_puts: "inv s \<Longrightarrow> inv (puts s kvs)"
  by (induction kvs arbitrary: s) (auto simp: puts_def inv_put)

lemma hist_puts:
  "inv s \<Longrightarrow> hist (puts s kvs) k = take_last (cap s) (hist s k @ map snd (filter (\<lambda>p. fst p = k) kvs))"
proof (induction kvs arbitrary: s)
  case Nil
  then show ?case by (simp add: puts_def hist_le)
next
  case (Cons p kvs)
  obtain k1 v1 where p: "p = (k1, v1)" by (cases p)
  have "hist (puts s (p # kvs)) k = hist (puts (put s k1 v1) kvs) k"
    by (simp add: puts_def p)
  also have "\<dots> = take_last (cap s) (hist (put s k1 v1) k @ map snd (filter (\<lambda>p. fst p = k) kvs))"
    using Cons by (simp add: inv_put cap_put)
  finally show ?case
    using Cons.prems by (auto simp: p hist_put take_last_append)
qed

end

section \<open>The ring\<close>

record sample =
  s_t :: int
  s_v :: f64

definition zero_sample :: sample where
  "zero_sample = \<lparr>s_t = 0, s_v = 0\<rparr>"

record ring =
  r_buf :: "sample list"
  r_cap :: int
  r_next :: int
  r_count :: int

definition new_ring :: "int \<Rightarrow> ring" where
  "new_ring capacity = (let c = (if capacity \<le> 0 then 1 else capacity) in
     \<lparr>r_buf = replicate (nat c) zero_sample, r_cap = c, r_next = 0, r_count = 0\<rparr>)"

definition ring_put :: "ring \<Rightarrow> int \<Rightarrow> f64 \<Rightarrow> ring" where
  "ring_put r t v = (let r1 = r\<lparr>r_buf := (r_buf r)[nat (r_next r) := \<lparr>s_t = t, s_v = v\<rparr>],
                               r_next := go_rem (r_next r + 1) (r_cap r)\<rparr> in
     if r_count r1 < r_cap r1 then r1\<lparr>r_count := r_count r1 + 1\<rparr> else r1)"

definition ring_last :: "ring \<Rightarrow> sample" where
  "ring_last r = r_buf r ! nat (go_rem (r_next r - 1 + r_cap r) (r_cap r))"

definition ring_lastN :: "ring \<Rightarrow> int \<Rightarrow> sample list" where
  "ring_lastN r n0 = (let n = (if r_count r < n0 then r_count r else n0) in
     if n \<le> 0 then []
     else let start = go_rem (go_rem (r_next r - n) (r_cap r) + r_cap r) (r_cap r) in
       map (\<lambda>i. r_buf r ! nat (go_rem (start + int i) (r_cap r))) [0..<nat n])"

subsection \<open>Invariant and contents\<close>

definition ring_inv :: "ring \<Rightarrow> bool" where
  "ring_inv r \<longleftrightarrow> 0 < r_cap r \<and> length (r_buf r) = nat (r_cap r) \<and>
     0 \<le> r_next r \<and> r_next r < r_cap r \<and> 0 \<le> r_count r \<and> r_count r \<le> r_cap r"

text \<open>The samples held, oldest first: \<open>count\<close> slots ending just before \<open>next\<close>.\<close>

definition contents :: "ring \<Rightarrow> sample list" where
  "contents r = map (\<lambda>i. r_buf r ! nat ((r_next r - r_count r + int i) mod r_cap r)) [0..<nat (r_count r)]"

lemma length_contents [simp]: "length (contents r) = nat (r_count r)"
  by (simp add: contents_def)

lemma contents_nth:
  "i < nat (r_count r) \<Longrightarrow>
     contents r ! i = r_buf r ! nat ((r_next r - r_count r + int i) mod r_cap r)"
  by (simp add: contents_def)

lemma sample_eta [simp]: "\<lparr>s_t = s_t x, s_v = s_v x\<rparr> = x"
  by (cases x) simp

lemma ring_inv_new [simp, inv_intros]: "ring_inv (new_ring c)"
  by (simp add: new_ring_def ring_inv_def Let_def)

lemma contents_new [simp]: "contents (new_ring c) = []"
  by (simp add: new_ring_def contents_def Let_def)

lemma ring_inv_put [simp, inv_intros]: "ring_inv r \<Longrightarrow> ring_inv (ring_put r t v)"
  by (auto simp: ring_put_def ring_inv_def Let_def)

lemma ring_cap_put [simp]: "r_cap (ring_put r t v) = r_cap r"
  by (simp add: ring_put_def Let_def)

lemma mod_shift_neq:
  fixes c :: int
  assumes "0 \<le> n" "n < c" "0 < d" "d < c"
  shows "(n - d) mod c \<noteq> n"
proof
  assume "(n - d) mod c = n"
  then have "(n - d) mod c = n mod c" using assms by simp
  then have "c dvd d" by (simp add: mod_eq_dvd_iff)
  with assms show False by (auto dest: zdvd_imp_le)
qed

text \<open>One put appends to the contents and drops what exceeds the capacity.\<close>

lemma contents_put:
  assumes inv: "ring_inv r"
  shows "contents (ring_put r t v) = take_last (nat (r_cap r)) (contents r @ [\<lparr>s_t = t, s_v = v\<rparr>])"
proof -
  let ?x = "\<lparr>s_t = t, s_v = v\<rparr>" and ?c = "r_cap r" and ?n = "r_next r" and ?k = "r_count r"
  let ?b = "(r_buf r)[nat ?n := ?x]"
  have c: "0 < ?c" "length (r_buf r) = nat ?c" "0 \<le> ?n" "?n < ?c" "0 \<le> ?k" "?k \<le> ?c"
    using inv by (simp_all add: ring_inv_def)
  have upd: "?b ! nat ((?n - d) mod ?c) = r_buf r ! nat ((?n - d) mod ?c)" if "0 < d" "d < ?c" for d
    using mod_shift_neq [OF c(3,4) that] c pos_mod_sign [OF c(1), of "?n - d"]
    by (simp add: nth_list_update nat_eq_iff2 del: pos_mod_sign)
  have top: "?b ! nat (?n mod ?c) = ?x"
    using c by simp
  have wrap: "((?n + 1) mod ?c - j) mod ?c = (?n + 1 - j) mod ?c" for j
    by (simp add: mod_diff_left_eq)
  show ?thesis
  proof (cases "?k < ?c")
    case True
    have "contents (ring_put r t v) = map (\<lambda>i. ?b ! nat ((?n - ?k + int i) mod ?c)) [0..<nat ?k + 1]"
      using True c wrap [of "?k + 1 - _"]
      by (auto simp: contents_def ring_put_def Let_def nat_add_distrib mod_simps algebra_simps)
    also have "\<dots> = contents r @ [?x]"
    proof -
      have "?b ! nat ((?n - ?k + int i) mod ?c) = r_buf r ! nat ((?n - ?k + int i) mod ?c)" if "i < nat ?k" for i
        using upd [of "?k - int i"] that True c by (simp add: algebra_simps)
      then show ?thesis using top c by (simp add: contents_def)
    qed
    finally show ?thesis using True c by simp
  next
    case False
    then have k: "?k = ?c" using c by simp
    have sh: "((?n + 1) mod ?c - ?c + j) mod ?c = (?n + 1 + j) mod ?c" for j
    proof -
      have "((?n + 1) mod ?c - ?c + j) mod ?c = ((?n + 1) mod ?c + j - ?c) mod ?c"
        by (simp add: algebra_simps)
      also have "\<dots> = ((?n + 1) mod ?c + j) mod ?c" by (rule minus_mod_self2)
      also have "\<dots> = (?n + 1 + j) mod ?c" by (rule mod_add_left_eq)
      finally show ?thesis .
    qed
    have eq: "contents (ring_put r t v) = map (\<lambda>i. ?b ! nat ((?n + 1 + int i) mod ?c)) [0..<nat ?c]"
      using k c by (simp add: contents_def ring_put_def Let_def sh)
    have "contents (ring_put r t v) ! i = (tl (contents r) @ [?x]) ! i" if i: "i < nat ?c" for i
    proof (cases "Suc i = nat ?c")
      case True
      then have e: "?n + 1 + int i = ?n + ?c" by linarith
      show ?thesis using True i c k by (simp add: eq nth_append e)
    next
      case F: False
      then have i1: "Suc i < nat ?c" using i by simp
      have e: "(?n + 1 + int i) mod ?c = (?n - (?c - 1 - int i)) mod ?c"
        using minus_mod_self2 [of "?n + 1 + int i" ?c] by (simp add: algebra_simps)
      have "(tl (contents r) @ [?x]) ! i = contents r ! Suc i"
        using i1 k by (simp add: nth_append nth_tl)
      also have "\<dots> = r_buf r ! nat ((?n - (?c - 1 - int i)) mod ?c)"
        using i1 k by (simp add: contents_def algebra_simps)
      also have "\<dots> = ?b ! nat ((?n - (?c - 1 - int i)) mod ?c)"
        using i1 by (intro upd [symmetric]) auto
      finally show ?thesis using i by (simp add: eq e)
    qed
    then have "contents (ring_put r t v) = tl (contents r) @ [?x]"
      using c k by (intro nth_equalityI) (auto simp: eq)
    then show ?thesis using c k
      by (simp add: take_last_def drop_Suc)
  qed
qed

lemma ring_last_contents:
  assumes "ring_inv r" "0 < r_count r"
  shows "ring_last r = last (contents r)"
proof -
  have ne: "contents r \<noteq> []" and k: "nat (r_count r) - 1 < nat (r_count r)"
    using assms(2) by (auto simp: contents_def)
  have "last (contents r) = contents r ! (nat (r_count r) - 1)"
    using ne by (simp add: last_conv_nth)
  also have "\<dots> = r_buf r ! nat ((r_next r - 1) mod r_cap r)"
    using assms(2) k by (simp add: contents_def algebra_simps)
  also have "(r_next r - 1) mod r_cap r = (r_next r - 1 + r_cap r) mod r_cap r"
    by simp
  finally show ?thesis
    using assms by (simp add: ring_last_def ring_inv_def)
qed

lemma ring_lastN_contents:
  assumes "ring_inv r"
  shows "ring_lastN r n = take_last (nat n) (contents r)"
proof -
  let ?m = "if r_count r < n then r_count r else n"
  have inv: "0 < r_cap r" "0 \<le> r_count r" using assms by (simp_all add: ring_inv_def)
  have tl: "take_last (nat n) (contents r) = drop (nat (r_count r) - nat ?m) (contents r)"
    using inv by (auto simp: take_last_def)
  have wrap: "go_rem ((r_next r - ?m) mod r_cap r + int i) (r_cap r) = (r_next r - ?m + int i) mod r_cap r" for i
    using inv by (simp add: mod_add_left_eq)
  show ?thesis
  proof (cases "?m \<le> 0")
    case True
    then show ?thesis using inv by (simp add: ring_lastN_def tl)
  next
    case False
    have "drop (nat (r_count r) - nat ?m) (contents r) ! i = r_buf r ! nat ((r_next r - ?m + int i) mod r_cap r)"
      if "i < nat ?m" for i
    proof -
      let ?j = "nat (r_count r) - nat ?m + i"
      have j: "r_next r - r_count r + int ?j = r_next r - ?m + int i" "?j < nat (r_count r)"
        "nat (r_count r) - nat ?m \<le> nat (r_count r)"
        using that False inv by (auto split: if_splits)
      have "drop (nat (r_count r) - nat ?m) (contents r) ! i = contents r ! ?j"
        using j(3) by (intro nth_drop) simp
      then show ?thesis
        by (simp only: contents_nth [OF j(2)] j(1))
    qed
    then show ?thesis
      using False inv unfolding tl
      by (intro nth_equalityI) (simp_all add: ring_lastN_def Let_def go_rem_wrap wrap del: go_rem_nonneg)
  qed
qed

section \<open>The store\<close>

record store =
  st_cap :: int
  st_data :: "(string, ring) gomap"

definition store_new :: "int \<Rightarrow> store" where
  "store_new capacity = \<lparr>st_cap = (if capacity \<le> 0 then 1 else capacity), st_data = []\<rparr>"

definition store_put :: "store \<Rightarrow> string \<Rightarrow> int \<Rightarrow> f64 \<Rightarrow> store" where
  "store_put s key t v =
     (let r = (case map_of (st_data s) key of None \<Rightarrow> new_ring (st_cap s) | Some r \<Rightarrow> r) in
      s\<lparr>st_data := put_key key (ring_put r t v) (st_data s)\<rparr>)"

definition store_last :: "store \<Rightarrow> string \<Rightarrow> sample option" where
  "store_last s key = (case map_of (st_data s) key of
     None \<Rightarrow> None
   | Some r \<Rightarrow> if r_count r = 0 then None else Some (ring_last r))"

text \<open>A missing key and an empty result are both the empty list here: the callers treat Go's nil
  slice and an empty slice alike.\<close>

definition store_series :: "store \<Rightarrow> string \<Rightarrow> int \<Rightarrow> sample list" where
  "store_series s key since = (case map_of (st_data s) key of
     None \<Rightarrow> []
   | Some r \<Rightarrow> filter (\<lambda>sm. since \<le> s_t sm) (ring_lastN r (r_count r)))"

text \<open>The loop of \<open>Rate\<close> over consecutive samples, with its two accumulators.\<close>

fun rate_sums :: "f64 \<Rightarrow> f64 \<Rightarrow> sample list \<Rightarrow> f64 \<times> f64" where
  "rate_sums sumV sumS (a # b # rest) =
     (let dv = s_v b - s_v a; dtMs = wrap64 (s_t b - s_t a) in
      if 0 < dv \<and> 0 < dtMs
      then rate_sums (sumV + dv) (sumS + f64_of_int dtMs / Fin 1000) (b # rest)
      else rate_sums sumV sumS (b # rest))"
| "rate_sums sumV sumS _ = (sumV, sumS)"

definition samples_rate :: "sample list \<Rightarrow> f64" where
  "samples_rate samples = (case rate_sums 0 0 samples of (sumV, sumS) \<Rightarrow>
     if sumS \<le> 0 then 0
     else (let rate = sumV / sumS in if rate < 0 then 0 else rate))"

definition store_rate :: "store \<Rightarrow> string \<Rightarrow> int \<Rightarrow> f64" where
  "store_rate s key window = (case map_of (st_data s) key of
     None \<Rightarrow> 0
   | Some r \<Rightarrow>
      (let n = (if r_count r < window then r_count r else window) in
       if n < 2 then 0 else samples_rate (ring_lastN r n)))"

definition store_keys :: "store \<Rightarrow> string \<Rightarrow> string list" where
  "store_keys s pre = sort (filter (\<lambda>k. has_prefix k pre) (map fst (st_data s)))"

subsection \<open>The store implements one bounded history per key\<close>

definition store_inv :: "store \<Rightarrow> bool" where
  "store_inv s \<longleftrightarrow> 0 < st_cap s \<and> wf_map (st_data s) \<and>
     (\<forall>k r. map_of (st_data s) k = Some r \<longrightarrow> ring_inv r \<and> r_cap r = st_cap s)"

definition store_hist :: "store \<Rightarrow> string \<Rightarrow> sample list" where
  "store_hist s k = (case map_of (st_data s) k of None \<Rightarrow> [] | Some r \<Rightarrow> contents r)"

lemma store_inv_new [simp, inv_intros]: "store_inv (store_new c)"
  by (simp add: store_inv_def store_new_def)

lemma store_hist_new [simp]: "store_hist (store_new c) k = []"
  by (simp add: store_hist_def store_new_def)

lemma st_cap_new: "st_cap (store_new c) = max 1 c"
  by (simp add: store_new_def)

lemma r_cap_new: "0 < c \<Longrightarrow> r_cap (new_ring c) = c"
  by (simp add: new_ring_def Let_def)

lemma store_inv_put [simp, inv_intros]: "store_inv s \<Longrightarrow> store_inv (store_put s k t v)"
  by (auto simp: store_inv_def store_put_def Let_def r_cap_new split: option.splits)

lemma st_cap_put [simp]: "st_cap (store_put s k t v) = st_cap s"
  by (simp add: store_put_def Let_def)

lemma store_hist_put:
  assumes "store_inv s"
  shows "store_hist (store_put s k t v) k' =
    (if k' = k then take_last (nat (st_cap s)) (store_hist s k @ [\<lparr>s_t = t, s_v = v\<rparr>]) else store_hist s k')"
proof (cases "k' = k")
  case True
  let ?r = "case map_of (st_data s) k of None \<Rightarrow> new_ring (st_cap s) | Some r \<Rightarrow> r"
  have "ring_inv ?r" "r_cap ?r = st_cap s" "contents ?r = store_hist s k"
    using assms by (auto simp: store_inv_def store_hist_def r_cap_new split: option.splits)
  then show ?thesis
    using True contents_put [of ?r t v] by (simp add: store_hist_def store_put_def Let_def)
qed (simp add: store_hist_def store_put_def Let_def)

lemma store_hist_le: "store_inv s \<Longrightarrow> length (store_hist s k) \<le> nat (st_cap s)"
  by (auto simp: store_inv_def store_hist_def ring_inv_def nat_le_iff split: option.splits) (metis order.trans order_refl)

definition put_sample :: "store \<Rightarrow> string \<Rightarrow> sample \<Rightarrow> store" where
  "put_sample s k x = store_put s k (s_t x) (s_v x)"

interpretation ring_store: history put_sample store_hist "\<lambda>s. nat (st_cap s)" store_inv
  by unfold_locales (simp_all add: put_sample_def store_hist_put store_hist_le)

subsection \<open>What the read operations return\<close>

lemma store_series_hist:
  "store_inv s \<Longrightarrow> store_series s k since = filter (\<lambda>x. since \<le> s_t x) (store_hist s k)"
  by (auto simp: store_series_def store_hist_def store_inv_def ring_lastN_contents take_last_def
      split: option.splits)

lemma store_last_hist:
  "store_inv s \<Longrightarrow> store_last s k = (if store_hist s k = [] then None else Some (last (store_hist s k)))"
  using ring_last_contents
  by (fastforce simp: store_last_def store_hist_def store_inv_def ring_inv_def contents_def
      split: option.splits)

lemma store_rate_hist:
  assumes "store_inv s"
  shows "store_rate s k w = samples_rate (take_last (nat w) (store_hist s k))"
proof (cases "map_of (st_data s) k")
  case None
  then show ?thesis
    by (simp add: store_rate_def store_hist_def samples_rate_def take_last_def f64_defs)
next
  case (Some r)
  have inv: "ring_inv r" using assms Some by (auto simp: store_inv_def)
  let ?n = "if r_count r < w then r_count r else w"
  have eq: "take_last (nat ?n) (contents r) = take_last (nat w) (contents r)"
    by (auto simp: take_last_def)
  have short: "samples_rate xs = 0" if "length xs \<le> 1" for xs
    using that by (cases xs) (auto simp: samples_rate_def f64_defs)
  show ?thesis
  proof (cases "?n < 2")
    case True
    then have "length (take_last (nat w) (contents r)) \<le> 1"
      by (auto simp: min_def split: if_splits)
    from short [OF this] show ?thesis using Some True by (simp add: store_rate_def store_hist_def Let_def)
  next
    case False
    then show ?thesis using Some inv eq
      by (simp add: store_rate_def store_hist_def Let_def ring_lastN_contents)
  qed
qed

section \<open>Rates\<close>

lemma f64_div_nonneg:
  assumes "Fin 0 \<le> x" "0 < q"
  shows "Fin 0 \<le> x / Fin q"
  using assms by (cases x) (simp_all add: f64_of_rat_ge_0, simp add: f64_defs)

text \<open>A positive time step contributes between 0 and \<open>2^54\<close> seconds.\<close>

lemma step_seconds:
  assumes "0 < dt" "is_int64 dt"
  shows "\<exists>q. f64_of_int dt / Fin 1000 = Fin q \<and> 0 \<le> q \<and> q \<le> 2 ^ 54"
proof -
  have dt: "0 \<le> (of_int dt :: rat)" "(of_int dt :: rat) \<le> 2 ^ 63"
  proof -
    have "dt \<le> 2 ^ 63" using assms(2) by (simp add: is_int64_def max_int64_def)
    then have "(of_int dt :: rat) \<le> of_int (2 ^ 63)" by (simp only: of_int_le_iff)
    then show "(of_int dt :: rat) \<le> 2 ^ 63" by simp
  qed (use assms(1) in simp)
  have r: "0 \<le> rnd (of_int dt)" "rnd (of_int dt) \<le> 2 ^ 63"
    using dt rnd_mono [of "of_int dt" "2 ^ 63"] rnd_powi [of 63] by (simp_all add: rnd_nonneg power_int_def)
  then have r2: "0 \<le> rnd (of_int dt) / 1000" "rnd (of_int dt) / 1000 \<le> 2 ^ 54"
    by simp_all
  then have r3: "0 \<le> rnd (rnd (of_int dt) / 1000)" "rnd (rnd (of_int dt) / 1000) \<le> 2 ^ 54"
    using rnd_mono [OF r2(2)] rnd_powi [of 54] by (simp_all add: rnd_nonneg power_int_def)
  have "f64_of_int dt = Fin (rnd (of_int dt))"
    unfolding f64_of_int_def using dt by (intro f64_of_rat_small) (simp add: f64_max_def)
  moreover have "f64_of_rat (rnd (of_int dt) / 1000) = Fin (rnd (rnd (of_int dt) / 1000))"
    using r2 by (intro f64_of_rat_small) (simp add: f64_max_def)
  ultimately show ?thesis using r3 by simp
qed

lemma pow2_le_f64_max: "k \<le> 1023 \<Longrightarrow> (2::rat) ^ k \<le> f64_max"
proof -
  assume "k \<le> 1023"
  then have "(2::rat) ^ k \<le> 2 ^ 1023" by (rule power_increasing) simp
  then show ?thesis by (simp add: f64_max_def)
qed

lemma rate_sums_bounds:
  assumes "ss = Fin q" "Fin 0 \<le> sv" "0 \<le> q" "q \<le> 2 ^ (54 + k)" "k + length xs \<le> 900"
  shows "\<exists>v p. rate_sums sv ss xs = (v, Fin p) \<and> Fin 0 \<le> v \<and> 0 \<le> p"
  using assms
proof (induction sv ss xs arbitrary: q k rule: rate_sums.induct)
  case (1 sv ss a b rest)
  let ?dv = "s_v b - s_v a" and ?dt = "wrap64 (s_t b - s_t a)"
  show ?case
  proof (cases "0 < ?dv \<and> 0 < ?dt")
    case True
    obtain d where d: "f64_of_int ?dt / Fin 1000 = Fin d" "0 \<le> d" "d \<le> 2 ^ 54"
      using step_seconds True by (metis is_int64_wrap64)
    have "(2::rat) ^ 54 \<le> 2 ^ (54 + k)" by (rule power_increasing) simp_all
    moreover have "(2::rat) ^ (54 + Suc k) = 2 * 2 ^ (54 + k)"
      by (simp only: power_Suc add_Suc_right)
    ultimately have up: "q + d \<le> 2 ^ (54 + Suc k)" using d "1.prems" by linarith
    have k: "54 + Suc k \<le> 1023" using "1.prems" by simp
    have fin: "Fin q + Fin d = Fin (rnd (q + d))"
      using up d "1.prems" pow2_le_f64_max [OF k] by (simp add: f64_of_rat_small)
    have "rnd (2 ^ (54 + Suc k)) = 2 ^ (54 + Suc k)" by (rule rnd_pow2)
    then have b: "rnd (q + d) \<le> 2 ^ (54 + Suc k)"
      using rnd_mono [OF up] by simp
    have "Fin 0 \<le> sv + ?dv"
      using True "1.prems"(2) by (intro f64_add_nonneg) (cases ?dv; simp add: f64_defs)+
    then show ?thesis
      using "1.IH"(1) [OF refl refl True, of "rnd (q + d)" "Suc k"] True d fin b "1.prems"
      by (simp add: rnd_nonneg Let_def)
  next
    case False
    then show ?thesis
      using "1.IH"(2) [OF refl refl False, of q k] "1.prems" by (auto simp: Let_def)
  qed
qed auto

lemma samples_rate_nonneg:
  assumes "length xs \<le> 900"
  shows "0 \<le> samples_rate xs"
proof -
  obtain v p where vp: "rate_sums 0 0 xs = (v, Fin p)" "Fin 0 \<le> v" "0 \<le> p"
    using rate_sums_bounds [of "Fin 0" 0 "Fin 0" 0 xs] assms by (auto simp: zero_f64_def)
  then show ?thesis
    using f64_div_nonneg [OF vp(2), of p] by (auto simp: samples_rate_def Let_def zero_f64_def)
qed

lemma length_ring_lastN: "length (ring_lastN r n) \<le> nat n"
  by (auto simp: ring_lastN_def Let_def)

lemma store_rate_ge_0: "w \<le> 900 \<Longrightarrow> 0 \<le> store_rate s k w"
proof -
  assume w: "w \<le> 900"
  have "0 \<le> samples_rate (ring_lastN r n)" if "n \<le> w" for r n
    using length_ring_lastN [of r n] that w by (intro samples_rate_nonneg) linarith
  then show ?thesis
    by (auto simp: store_rate_def Let_def zero_f64_def split: option.splits)
qed

text \<open>
  A counter of whole units read at whole seconds: every difference and every partial sum is exact,
  the sums telescope, and the rate is one rounded division.
\<close>

fun counter_samples :: "(int \<times> int) list \<Rightarrow> sample list" where
  "counter_samples tvs = map (\<lambda>(t, v). \<lparr>s_t = 1000 * t, s_v = Fin (of_int v)\<rparr>) tvs"

definition counter_ok :: "(int \<times> int) list \<Rightarrow> bool" where
  "counter_ok tvs \<longleftrightarrow> sorted_wrt (\<lambda>p q. fst p < fst q \<and> snd p < snd q) tvs \<and>
     (\<forall>(t, v) \<in> set tvs. 0 \<le> t \<and> t \<le> 2 ^ 43 \<and> 0 \<le> v \<and> v \<le> 2 ^ 53)"

lemma Fin_int_exact: "\<bar>n\<bar> \<le> 2 ^ 53 \<Longrightarrow> f64_of_rat (of_int n) = Fin (of_int n)"
proof -
  assume n: "\<bar>n\<bar> \<le> 2 ^ 53"
  then have "\<bar>of_int n :: rat\<bar> \<le> of_int (2 ^ 53)" by (simp only: of_int_le_iff flip: of_int_abs)
  then have "\<bar>of_int n :: rat\<bar> \<le> f64_max" by (simp add: f64_max_def)
  then show ?thesis using n by (simp add: f64_of_rat_small rnd_of_int)
qed

lemma rate_sums_counter:
  assumes "counter_ok ((t0, v0) # tvs)" "0 \<le> v" "v + (snd (last ((t0, v0) # tvs)) - v0) \<le> 2 ^ 53"
    "0 \<le> s" "s + (fst (last ((t0, v0) # tvs)) - t0) \<le> 2 ^ 43"
  shows "rate_sums (Fin (of_int v)) (Fin (of_int s)) (counter_samples ((t0, v0) # tvs)) =
    (Fin (of_int (v + (snd (last ((t0, v0) # tvs)) - v0))),
     Fin (of_int (s + (fst (last ((t0, v0) # tvs)) - t0))))"
  using assms
proof (induction tvs arbitrary: t0 v0 v s)
  case (Cons p tvs)
  obtain t1 v1 where p: "p = (t1, v1)" by (cases p)
  let ?l = "last (p # tvs)"
  have ok: "counter_ok ((t1, v1) # tvs)" and lt: "t0 < t1" "v0 < v1"
    and b: "0 \<le> t0" "t1 \<le> 2 ^ 43" "0 \<le> v0" "v1 \<le> 2 ^ 53"
    using Cons.prems(1) by (auto simp: counter_ok_def p)
  have le: "t1 \<le> fst ?l" "v1 \<le> snd ?l"
    using ok by (cases tvs; force simp: counter_ok_def p less_imp_le)+
  have dt: "wrap64 (1000 * t1 - 1000 * t0) = 1000 * (t1 - t0)"
    using b lt by (subst wrap64_id) (auto simp: is_int64_def min_int64_def max_int64_def)
  have "f64_of_rat (of_int v1 - of_int v0) = Fin (of_int (v1 - v0))"
    using Fin_int_exact [of "v1 - v0"] b lt by simp
  moreover have "f64_of_rat (of_int v + of_int (v1 - v0)) = Fin (of_int (v + (v1 - v0)))"
    using Fin_int_exact [of "v + (v1 - v0)"] Cons.prems lt le by (simp add: p)
  moreover have "f64_of_int (1000 * (t1 - t0)) / Fin 1000 = Fin (of_int (t1 - t0))"
    using Fin_int_exact [of "1000 * (t1 - t0)"] Fin_int_exact [of "t1 - t0"] b lt
    by (simp add: f64_of_int_def diff_divide_distrib)
  moreover have "f64_of_rat (of_int s + of_int (t1 - t0)) = Fin (of_int (s + (t1 - t0)))"
    using Fin_int_exact [of "s + (t1 - t0)"] Cons.prems lt le by (simp add: p)
  moreover have "rate_sums (Fin (of_int (v + (v1 - v0)))) (Fin (of_int (s + (t1 - t0))))
      (counter_samples ((t1, v1) # tvs)) =
    (Fin (of_int (v + (v1 - v0) + (snd ?l - v1))), Fin (of_int (s + (t1 - t0) + (fst ?l - t1))))"
    using Cons.IH [OF ok, of "v + (v1 - v0)" "s + (t1 - t0)"] Cons.prems lt by (simp add: p)
  ultimately show ?case
    using lt by (simp add: p dt Let_def zero_f64_def del: of_int_add of_int_diff)
qed simp

lemma samples_rate_counter:
  assumes "counter_ok tvs" "2 \<le> length tvs"
  shows "samples_rate (counter_samples tvs) =
    f64_of_rat (of_int (snd (last tvs) - snd (hd tvs)) / of_int (fst (last tvs) - fst (hd tvs)))"
proof -
  obtain t0 v0 r where tvs: "tvs = (t0, v0) # r" "r \<noteq> []"
    using assms(2) by (cases tvs) (auto simp: Suc_le_eq)
  let ?V = "snd (last tvs) - v0" and ?S = "fst (last tvs) - t0"
  have l: "last tvs \<in> set r" using tvs by simp
  then have pos: "0 < ?V" "0 < ?S" and b: "?V \<le> 2 ^ 53" "?S \<le> 2 ^ 43"
    using assms(1) l unfolding counter_ok_def tvs(1) by fastforce+
  have "rate_sums (Fin 0) (Fin 0) (counter_samples tvs) = (Fin (of_int ?V), Fin (of_int ?S))"
    using rate_sums_counter [of t0 v0 r 0 0] assms(1) b by (simp add: tvs)
  moreover have "0 \<le> of_int ?V / (of_int ?S :: rat)" using pos by simp
  then have "\<not> f64_of_rat (of_int ?V / of_int ?S) < Fin 0"
    using f64_of_rat_ge_0 by (metis f64_less_iff f64_not_less f64_of_rat_not_NaN f64.distinct(5))
  ultimately show ?thesis
    using pos by (simp add: samples_rate_def zero_f64_def Let_def tvs(1) del: of_int_diff)
qed

section \<open>Properties\<close>

definition puts_all :: "store \<Rightarrow> (string \<times> sample) list \<Rightarrow> store" where
  "puts_all s kvs = foldl (\<lambda>s (k, x). store_put s k (s_t x) (s_v x)) s kvs"

lemma puts_all_eq: "puts_all s kvs = ring_store.puts s kvs"
  by (simp add: puts_all_def ring_store.puts_def put_sample_def)

lemma puts_all_hist:
  "store_hist (puts_all (store_new c) kvs) k =
     take_last (nat (max 1 c)) (map snd (filter (\<lambda>p. fst p = k) kvs))"
  by (simp add: puts_all_eq ring_store.hist_puts st_cap_new)

lemma store_inv_puts_all: "store_inv (puts_all (store_new c) kvs)"
  by (simp add: puts_all_eq ring_store.inv_puts)

text \<open>
  C1: The ring-buffer store is a faithful bounded history.  After any sequence of \<open>Put\<close>s into a
  store created with capacity \<open>c\<close>, \<open>Series\<close> returns exactly the samples of the key with
  \<open>T >= since\<close> among its last \<open>max 1 c\<close> puts, oldest first; other keys do not interfere.
\<close>

theorem store_series_recent:
  "store_series (puts_all (store_new c) kvs) k since =
     filter (\<lambda>x. since \<le> s_t x)
       (take_last (nat (max 1 c)) (map snd (filter (\<lambda>p. fst p = k) kvs)))"
  by (simp add: store_series_hist store_inv_puts_all puts_all_hist)

text \<open>
  \<open>Last\<close> returns the sample most recently put under the key, whatever the capacity and
  however often the ring has wrapped, and nothing for a key never put.
\<close>

theorem store_last_recent:
  "store_last (puts_all (store_new c) kvs) k =
     (let xs = map snd (filter (\<lambda>p. fst p = k) kvs) in if xs = [] then None else Some (last xs))"
  by (simp add: store_last_hist store_inv_puts_all puts_all_hist Let_def)

text \<open>
  \<open>Rate\<close> is never negative and never NaN, for any contents of the store whatsoever
  (infinities, NaN, counter resets, time going backwards), as long as the window is at most 900
  samples, so that the elapsed seconds cannot overflow; the program always asks for 5.
\<close>

theorem store_rate_nonneg:
  assumes "window \<le> 900"
  shows "0 \<le> store_rate s key window"
  using assms by (rule store_rate_ge_0)

theorem store_rate_nonneg_witness:
  "(5::int) \<le> 900 \<and> 0 \<le> store_rate (store_put (store_new 3) ''k'' 7 NaN) ''k'' 5"
proof -
  have w: "(5::int) \<le> 900" by simp
  show ?thesis using w store_rate_nonneg [OF w] by blast
qed



end
