(* ===== verification/Derive.thy ===== *)
theory Derive
  imports FabricTopo SampleStore
begin

text \<open>
  \<open>dashboard/backend/internal/derive\<close>: the state machine behind the dashboard.  Link bands from
  RTT against a baseline and from wire loss, three-sample hysteresis, running RTT baselines, the
  BGP badge, and the frame with its KPIs.  \<open>Frame\<close> and the setters run under the deriver's
  lock; the store the readings come from is an argument of \<open>frame\<close>, and so is the wall clock the
  badge reads.
\<close>

section \<open>Data\<close>

record shaping =
  delay_ms :: "f64 option"
  jitter_ms :: "f64 option"
  loss_pct :: "f64 option"
  rate_mbit :: "f64 option"

record bgp_side =
  b_state :: string
  b_since :: int

record bgp_link =
  bgp_a :: "bgp_side option"
  bgp_b :: "bgp_side option"

datatype badge = BgpUnknown | BgpDown | BgpDegraded | BgpUp

datatype band = Nominal | Elevated | Degraded | Critical | Down | Stale

record link_vm =
  v_id :: string
  v_band :: band
  v_rtt_a :: f64
  v_rtt_b :: f64
  v_rate_ab :: f64
  v_rate_ba :: f64
  v_loss :: f64
  v_up :: bool
  v_stale :: bool
  v_shaping :: "shaping option"
  v_bgp :: "badge option"
  v_base_delay :: "f64 option"
  v_base_rate :: "f64 option"

record as_vm =
  av_ia :: string
  av_br :: bool
  av_cs :: bool
  av_sd :: bool
  av_beacons :: f64

record kpi =
  k_up :: int
  k_total :: int
  k_shaped :: int
  k_mbit :: f64
  k_core_rtt :: f64
  k_beacons :: f64

record frame_vm =
  f_t :: int
  f_links :: "link_vm list"
  f_ases :: "as_vm list"
  f_kpi :: kpi

record link_state =
  ls_band :: band
  ls_pend :: "band option"
  ls_n :: int

text \<open>
  Maps to pointers: a missing key and a nil value read alike, so the snapshots are partial functions;
  the whole BGP snapshot is nil until the first poll.
\<close>

record deriver =
  d_g :: graph
  d_state :: "string \<rightharpoonup> link_state"
  d_shaping :: "string \<rightharpoonup> shaping"
  d_base_shaping :: "string \<rightharpoonup> shaping"
  d_bgp :: "(string \<rightharpoonup> bgp_link) option"
  d_base_min :: "(string, f64) gomap"

definition new_state :: link_state where
  "new_state = \<lparr>ls_band = Nominal, ls_pend = None, ls_n = 0\<rparr>"

definition deriver_new :: "graph \<Rightarrow> deriver" where
  "deriver_new g = \<lparr>d_g = g,
     d_state = foldl (\<lambda>m l. m(l_id l \<mapsto> new_state)) Map.empty (g_links g),
     d_shaping = Map.empty, d_base_shaping = Map.empty, d_bgp = None, d_base_min = []\<rparr>"

definition set_shaping :: "(string \<rightharpoonup> shaping) option \<Rightarrow> deriver \<Rightarrow> deriver" where
  "set_shaping m d = d\<lparr>d_shaping := (case m of None \<Rightarrow> Map.empty | Some m \<Rightarrow> m)\<rparr>"

definition set_baseline_shaping :: "(string \<rightharpoonup> shaping) option \<Rightarrow> deriver \<Rightarrow> deriver" where
  "set_baseline_shaping m d = d\<lparr>d_base_shaping := (case m of None \<Rightarrow> Map.empty | Some m \<Rightarrow> m)\<rparr>"

definition set_bgp :: "(string \<rightharpoonup> bgp_link) option \<Rightarrow> deriver \<Rightarrow> deriver" where
  "set_bgp m d = d\<lparr>d_bgp := m\<rparr>"

section \<open>Classification\<close>

definition bgp_flap_window :: int where "bgp_flap_window = 60"

definition recently_bounced :: "bgp_side \<Rightarrow> int \<Rightarrow> bool" where
  "recently_bounced s now \<longleftrightarrow> 0 < b_since s \<and> wrap64 (now - b_since s) < bgp_flap_window"

definition bgp_badge :: "bgp_link option \<Rightarrow> int \<Rightarrow> badge" where
  "bgp_badge b now = (case b of
     None \<Rightarrow> BgpUnknown
   | Some l \<Rightarrow> (case (bgp_a l, bgp_b l) of
       (Some a, Some c) \<Rightarrow>
         if b_state a \<noteq> ''Established'' \<or> b_state c \<noteq> ''Established'' then BgpDown
         else if recently_bounced a now \<or> recently_bounced c now then BgpDegraded else BgpUp
     | _ \<Rightarrow> BgpUnknown))"

fun severity :: "band \<Rightarrow> int" where
  "severity Nominal = 0"
| "severity Elevated = 1"
| "severity Degraded = 2"
| "severity Critical = 3"
| "severity _ = 0"

definition worse :: "band \<Rightarrow> band \<Rightarrow> band" where
  "worse a b = (if severity b \<le> severity a then a else b)"

definition hysteresis :: int where "hysteresis = 3"
definition rate_window :: int where "rate_window = 5"
definition baseline_floor :: f64 where "baseline_floor = f64_of_rat (1/2)"
definition loss_min_mbit :: f64 where "loss_min_mbit = f64_of_rat (1/10)"

definition rtt_band :: "f64 \<Rightarrow> f64 \<Rightarrow> band" where
  "rtt_band rtt baseline = (let added = rtt - baseline;
     ratio = (if Fin 0 < baseline then rtt / baseline else Fin 0) in
     if Fin 150 \<le> added \<or> (Fin 25 \<le> ratio \<and> Fin 60 \<le> added) then Critical
     else if Fin 40 \<le> added \<or> (Fin 8 \<le> ratio \<and> Fin 15 \<le> added) then Degraded
     else if Fin 10 \<le> added \<or> (Fin 3 \<le> ratio \<and> Fin 4 \<le> added) then Elevated
     else Nominal)"

definition loss_band :: "f64 \<Rightarrow> band" where
  "loss_band pct = (if Fin 5 \<le> pct then Critical else if Fin 1 \<le> pct then Degraded else Nominal)"

definition loss_estimate :: "f64 \<Rightarrow> f64 \<Rightarrow> f64" where
  "loss_estimate outMbit inMbit =
     (if outMbit \<le> loss_min_mbit then Fin 0
      else let l = (outMbit - inMbit) / outMbit * Fin 100 in if l < Fin 0 then Fin 0 else l)"

section \<open>Hysteresis\<close>

text \<open>\<open>commit\<close> on one link's state: the switch, then the threshold.\<close>

definition commit_step :: "link_state \<Rightarrow> band \<Rightarrow> link_state" where
  "commit_step ls raw =
     (let ls1 = (if raw = ls_band ls then ls\<lparr>ls_n := 0, ls_pend := None\<rparr>
                 else if ls_pend ls = Some raw then ls\<lparr>ls_n := ls_n ls + 1\<rparr>
                 else ls\<lparr>ls_n := 1, ls_pend := Some raw\<rparr>) in
      if hysteresis \<le> ls_n ls1 then ls1\<lparr>ls_band := raw\<rparr> else ls1)"

definition commit :: "deriver \<Rightarrow> string \<Rightarrow> band \<Rightarrow> deriver \<times> band" where
  "commit d linkID raw =
     (let ls = commit_step (case d_state d linkID of None \<Rightarrow> new_state | Some ls \<Rightarrow> ls) raw in
      (d\<lparr>d_state := (d_state d)(linkID \<mapsto> ls)\<rparr>, ls_band ls))"

section \<open>Reading the store\<close>

definition rtt_key :: "endpoint \<Rightarrow> string" where
  "rtt_key e = itoa (e_as e) @ ''/br/rtt/'' @ e_ifid e"
definition out_key :: "endpoint \<Rightarrow> string" where
  "out_key e = itoa (e_as e) @ ''/br/output_bytes/'' @ e_ifid e"
definition in_key :: "endpoint \<Rightarrow> string" where
  "in_key e = itoa (e_as e) @ ''/br/input_bytes/'' @ e_ifid e"
definition up_key :: "endpoint \<Rightarrow> string" where
  "up_key e = itoa (e_as e) @ ''/br/up/'' @ e_ifid e"
definition service_key :: "int \<Rightarrow> string \<Rightarrow> string" where
  "service_key as svc = itoa as @ ''/'' @ svc @ ''/_up/''"

definition last_val :: "store \<Rightarrow> string \<Rightarrow> f64" where
  "last_val st key = (case store_last st key of Some s \<Rightarrow> s_v s | None \<Rightarrow> Fin 0)"

definition rate_mbit_of :: "store \<Rightarrow> string \<Rightarrow> f64" where
  "rate_mbit_of st key = store_rate st key rate_window * Fin 8 / Fin 1000000"

definition up_zero :: "store \<Rightarrow> string \<Rightarrow> bool" where
  "up_zero st key = (case store_last st key of Some s \<Rightarrow> f64_eq (s_v s) (Fin 0) | None \<Rightarrow> False)"

definition service_up :: "store \<Rightarrow> int \<Rightarrow> string \<Rightarrow> bool" where
  "service_up st as svc = (case store_last st (service_key as svc) of
     Some s \<Rightarrow> \<not> f64_eq (s_v s) (Fin 0) | None \<Rightarrow> False)"

definition beacons_recv :: "store \<Rightarrow> int \<Rightarrow> f64" where
  "beacons_recv st as = foldl (\<lambda>sum k. sum + store_rate st k rate_window) (Fin 0)
     (store_keys st (itoa as @ ''/cs/beacons_recv/''))"

section \<open>Baselines\<close>

text \<open>The minimum over the positive samples of the ring.\<close>

definition ring_min :: "sample list \<Rightarrow> f64" where
  "ring_min ss = foldl (\<lambda>m s. if s_v s \<le> Fin 0 then m else if s_v s < m then s_v s else m) PInf ss"

definition baseline_min :: "deriver \<Rightarrow> store \<Rightarrow> string \<Rightarrow> f64" where
  "baseline_min d st key = (let ringMin = ring_min (store_series st key min_int64) in
     case map_of (d_base_min d) key of
       Some prev \<Rightarrow> if Fin 0 < prev \<and> prev < ringMin then prev else ringMin
     | None \<Rightarrow> ringMin)"

definition baseline :: "deriver \<Rightarrow> store \<Rightarrow> string \<Rightarrow> deriver \<times> f64" where
  "baseline d st key = (let m = baseline_min d st key in
     (if m \<noteq> PInf then d\<lparr>d_base_min := put_key key m (d_base_min d)\<rparr> else d,
      if m = PInf \<or> m < baseline_floor then baseline_floor else m))"

definition baselines :: "deriver \<Rightarrow> (string, f64) gomap" where
  "baselines d = d_base_min d"

fun seed_baselines :: "(string, f64) gomap \<Rightarrow> deriver \<Rightarrow> deriver" where
  "seed_baselines [] d = d"
| "seed_baselines ((k, v) # m) d =
     (if v \<le> Fin 0 then seed_baselines m d
      else (case map_of (d_base_min d) k of
          None \<Rightarrow> seed_baselines m (d\<lparr>d_base_min := put_key k v (d_base_min d)\<rparr>)
        | Some cur \<Rightarrow>
            if v < cur then seed_baselines m (d\<lparr>d_base_min := put_key k v (d_base_min d)\<rparr>)
            else seed_baselines m d))"

section \<open>One link, one frame\<close>

text \<open>The declared baseline, when linkd reports one and twice its delay reaches the floor, replaces
  the observed minima on both sides.\<close>

definition declared_baseline :: "shaping option \<Rightarrow> f64 option" where
  "declared_baseline bl = (case bl of
     None \<Rightarrow> None
   | Some p \<Rightarrow> (case delay_ms p of
       None \<Rightarrow> None
     | Some dl \<Rightarrow> let declared = Fin 2 * dl in if baseline_floor \<le> declared then Some declared else None))"

definition raw_band :: "store \<Rightarrow> link \<Rightarrow> f64 \<Rightarrow> f64 \<Rightarrow> f64 \<Rightarrow> band" where
  "raw_band st l baseA baseB loss =
     (let raw = worse (worse (rtt_band (last_val st (rtt_key (l_a l))) baseA)
                             (rtt_band (last_val st (rtt_key (l_b l))) baseB)) (loss_band loss) in
      if up_zero st (up_key (l_a l)) \<or> up_zero st (up_key (l_b l)) then Down
      else if \<not> service_up st (e_as (l_a l)) ''br'' \<or> \<not> service_up st (e_as (l_b l)) ''br'' then Stale
      else raw)"

definition link_loss :: "store \<Rightarrow> link \<Rightarrow> f64" where
  "link_loss st l = go_max
     (loss_estimate (rate_mbit_of st (out_key (l_a l))) (rate_mbit_of st (in_key (l_b l))))
     (loss_estimate (rate_mbit_of st (out_key (l_b l))) (rate_mbit_of st (in_key (l_a l))))"

definition link_bases :: "deriver \<Rightarrow> store \<Rightarrow> link \<Rightarrow> deriver \<times> f64 \<times> f64" where
  "link_bases d st l =
     (let (d1, obsA) = baseline d st (rtt_key (l_a l));
          (d2, obsB) = baseline d1 st (rtt_key (l_b l)) in
      case declared_baseline (d_base_shaping d2 (l_id l)) of
        Some declared \<Rightarrow> (d2, declared, declared) | None \<Rightarrow> (d2, obsA, obsB))"

definition derive_link :: "deriver \<Rightarrow> store \<Rightarrow> int \<Rightarrow> link \<Rightarrow> deriver \<times> link_vm" where
  "derive_link d st nowUnix l =
     (let (d2, baseA, baseB) = link_bases d st l;
          bl = d_base_shaping d2 (l_id l);
          loss = link_loss st l;
          down = (up_zero st (up_key (l_a l)) \<or> up_zero st (up_key (l_b l)));
          stale = (\<not> service_up st (e_as (l_a l)) ''br'' \<or> \<not> service_up st (e_as (l_b l)) ''br'');
          (d3, bd) = commit d2 (l_id l) (raw_band st l baseA baseB loss)
      in (d3, \<lparr>v_id = l_id l, v_band = bd,
          v_rtt_a = last_val st (rtt_key (l_a l)), v_rtt_b = last_val st (rtt_key (l_b l)),
          v_rate_ab = rate_mbit_of st (out_key (l_a l)), v_rate_ba = rate_mbit_of st (out_key (l_b l)),
          v_loss = loss, v_up = \<not> down, v_stale = stale,
          v_shaping = d_shaping d3 (l_id l),
          v_bgp = map_option (\<lambda>m. bgp_badge (m (l_id l)) nowUnix) (d_bgp d3),
          v_base_delay = Option.bind bl delay_ms, v_base_rate = Option.bind bl rate_mbit\<rparr>))"

fun derive_links :: "deriver \<Rightarrow> store \<Rightarrow> int \<Rightarrow> link list \<Rightarrow> deriver \<times> link_vm list" where
  "derive_links d st now [] = (d, [])"
| "derive_links d st now (l # ls) =
     (let (d1, vm) = derive_link d st now l; (d2, vms) = derive_links d1 st now ls in (d2, vm # vms))"

definition as_vm_of :: "store \<Rightarrow> as_info \<Rightarrow> as_vm" where
  "as_vm_of st a = \<lparr>av_ia = a_ia a, av_br = service_up st (a_num a) ''br'',
     av_cs = service_up st (a_num a) ''cs'', av_sd = service_up st (a_num a) ''sd'',
     av_beacons = beacons_recv st (a_num a)\<rparr>"

definition live :: "link_vm \<Rightarrow> bool" where
  "live vm \<longleftrightarrow> v_up vm \<and> \<not> v_stale vm"

definition kpis :: "graph \<Rightarrow> link_vm list \<Rightarrow> as_vm list \<Rightarrow> kpi" where
  "kpis g vms ases =
     (let core = map snd (filter (\<lambda>(l, vm). l_type l = ''core'' \<and> live vm) (zip (g_links g) vms));
          coreSum = foldl (\<lambda>s vm. s + (v_rtt_a vm + v_rtt_b vm) / Fin 2) (Fin 0) core in
      \<lparr>k_up = int (length (filter live vms)), k_total = int (length (g_links g)),
       k_shaped = int (length (filter (\<lambda>vm. v_shaping vm \<noteq> None) vms)),
       k_mbit = foldl (\<lambda>s vm. s + (v_rate_ab vm + v_rate_ba vm)) (Fin 0) vms,
       k_core_rtt = (if core \<noteq> [] then coreSum / f64_of_int (int (length core)) else Fin 0),
       k_beacons = foldl (\<lambda>s a. s + av_beacons a) (Fin 0) ases\<rparr>)"

definition frame :: "deriver \<Rightarrow> store \<Rightarrow> int \<Rightarrow> int \<Rightarrow> deriver \<times> frame_vm" where
  "frame d st now nowUnix =
     (let (d1, vms) = derive_links d st nowUnix (g_links (d_g d));
          ases = map (as_vm_of st) (g_ases (d_g d)) in
      (d1, \<lparr>f_t = now, f_links = vms, f_ases = ases, f_kpi = kpis (d_g d) vms ases\<rparr>))"

section \<open>The hysteresis against its specification\<close>

text \<open>
  The specification: given the raw bands newest first, the committed band is the most recent one
  that was seen three times in a row, or the initial band if there is none.
\<close>

fun latest_triple :: "band \<Rightarrow> band list \<Rightarrow> band" where
  "latest_triple b0 (x # y # z # r) = (if x = y \<and> y = z then x else latest_triple b0 (y # z # r))"
| "latest_triple b0 _ = b0"

fun run_length :: "band list \<Rightarrow> int" where
  "run_length (x # y # r) = (if x = y then 1 + run_length (y # r) else 1)"
| "run_length [x] = 1"
| "run_length [] = 0"

definition pend_ok :: "link_state \<Rightarrow> band list \<Rightarrow> bool" where
  "pend_ok ls raws \<longleftrightarrow> (case raws of
     [] \<Rightarrow> ls_pend ls = None \<and> ls_n ls = 0
   | x # _ \<Rightarrow> if x = ls_band ls then ls_pend ls = None \<or> ls_pend ls = Some x
            else ls_pend ls = Some x \<and> ls_n ls = run_length raws \<and> ls_n ls < 3)"

lemma run_length_pos: "0 \<le> run_length xs" "xs \<noteq> [] \<Longrightarrow> 1 \<le> run_length xs"
  by (induction xs rule: run_length.induct) auto

lemma latest_triple_Cons:
  "latest_triple b0 (x # raws) = (if 3 \<le> run_length (x # raws) then x else latest_triple b0 raws)"
proof (cases raws)
  case (Cons y r)
  then show ?thesis
    using run_length_pos [of r] by (cases r) auto
qed simp

lemma commit_step_spec:
  assumes "pend_ok ls raws" "ls_band ls = latest_triple b0 raws"
  shows "pend_ok (commit_step ls x) (x # raws) \<and> ls_band (commit_step ls x) = latest_triple b0 (x # raws)"
proof -
  have band: "ls_band (commit_step ls x) = (if 3 \<le> run_length (x # raws) then x else ls_band ls)"
    using assms(1) by (cases raws) (auto simp: commit_step_def pend_ok_def hysteresis_def Let_def split: if_splits)
  moreover have "pend_ok (commit_step ls x) (x # raws)"
    using assms(1) by (cases raws) (auto simp: commit_step_def pend_ok_def hysteresis_def Let_def split: if_splits)
  ultimately show ?thesis
    using assms(2) by (simp add: latest_triple_Cons)
qed

lemma commit_run_spec:
  "pend_ok (foldl commit_step new_state raws) (rev raws) \<and>
   ls_band (foldl commit_step new_state raws) = latest_triple Nominal (rev raws)"
  by (induction raws rule: rev_induct)
    (simp add: pend_ok_def new_state_def, simp add: commit_step_spec)

end
