(* ===== verification/DeriveTrace.thy ===== *)
theory DeriveTrace
  imports Derive
begin

text \<open>
  The deriver over time and its correctness: sequences of the events that reach it (frames on the
  broadcast cadence, snapshots from the linkd poller, seeded baselines), the band each link shows,
  and the bounds of the classification functions.
\<close>

section \<open>Events\<close>

datatype event =
    EvFrame store int int
  | EvShaping "(string \<rightharpoonup> shaping) option"
  | EvBaseline "(string \<rightharpoonup> shaping) option"
  | EvBgp "(string \<rightharpoonup> bgp_link) option"
  | EvSeed "(string, f64) gomap"

fun deriver_step :: "deriver \<Rightarrow> event \<Rightarrow> deriver" where
  "deriver_step d (EvFrame st now nowUnix) = fst (frame d st now nowUnix)"
| "deriver_step d (EvShaping m) = set_shaping m d"
| "deriver_step d (EvBaseline m) = set_baseline_shaping m d"
| "deriver_step d (EvBgp m) = set_bgp m d"
| "deriver_step d (EvSeed m) = seed_baselines m d"

definition deriver_run :: "deriver \<Rightarrow> event list \<Rightarrow> deriver" where
  "deriver_run d es = foldl deriver_step d es"

text \<open>The raw band a frame computes for a link, and those of a whole run, oldest first.\<close>

definition link_raw :: "deriver \<Rightarrow> store \<Rightarrow> link \<Rightarrow> band" where
  "link_raw d st l = (case link_bases d st l of (_, baseA, baseB) \<Rightarrow>
     raw_band st l baseA baseB (link_loss st l))"

fun frame_raw :: "deriver \<Rightarrow> store \<Rightarrow> link list \<Rightarrow> string \<Rightarrow> band option" where
  "frame_raw d st [] i = None"
| "frame_raw d st (l # ls) i =
     (if l_id l = i then Some (link_raw d st l) else frame_raw (fst (derive_link d st 0 l)) st ls i)"

fun raws_of :: "deriver \<Rightarrow> event list \<Rightarrow> string \<Rightarrow> band list" where
  "raws_of d [] i = []"
| "raws_of d (e # es) i =
     (case e of EvFrame st _ _ \<Rightarrow> (case frame_raw d st (g_links (d_g d)) i of
         None \<Rightarrow> raws_of (deriver_step d e) es i
       | Some b \<Rightarrow> b # raws_of (deriver_step d e) es i)
     | _ \<Rightarrow> raws_of (deriver_step d e) es i)"

section \<open>What one link's derivation does to the state\<close>

definition link_state_of :: "deriver \<Rightarrow> string \<Rightarrow> link_state" where
  "link_state_of d i = (case d_state d i of None \<Rightarrow> new_state | Some ls \<Rightarrow> ls)"

lemma baseline_frame [simp]:
  "d_g (fst (baseline d st k)) = d_g d" "d_state (fst (baseline d st k)) = d_state d"
  "d_shaping (fst (baseline d st k)) = d_shaping d"
  "d_base_shaping (fst (baseline d st k)) = d_base_shaping d" "d_bgp (fst (baseline d st k)) = d_bgp d"
  by (simp_all add: baseline_def Let_def)

lemma link_bases_frame [simp]:
  "d_g (fst (link_bases d st l)) = d_g d" "d_state (fst (link_bases d st l)) = d_state d"
  "d_shaping (fst (link_bases d st l)) = d_shaping d"
  "d_base_shaping (fst (link_bases d st l)) = d_base_shaping d"
  "d_bgp (fst (link_bases d st l)) = d_bgp d"
  by (simp_all add: link_bases_def split_def Let_def split: option.splits)

lemma derive_link_state:
  "d_state (fst (derive_link d st n l)) =
     (d_state d)(l_id l \<mapsto> commit_step (link_state_of d (l_id l)) (link_raw d st l))"
  by (simp add: derive_link_def link_raw_def commit_def link_state_of_def split_def Let_def)

lemma derive_link_frame [simp]:
  "d_g (fst (derive_link d st n l)) = d_g d" "d_shaping (fst (derive_link d st n l)) = d_shaping d"
  "d_base_shaping (fst (derive_link d st n l)) = d_base_shaping d"
  "d_bgp (fst (derive_link d st n l)) = d_bgp d"
  by (simp_all add: derive_link_def commit_def split_def Let_def)

lemma derive_link_clock: "fst (derive_link d st n l) = fst (derive_link d st 0 l)"
  by (simp add: derive_link_def split_def Let_def)

lemma derive_link_vm:
  "v_id (snd (derive_link d st n l)) = l_id l"
  "v_band (snd (derive_link d st n l)) = ls_band (commit_step (link_state_of d (l_id l)) (link_raw d st l))"
  by (simp_all add: derive_link_def link_raw_def commit_def link_state_of_def split_def Let_def)

lemma derive_links_d_g [simp]: "d_g (fst (derive_links d st n ls)) = d_g d"
  by (induction ls arbitrary: d) (simp_all add: split_def Let_def)

lemma derive_links_ids [simp]: "map v_id (snd (derive_links d st n ls)) = map l_id ls"
  by (induction ls arbitrary: d) (simp_all add: split_def Let_def derive_link_vm)

lemma derive_links_other:
  "i \<notin> l_id ` set ls \<Longrightarrow> d_state (fst (derive_links d st n ls)) i = d_state d i"
  by (induction ls arbitrary: d) (simp_all add: split_def Let_def derive_link_state)

lemma derive_links_state:
  assumes "distinct (map l_id ls)" "frame_raw d st ls i = Some b"
  shows "d_state (fst (derive_links d st n ls)) i = Some (commit_step (link_state_of d i) b) \<and>
    (\<forall>vm \<in> set (snd (derive_links d st n ls)). v_id vm = i \<longrightarrow>
       v_band vm = ls_band (commit_step (link_state_of d i) b))"
  using assms
proof (induction ls arbitrary: d)
  case (Cons l ls)
  let ?d1 = "fst (derive_link d st n l)"
  show ?case
  proof (cases "l_id l = i")
    case True
    have rest: "v_id vm \<noteq> i" if "vm \<in> set (snd (derive_links ?d1 st n ls))" for vm
    proof -
      have "v_id vm \<in> v_id ` set (snd (derive_links ?d1 st n ls))" using that by (rule imageI)
      also have "\<dots> = set (map l_id ls)" by (simp only: derive_links_ids flip: list.set_map)
      finally show ?thesis using Cons.prems(1) True by auto
    qed
    show ?thesis
      using True Cons.prems rest
      by (auto simp: split_def Let_def derive_links_other derive_link_state derive_link_vm)
  next
    case False
    have "frame_raw ?d1 st ls i = Some b"
      using Cons.prems(2) False by (simp add: derive_link_clock [of d st n])
    from Cons.IH [OF _ this] Cons.prems(1) False show ?thesis
      by (auto simp: split_def Let_def derive_link_state derive_link_vm link_state_of_def)
  qed
qed simp

lemma frame_raw_None: "frame_raw d st ls i = None \<longleftrightarrow> i \<notin> l_id ` set ls"
  by (induction ls arbitrary: d) auto

lemma seed_frame [simp]: "d_g (seed_baselines m d) = d_g d" "d_state (seed_baselines m d) = d_state d"
  by (induction m d rule: seed_baselines.induct) (auto split: option.splits)

lemma deriver_step_d_g [simp]: "d_g (deriver_step d e) = d_g d"
  by (cases e) (simp_all add: frame_def split_def Let_def set_shaping_def set_baseline_shaping_def set_bgp_def)

lemma deriver_run_d_g [simp]: "d_g (deriver_run d es) = d_g d"
  by (induction es arbitrary: d) (simp_all add: deriver_run_def)

lemma setters_state [simp]:
  "d_state (set_shaping m d) = d_state d" "d_state (set_baseline_shaping m d) = d_state d"
  "d_state (set_bgp b d) = d_state d"
  by (simp_all add: set_shaping_def set_baseline_shaping_def set_bgp_def)

lemma frame_state:
  assumes "distinct (map l_id (g_links (d_g d)))" "frame_raw d st (g_links (d_g d)) i = Some b"
  shows "link_state_of (fst (frame d st now nu)) i = commit_step (link_state_of d i) b"
    and "vm \<in> set (f_links (snd (frame d st now nu))) \<Longrightarrow> v_id vm = i \<Longrightarrow>
      v_band vm = ls_band (commit_step (link_state_of d i) b)"
  using derive_links_state [OF assms, of nu]
  by (auto simp: frame_def split_def Let_def link_state_of_def)

lemma frame_state_other:
  assumes "frame_raw d st (g_links (d_g d)) i = None"
  shows "link_state_of (fst (frame d st now nu)) i = link_state_of d i"
  using assms by (simp add: frame_raw_None frame_def split_def Let_def link_state_of_def derive_links_other)

lemma run_state:
  assumes "distinct (map l_id (g_links (d_g d)))"
  shows "link_state_of (deriver_run d es) i = foldl commit_step (link_state_of d i) (raws_of d es i)"
  using assms
proof (induction es arbitrary: d)
  case (Cons e es)
  have IH: "link_state_of (deriver_run (deriver_step d e) es) i =
      foldl commit_step (link_state_of (deriver_step d e) i) (raws_of (deriver_step d e) es i)"
    using Cons by simp
  show ?case
  proof (cases e)
    case (EvFrame st now nu)
    then show ?thesis
      using IH Cons.prems
      by (cases "frame_raw d st (g_links (d_g d)) i")
        (simp_all add: deriver_run_def frame_state frame_state_other)
  qed (use IH in \<open>simp_all add: deriver_run_def link_state_of_def\<close>)
qed (simp add: deriver_run_def)

lemma new_link_state [simp]: "link_state_of (deriver_new g) i = new_state"
proof -
  have fresh: "foldl (\<lambda>m l. m(l_id l \<mapsto> new_state)) m ls i \<in> {None, Some new_state}"
    if "m i \<in> {None, Some new_state}" for m :: "string \<rightharpoonup> link_state" and ls
    using that by (induction ls arbitrary: m) auto
  show ?thesis
    using fresh [of Map.empty "g_links g"] by (auto simp: deriver_new_def link_state_of_def)
qed

lemma deriver_new_g [simp]: "d_g (deriver_new g) = g"
  by (simp add: deriver_new_def)

section \<open>Properties of the bands\<close>

text \<open>
  C2: The three-sample hysteresis of a whole dashboard run.  Whatever frames and poller snapshots
  came before, in whatever order, the band a frame shows for a link is the most recent raw band that
  the frames up to and including this one saw three times in a row, or nominal if there is none: a
  band changes only after three consecutive frames agree, and then it does change.
\<close>

theorem frame_band_hysteresis:
  assumes "distinct (map l_id (g_links g))"
    and "d = deriver_run (deriver_new g) es"
    and "frame_raw d st (g_links g) i = Some b"
    and "vm \<in> set (f_links (snd (frame d st now nu)))" "v_id vm = i"
  shows "v_band vm = latest_triple Nominal (rev (raws_of (deriver_new g) es i @ [b]))"
proof -
  have g: "d_g d = g" using assms(2) by simp
  have "v_band vm = ls_band (commit_step (link_state_of d i) b)"
    using frame_state(2) [of d st i b vm now nu] assms g by simp
  also have "link_state_of d i = foldl commit_step new_state (raws_of (deriver_new g) es i)"
    using run_state [of "deriver_new g" es i] assms(1,2) by simp
  also have "ls_band (commit_step (foldl commit_step new_state (raws_of (deriver_new g) es i)) b) =
      latest_triple Nominal (rev (raws_of (deriver_new g) es i @ [b]))"
    using commit_run_spec [of "raws_of (deriver_new g) es i @ [b]"] by simp
  finally show ?thesis .
qed

subsection \<open>Health overrides\<close>

definition health :: "store \<Rightarrow> link \<Rightarrow> band option" where
  "health st l =
     (if up_zero st (up_key (l_a l)) \<or> up_zero st (up_key (l_b l)) then Some Down
      else if \<not> service_up st (e_as (l_a l)) ''br'' \<or> \<not> service_up st (e_as (l_b l)) ''br'' then Some Stale
      else None)"

lemma link_raw_health: "health st l = Some h \<Longrightarrow> link_raw d st l = h"
  by (auto simp: health_def link_raw_def raw_band_def Let_def split_def split: if_splits)

lemma frame_raw_link:
  "distinct (map l_id ls) \<Longrightarrow> l \<in> set ls \<Longrightarrow> \<exists>d'. frame_raw d st ls (l_id l) = Some (link_raw d' st l)"
proof (induction ls arbitrary: d)
  case (Cons l' ls)
  show ?case
  proof (cases "l = l'")
    case False
    with Cons.prems have "l \<in> set ls" "l_id l' \<noteq> l_id l" by auto
    with Cons show ?thesis by simp
  qed auto
qed simp

lemma raws_of_append: "raws_of d (es @ fs) i = raws_of d es i @ raws_of (deriver_run d es) fs i"
  by (induction es arbitrary: d) (auto simp: deriver_run_def split: event.splits option.splits)

lemma frame_raw_health:
  assumes "distinct (map l_id ls)" "l \<in> set ls" "health st l = Some h"
  shows "frame_raw d st ls (l_id l) = Some h"
  using frame_raw_link [OF assms(1,2), of d st] link_raw_health [OF assms(3)] by auto

text \<open>The stores that a run of events derives frames from.\<close>

fun frames_of :: "event list \<Rightarrow> store list" where
  "frames_of [] = []"
| "frames_of (EvFrame st _ _ # es) = st # frames_of es"
| "frames_of (_ # es) = frames_of es"

lemma raws_of_health:
  assumes "distinct (map l_id (g_links g))" "l \<in> set (g_links g)" "d_g d = g" "\<forall>st\<in>set (frames_of fs). health st l = Some h"
  shows "raws_of d fs (l_id l) = replicate (length (frames_of fs)) h"
  using assms(3,4)
proof (induction fs arbitrary: d rule: frames_of.induct)
  case (2 st n u es)
  have "d_g (fst (frame d st n u)) = g" using 2(2) by (simp add: frame_def split_def Let_def)
  with 2 show ?case by (simp add: frame_raw_health [OF assms(1,2)])
qed (simp_all add: set_shaping_def set_baseline_shaping_def set_bgp_def)

text \<open>
  C14: A link whose interface-up gauge reads zero is shown down, and a link with a dead border router
  is shown stale, from the third consecutive frame that sees it so on and in every frame after that
  while it lasts, whatever its RTT, loss, shaping and history, and whatever snapshots the poller
  delivers and whatever baselines are seeded before, between and after these frames.
\<close>

theorem frame_band_health:
  assumes "distinct (map l_id (g_links g))" "l \<in> set (g_links g)"
    and "\<forall>st'\<in>set (frames_of fs). health st' l = Some h" "2 \<le> length (frames_of fs)" "health st l = Some h"
    and "d = deriver_run (deriver_new g) (es @ fs)"
    and "vm \<in> set (f_links (snd (frame d st now nu)))" "v_id vm = l_id l"
  shows "v_band vm = h"
proof -
  obtain n where n: "length (frames_of fs) = n + 2" using assms(4) by (metis add.commute le_Suc_ex)
  have "d_g (deriver_run (deriver_new g) es) = g" by simp
  from raws_of_health [OF assms(1,2) this assms(3)]
  have "raws_of (deriver_new g) (es @ fs) (l_id l) = (raws_of (deriver_new g) es (l_id l) @ replicate n h) @ [h, h]"
    unfolding raws_of_append n by (simp add: replicate_add [symmetric] replicate_app_Cons_same numeral_2_eq_2)
  moreover have "frame_raw d st (g_links g) (l_id l) = Some h"
    using assms(1,2,5) by (rule frame_raw_health)
  moreover have "ls_band (foldl commit_step new_state (raws @ [h, h, h])) = h" for raws
    using commit_run_spec [of "raws @ [h, h, h]"] by simp
  moreover have "v_band vm = ls_band (commit_step (link_state_of d (l_id l)) h)"
    using frame_state(2) [of d st "l_id l" h vm now nu] assms calculation(2) by simp
  moreover have "link_state_of d (l_id l) =
      foldl commit_step new_state (raws_of (deriver_new g) (es @ fs) (l_id l))"
    using run_state [of "deriver_new g" "es @ fs" "l_id l"] assms(1,6) by simp
  ultimately show ?thesis
    by (metis (no_types, lifting) append.assoc append_Cons append_Nil foldl_Cons foldl_Nil foldl_append)
qed

subsection \<open>The classification functions\<close>

lemma f64_ratio_mono:
  assumes "x \<le> y" "0 < b"
  shows "Fin x / Fin b \<le> Fin y / Fin b"
  using assms by (simp add: f64_of_rat_mono divide_right_mono)

lemma severity_le_3: "severity b \<le> 3"
  by (cases b) auto

lemma rtt_band_le:
  assumes "Fin r1 - Fin b1 \<le> Fin r2 - Fin b2"
    and "(if Fin 0 < Fin b1 then Fin r1 / Fin b1 else Fin 0) \<le> (if Fin 0 < Fin b2 then Fin r2 / Fin b2 else Fin 0)"
  shows "severity (rtt_band (Fin r1) (Fin b1)) \<le> severity (rtt_band (Fin r2) (Fin b2))"
proof -
  have a: "Fin k \<le> Fin r1 - Fin b1 \<Longrightarrow> Fin k \<le> Fin r2 - Fin b2" for k
    using assms(1) by (rule f64_cmp_trans [rotated])
  have r: "Fin k \<le> (if Fin 0 < Fin b1 then Fin r1 / Fin b1 else Fin 0) \<Longrightarrow>
      Fin k \<le> (if Fin 0 < Fin b2 then Fin r2 / Fin b2 else Fin 0)" for k
    using assms(2) by (rule f64_cmp_trans [rotated])
  show ?thesis
    using a r unfolding rtt_band_def Let_def by (smt (verit) severity.simps)
qed

text \<open>
  The RTT classification is monotone despite floating-point rounding: a larger RTT never gets a
  milder band, and for a non-negative RTT a larger positive baseline never gets a worse one.
\<close>

theorem rtt_band_monotone:
  assumes "r1 \<le> r2" "0 < b" "b \<le> b'" "0 \<le> r1"
  shows "severity (rtt_band (Fin r1) (Fin b')) \<le> severity (rtt_band (Fin r2) (Fin b))"
proof (rule rtt_band_le)
  show "Fin r1 - Fin b' \<le> Fin r2 - Fin b"
    using assms by (simp add: f64_of_rat_mono)
  have "r1 / b' \<le> r2 / b" using assms by (intro frac_le) auto
  then show "(if Fin 0 < Fin b' then Fin r1 / Fin b' else Fin 0) \<le>
      (if Fin 0 < Fin b then Fin r2 / Fin b else Fin 0)"
    using assms by (simp add: f64_of_rat_mono)
qed

theorem rtt_band_monotone_witness:
  "severity (rtt_band (Fin 12) (Fin 4)) \<le> severity (rtt_band (Fin 90) (Fin 2))"
  using rtt_band_monotone [of 12 90 2 4] by simp

text \<open>
  The wire-loss estimate is a percentage: for any two rates a counter can yield it lies
  between 0 and 100, also when the receiver counts more than the sender, and at or below the 0.1
  Mbit/s gate it is exactly 0.
\<close>

theorem loss_estimate_percent:
  assumes "is_f64 out" "out \<noteq> PInf" "Fin 0 \<le> out" "Fin 0 \<le> inn"
  shows "Fin 0 \<le> loss_estimate out inn \<and> loss_estimate out inn \<le> Fin 100 \<and>
    (out \<le> loss_min_mbit \<longrightarrow> loss_estimate out inn = Fin 0)"
proof (cases "out \<le> loss_min_mbit")
  case True
  then show ?thesis by (simp add: loss_estimate_def)
next
  case False
  have gate: "loss_min_mbit = Fin (rnd (1/10))" "0 \<le> rnd (1/10)"
    using f64_max_pos by (simp_all add: loss_min_mbit_def f64_of_rat_small f64_max_def rnd_nonneg)
  obtain a where a: "out = Fin a" "0 < a" "rnd a = a" "\<bar>a\<bar> \<le> f64_max"
  proof (cases out)
    case (Fin x)
    then have "rnd (1/10) < x" using False unfolding gate by simp
    then have "0 < x" using gate(2) by linarith
    with Fin assms(1) that show ?thesis by auto
  qed (use assms in auto)
  let ?l = "(out - inn) / out * Fin 100"
  have "\<not> ?l < Fin 0 \<Longrightarrow> Fin 0 \<le> ?l \<and> ?l \<le> Fin 100"
  proof (cases inn)
    case (Fin b)
    have diff: "f64_of_rat (a - b) \<le> Fin a"
      using f64_of_rat_mono [of "a - b" a] assms(4) Fin a by (simp add: f64_of_rat_small)
    assume nn: "\<not> ?l < Fin 0"
    show ?thesis
    proof (cases "f64_of_rat (a - b)")
      case (Fin c)
      have "c / a \<le> 1" using diff Fin a(2) by simp
      then have q: "f64_of_rat (c / a) \<le> Fin 1"
        using f64_of_rat_mono [of "c / a" 1] by (simp add: f64_of_rat_small f64_max_def)
      have l: "?l = f64_of_rat (c / a) * Fin 100"
        using Fin \<open>inn = Fin b\<close> a by simp
      show ?thesis
      proof (cases "f64_of_rat (c / a)")
        case (Fin e)
        have "e * 100 \<le> 100" using q Fin by simp
        then have "?l \<le> Fin 100"
          using f64_of_rat_mono [of "e * 100" 100] l Fin by (simp add: f64_of_rat_small f64_max_def)
        moreover have "?l \<noteq> NaN" using l Fin by simp
        ultimately show ?thesis using nn by (simp add: f64_not_less)
      next
        case NInf
        then have "?l = NInf" using l by (simp add: times_f64_def inf_of_sign_def)
        with nn show ?thesis by simp
      qed (use q in auto)
    next
      case NInf
      then have "?l = NInf"
        using \<open>inn = Fin b\<close> a by (simp add: times_f64_def divide_f64_def inf_of_sign_def)
      with nn show ?thesis by simp
    qed (use diff in auto)
  next
    case PInf
    then have "?l = NInf" using a by (simp add: f64_defs inf_of_sign_def)
    then show "\<not> ?l < Fin 0 \<Longrightarrow> ?thesis" by simp
  qed (use assms(4) in auto)
  then show ?thesis
    using False by (simp add: loss_estimate_def Let_def)
qed

theorem loss_estimate_percent_witness:
  "Fin 0 \<le> loss_estimate (Fin 3) (Fin 2) \<and> loss_estimate (Fin 3) (Fin 2) \<le> Fin 100"
  using loss_estimate_percent [of "Fin 3" "Fin 2"] by (simp add: f64_max_def)

section \<open>RTT baselines over time\<close>

definition min_at_most :: "deriver \<Rightarrow> string \<Rightarrow> f64 \<Rightarrow> bool" where
  "min_at_most d k m \<longleftrightarrow> (\<exists>v. map_of (d_base_min d) k = Some v \<and> Fin 0 < v \<and> v \<le> m)"

lemma f64_le_less_trans: "(x::f64) \<le> y \<Longrightarrow> y < z \<Longrightarrow> x < z"
  by (cases x; cases y; cases z) simp_all

lemma f64_less_imp_le: "(x::f64) < y \<Longrightarrow> x \<le> y"
  by (cases x; cases y) simp_all

lemma f64_le_refl: "x \<noteq> NaN \<Longrightarrow> (x::f64) \<le> x"
  by (cases x) simp_all

lemma f64_pos_not_NaN: "Fin 0 < x \<Longrightarrow> x \<noteq> NaN"
  by auto

lemma ring_min_fold:
  assumes "Fin 0 < m"
  shows "Fin 0 < foldl (\<lambda>m s. if s_v s \<le> Fin 0 then m else if s_v s < m then s_v s else m) m ss \<and>
    foldl (\<lambda>m s. if s_v s \<le> Fin 0 then m else if s_v s < m then s_v s else m) m ss \<le> m \<and>
    (\<forall>s \<in> set ss. Fin 0 < s_v s \<longrightarrow>
       foldl (\<lambda>m s. if s_v s \<le> Fin 0 then m else if s_v s < m then s_v s else m) m ss \<le> s_v s)"
  using assms
proof (induction ss arbitrary: m)
  case Nil
  then show ?case by (simp add: f64_le_refl f64_pos_not_NaN)
next
  case (Cons s ss)
  define m' where "m' = (if s_v s \<le> Fin 0 then m else if s_v s < m then s_v s else m)"
  have pos: "Fin 0 < m'"
    using Cons.prems by (cases "s_v s"; cases m) (auto simp: m'_def)
  have le: "m' \<le> m" and le_s: "Fin 0 < s_v s \<Longrightarrow> m' \<le> s_v s"
    using Cons.prems by (cases "s_v s"; cases m; auto simp: m'_def)+
  from Cons.IH [OF pos] le le_s show ?case
    unfolding foldl_Cons m'_def [symmetric] by (auto intro: f64_cmp_trans)
qed

lemma ring_min_pos: "Fin 0 < ring_min ss"
  and ring_min_le: "s \<in> set ss \<Longrightarrow> Fin 0 < s_v s \<Longrightarrow> ring_min ss \<le> s_v s"
  using ring_min_fold [of PInf ss] by (simp_all add: ring_min_def)

lemma baseline_min_pos: "Fin 0 < baseline_min d st k"
  using ring_min_pos by (auto simp: baseline_min_def Let_def split: option.splits)

lemma baseline_min_le:
  "baseline_min d st k \<le> ring_min (store_series st k min_int64)"
  using ring_min_pos [of "store_series st k min_int64"]
  by (auto simp: baseline_min_def Let_def f64_less_imp_le f64_le_refl f64_pos_not_NaN split: option.splits)

lemma baseline_min_at_most: "min_at_most d k m \<Longrightarrow> baseline_min d st k \<le> m"
  using ring_min_pos [of "store_series st k min_int64"]
  by (auto simp: min_at_most_def baseline_min_def Let_def f64_not_less f64_pos_not_NaN
      intro: f64_cmp_trans split: option.splits)

lemma min_at_most_baseline: "min_at_most d k m \<Longrightarrow> min_at_most (fst (baseline d st k')) k m"
  using baseline_min_at_most [of d k m st] baseline_min_pos [of d st k]
  by (auto simp: baseline_def Let_def min_at_most_def)

lemma min_at_most_link: "min_at_most d k m \<Longrightarrow> min_at_most (fst (derive_link d st n l)) k m"
proof -
  assume a: "min_at_most d k m"
  have "d_base_min (fst (derive_link d st n l)) =
      d_base_min (fst (baseline (fst (baseline d st (rtt_key (l_a l)))) st (rtt_key (l_b l))))"
    by (simp add: derive_link_def commit_def link_bases_def split_def Let_def split: option.splits)
  then show ?thesis
    using min_at_most_baseline [OF min_at_most_baseline [OF a]] by (simp add: min_at_most_def)
qed

lemma min_at_most_links: "min_at_most d k m \<Longrightarrow> min_at_most (fst (derive_links d st n ls)) k m"
  by (induction ls arbitrary: d) (simp_all add: split_def Let_def min_at_most_link)

lemma min_at_most_seed: "min_at_most d k m \<Longrightarrow> min_at_most (seed_baselines s d) k m"
proof (induction s d rule: seed_baselines.induct)
  case (2 k' v s d)
  have put: "min_at_most (d\<lparr>d_base_min := put_key k' v (d_base_min d)\<rparr>) k m"
    if "\<not> v \<le> Fin 0" "k' \<noteq> k \<or> (\<exists>c. map_of (d_base_min d) k' = Some c \<and> v < c)"
  proof (cases "k' = k")
    case True
    with that "2.prems" obtain c where "c \<le> m" "v < c" by (auto simp: min_at_most_def)
    moreover from this have "v \<le> m" "Fin 0 < v"
      using that(1) by (cases v; cases c; cases m; simp)+
    ultimately show ?thesis using True by (simp add: min_at_most_def)
  qed (use "2.prems" in \<open>simp add: min_at_most_def\<close>)
  have dom: "map_of (d_base_min d) k \<noteq> None" using "2.prems" by (auto simp: min_at_most_def)
  show ?case
  proof (cases "v \<le> Fin 0")
    case False
    have ne: "k' \<noteq> k" if "map_of (d_base_min d) k' = None" using that dom by auto
    show ?thesis
      using 2 put ne False by (auto split: option.splits)
  qed (use 2 in simp)
qed simp

lemma min_at_most_step: "min_at_most d k m \<Longrightarrow> min_at_most (deriver_step d e) k m"
  by (cases e)
    (simp_all add: frame_def split_def Let_def min_at_most_links min_at_most_seed,
     simp_all add: min_at_most_def set_shaping_def set_baseline_shaping_def set_bgp_def)

lemma min_at_most_run: "min_at_most d k m \<Longrightarrow> min_at_most (deriver_run d es) k m"
  by (induction es arbitrary: d) (simp_all add: deriver_run_def min_at_most_step)

lemma baseline_value:
  "snd (baseline d st k) = (if baseline_min d st k = PInf \<or> baseline_min d st k < baseline_floor
     then baseline_floor else baseline_min d st k)"
  by (simp add: baseline_def Let_def)

lemma baseline_floor_val: "baseline_floor = Fin (1/2)"
  by code_simp

text \<open>
  C15: The observed RTT baseline of an interface survives the ring's rollover.  It is never below
  the floor of half a millisecond and never above a positive sample still in the ring, and once a
  measurement exists it never rises again: after any later sequence of frames, poller snapshots and
  seeds, whatever the store then holds, it is at most what it was.
\<close>

theorem baseline_never_rises:
  assumes "baseline_min d st k \<noteq> PInf"
  shows "snd (baseline (deriver_run (fst (baseline d st k)) es) st' k) \<le> snd (baseline d st k) \<and>
    baseline_floor \<le> snd (baseline d st k) \<and>
    (\<forall>s \<in> set (store_series st k min_int64). baseline_floor \<le> s_v s \<longrightarrow> snd (baseline d st k) \<le> s_v s)"
proof -
  let ?m = "baseline_min d st k" and ?d = "deriver_run (fst (baseline d st k)) es"
  have pos: "Fin 0 < ?m" by (rule baseline_min_pos)
  have "min_at_most (fst (baseline d st k)) k ?m"
    using assms pos by (simp add: min_at_most_def baseline_def Let_def f64_le_refl f64_pos_not_NaN)
  then have later: "baseline_min ?d st' k \<le> ?m"
    by (intro baseline_min_at_most min_at_most_run)
  have pos': "Fin 0 < baseline_min ?d st' k" by (rule baseline_min_pos)
  have "?m \<le> s_v s" if "s \<in> set (store_series st k min_int64)" "baseline_floor \<le> s_v s" for s
  proof -
    have "Fin 0 < s_v s" using that(2) by (cases "s_v s") (auto simp: baseline_floor_val)
    then show ?thesis using baseline_min_le ring_min_le [OF that(1)] by (blast intro: f64_cmp_trans)
  qed
  moreover have "baseline_floor \<le> snd (baseline d st k)"
    using pos by (cases ?m) (auto simp: baseline_value baseline_floor_val)
  moreover have "snd (baseline ?d st' k) \<le> snd (baseline d st k)"
    using assms later pos pos'
    by (cases ?m; cases "baseline_min ?d st' k") (auto simp: baseline_value baseline_floor_val)
  ultimately show ?thesis
    by (auto simp: baseline_value)
qed

subsection \<open>Concrete runs\<close>

definition ex_end :: "int \<Rightarrow> endpoint" where
  "ex_end n = \<lparr>e_ia = ''1-150'', e_as = n, e_ifid = ''1'', e_ip = ''fd00:fade:1::150'', e_link_to = ''core''\<rparr>"

definition ex_link :: link where
  "ex_link = \<lparr>l_id = ''150-151'', l_type = ''core'', l_subnet = ''link 1'', l_a = ex_end 150, l_b = ex_end 151\<rparr>"

definition ex_graph :: graph where
  "ex_graph = \<lparr>g_ases = [], g_links = [ex_link]\<rparr>"

definition ex_store :: store where
  "ex_store = store_put (store_new 4) (rtt_key (ex_end 150)) 1 (Fin 20)"

lemma ex_health: "health ex_store ex_link = Some Stale"
  by code_simp

lemma ex_raw: "frame_raw d ex_store (g_links ex_graph) ''150-151'' = Some Stale"
  using frame_raw_health [of "g_links ex_graph" ex_link ex_store Stale] ex_health
  by (simp add: ex_graph_def) (simp add: ex_link_def)

lemma ex_frame_vm: "\<exists>vm. vm \<in> set (f_links (snd (frame d ex_store 3 3))) \<and> v_id vm = ''150-151''"
  if "d_g d = ex_graph"
proof -
  have "map v_id (f_links (snd (frame d ex_store 3 3))) = [''150-151'']"
    using that by (simp add: frame_def split_def Let_def ex_graph_def derive_link_vm) (simp add: ex_link_def)
  then have "''150-151'' \<in> v_id ` set (f_links (snd (frame d ex_store 3 3)))"
    by (metis list.set_intros(1) list.set_map)
  then show ?thesis by auto
qed

definition ex_run :: "event list" where
  "ex_run = [EvFrame ex_store 1 1, EvShaping None, EvBaseline None, EvBgp None, EvFrame ex_store 2 2]"

theorem frame_band_hysteresis_witness:
  "\<exists>vm. vm \<in> set (f_links (snd (frame (deriver_run (deriver_new ex_graph) ex_run) ex_store 3 3))) \<and>
     v_band vm = latest_triple Nominal (rev (raws_of (deriver_new ex_graph) ex_run ''150-151'' @ [Stale]))"
proof -
  let ?d = "deriver_run (deriver_new ex_graph) ex_run"
  obtain vm where vm: "vm \<in> set (f_links (snd (frame ?d ex_store 3 3)))" "v_id vm = ''150-151''"
    using ex_frame_vm [of ?d] by auto
  have "distinct (map l_id (g_links ex_graph))" by (simp add: ex_graph_def)
  from frame_band_hysteresis [OF this refl ex_raw vm] vm(1) show ?thesis by blast
qed

theorem frame_band_health_witness:
  "\<exists>vm. vm \<in> set (f_links (snd (frame (deriver_run (deriver_new ex_graph) ex_run) ex_store 3 3))) \<and>
     v_band vm = Stale"
proof -
  let ?d = "deriver_run (deriver_new ex_graph) ex_run"
  obtain vm where vm: "vm \<in> set (f_links (snd (frame ?d ex_store 3 3)))" "v_id vm = ''150-151''"
    using ex_frame_vm [of ?d] by auto
  have g: "distinct (map l_id (g_links ex_graph))" "ex_link \<in> set (g_links ex_graph)"
    by (simp_all add: ex_graph_def)
  have st: "\<forall>st'\<in>set (frames_of ex_run). health st' ex_link = Some Stale"
    using ex_health by (simp add: ex_run_def)
  have n: "2 \<le> length (frames_of ex_run)" by (simp add: ex_run_def)
  have d: "?d = deriver_run (deriver_new ex_graph) ([] @ ex_run)" by simp
  have i: "v_id vm = l_id ex_link" using vm(2) by (simp add: ex_link_def)
  from frame_band_health [OF g st n ex_health d vm(1) i] vm(1)
  show ?thesis by blast
qed

lemma ex_baseline_min: "baseline_min (deriver_new ex_graph) ex_store (rtt_key (ex_end 150)) = Fin 20"
  by code_simp

theorem baseline_never_rises_witness:
  "snd (baseline (deriver_run (fst (baseline (deriver_new ex_graph) ex_store (rtt_key (ex_end 150)))) ex_run)
     (store_new 1) (rtt_key (ex_end 150))) \<le> Fin 20"
proof -
  have "snd (baseline (deriver_new ex_graph) ex_store (rtt_key (ex_end 150))) = Fin 20"
    by (simp add: baseline_value ex_baseline_min baseline_floor_val)
  then show ?thesis
    using baseline_never_rises [of "deriver_new ex_graph" ex_store "rtt_key (ex_end 150)" ex_run "store_new 1"]
    by (simp add: ex_baseline_min)
qed

end
