(* ===== verification/LinkdClient.thy ===== *)
theory LinkdClient
  imports DeriveTrace
begin

text \<open>
  \<open>dashboard/backend/internal/linkdclient\<close>: the dashboard's client of every AS's linkd.  The answer to
  each request and the JSON codec are parameters: \<open>net i\<close> answers the request the \<open>i\<close>-th worker of a
  fan-out (or the \<open>i\<close>-th turn of \<open>Apply\<close>) sends.  Polls are shown to give each link what the right
  linkd says about the right interface, and an apply to contact exactly the interfaces its direction
  names and to report each one's own outcome.
\<close>

section \<open>The client\<close>

definition default_port :: int where "default_port = 30480"

record client_result =
  cr_as :: int
  cr_ok :: bool
  cr_error :: string

record client =
  cl_g :: graph
  cl_base :: "int \<rightharpoonup> string"

definition client_new :: "graph \<Rightarrow> client" where
  "client_new g = \<lparr>cl_g = g, cl_base = foldl (\<lambda>m a.
     m(a_num a \<mapsto> ''http://'' @ (case split_host_port (a_mgmt a) of
         Inl _ \<Rightarrow> join_host_port (a_mgmt a) (itoa default_port) | Inr _ \<Rightarrow> a_mgmt a)))
     Map.empty (g_ases g)\<rparr>"

definition base_url :: "client \<Rightarrow> int \<Rightarrow> string option" where
  "base_url c as = cl_base c as"

definition as_if_key :: "int \<Rightarrow> string \<Rightarrow> string" where
  "as_if_key as ifid = itoa as @ ''/'' @ ifid"

definition http_get :: "string \<Rightarrow> http_request" where
  "http_get url = \<lparr>rq_method = ''GET'', rq_url = url, rq_body = None\<rparr>"

text \<open>The common part of \<open>fetchLinks\<close> and \<open>fetchBGP\<close>: both differ in the path and the decoder only.\<close>

definition fetch_json ::
  "client \<Rightarrow> (string \<Rightarrow> string + 'a) \<Rightarrow> (http_request \<Rightarrow> http_reply) \<Rightarrow> string \<Rightarrow> int \<Rightarrow> string + 'a" where
  "fetch_json c decode net path as = (case base_url c as of
     None \<Rightarrow> Inl (''AS'' @ itoa as @ '': not in graph'')
   | Some base \<Rightarrow> (case net (http_get (base @ path)) of
       Inl err \<Rightarrow> Inl err
     | Inr (status, body) \<Rightarrow>
         if status \<noteq> 200 then Inl (''AS'' @ itoa as @ '': GET '' @ path @ '': status '' @ itoa status)
         else (case decode body of
             Inl err \<Rightarrow> Inl (''AS'' @ itoa as @ '': decode '' @ path @ '': '' @ err)
           | Inr x \<Rightarrow> Inr x)))"

section \<open>Poll\<close>

record link_entry =
  le_ifid :: string
  le_shaping :: "shaping option"
  le_shaped :: bool
  le_baseline :: "shaping option"

definition fetch_links ::
  "client \<Rightarrow> (string \<Rightarrow> string + link_entry list) \<Rightarrow> (http_request \<Rightarrow> http_reply) \<Rightarrow> int \<Rightarrow> string + link_entry list" where
  "fetch_links c decode net as = fetch_json c decode net ''/api/v1/links'' as"

definition a_side_idx :: "graph \<Rightarrow> string \<rightharpoonup> string" where
  "a_side_idx g = foldl (\<lambda>m l. m(as_if_key (e_as (l_a l)) (e_ifid (l_a l)) \<mapsto> l_id l)) Map.empty (g_links g)"

text \<open>A map to pointers: the link may be absent, present with nil, or present with a shape.\<close>

type_synonym shaping_map = "string \<rightharpoonup> shaping option"

definition poll_entry ::
  "(string \<rightharpoonup> string) \<Rightarrow> int \<Rightarrow> shaping_map \<times> shaping_map \<Rightarrow> link_entry \<Rightarrow> shaping_map \<times> shaping_map" where
  "poll_entry idx as ob e = (case idx (as_if_key as (le_ifid e)) of
     None \<Rightarrow> ob
   | Some linkID \<Rightarrow> ((fst ob)(linkID \<mapsto> (if le_shaped e then le_shaping e else None)),
                   (snd ob)(linkID \<mapsto> le_baseline e)))"

definition poll ::
  "client \<Rightarrow> (string \<Rightarrow> string + link_entry list) \<Rightarrow> (nat \<Rightarrow> http_request \<Rightarrow> http_reply) \<Rightarrow> shaping_map \<times> shaping_map" where
  "poll c decode net =
     (let res = map (\<lambda>(i, a). (a_num a, fetch_links c decode (net i) (a_num a))) (enumerate 0 (g_ases (cl_g c))) in
      foldl (\<lambda>ob (as, r). case r of Inl _ \<Rightarrow> ob
        | Inr entries \<Rightarrow> foldl (poll_entry (a_side_idx (cl_g c)) as) ob entries) (Map.empty, Map.empty) res)"

section \<open>PollBGP\<close>

record bgp_session_json =
  bs_ifid :: string
  bs_state :: string
  bs_since :: int

record bgp_route_json =
  br_prefix :: int
  br_ifid :: string

type_synonym bgp_body = "bgp_session_json list \<times> bgp_route_json list"

definition fetch_bgp ::
  "client \<Rightarrow> (string \<Rightarrow> string + bgp_body) \<Rightarrow> (http_request \<Rightarrow> http_reply) \<Rightarrow> int \<Rightarrow> string + bgp_body" where
  "fetch_bgp c decode net as = fetch_json c decode net ''/api/v1/bgp'' as"

definition side_idx :: "graph \<Rightarrow> string \<rightharpoonup> string \<times> bool" where
  "side_idx g = foldl (\<lambda>m l.
     m(as_if_key (e_as (l_a l)) (e_ifid (l_a l)) \<mapsto> (l_id l, True),
       as_if_key (e_as (l_b l)) (e_ifid (l_b l)) \<mapsto> (l_id l, False))) Map.empty (g_links g)"

text \<open>\<open>out[sd.linkID].A = bs\<close> through the pointer in the map; every id of the index is a key of it.\<close>

definition bgp_entry ::
  "(string \<rightharpoonup> string \<times> bool) \<Rightarrow> int \<Rightarrow> (string \<rightharpoonup> bgp_link) \<Rightarrow> bgp_session_json \<Rightarrow> (string \<rightharpoonup> bgp_link)" where
  "bgp_entry idx as out s = (case idx (as_if_key as (bs_ifid s)) of
     None \<Rightarrow> out
   | Some (linkID, isA) \<Rightarrow>
      (let bs = Some \<lparr>b_state = bs_state s, b_since = bs_since s\<rparr> in
       out(linkID := map_option (\<lambda>bl. if isA then bl\<lparr>bgp_a := bs\<rparr> else bl\<lparr>bgp_b := bs\<rparr>) (out linkID))))"

definition route_map :: "bgp_route_json list \<Rightarrow> int \<rightharpoonup> string" where
  "route_map rs = foldl (\<lambda>m rt. m(br_prefix rt \<mapsto> br_ifid rt)) Map.empty rs"

definition poll_bgp ::
  "client \<Rightarrow> (string \<Rightarrow> string + bgp_body) \<Rightarrow> (nat \<Rightarrow> http_request \<Rightarrow> http_reply) \<Rightarrow>
     (string \<rightharpoonup> bgp_link) \<times> (int \<rightharpoonup> (int \<rightharpoonup> string))" where
  "poll_bgp c decode net =
     (let res = map (\<lambda>(i, a). (a_num a, fetch_bgp c decode (net i) (a_num a))) (enumerate 0 (g_ases (cl_g c)));
          out0 = foldl (\<lambda>m l. m(l_id l \<mapsto> \<lparr>bgp_a = None, bgp_b = None\<rparr>)) Map.empty (g_links (cl_g c)) in
      foldl (\<lambda>(out, routes) (as, r). case r of Inl _ \<Rightarrow> (out, routes)
        | Inr (ss, rr) \<Rightarrow> (foldl (bgp_entry (side_idx (cl_g c)) as) out ss, routes(as \<mapsto> route_map rr)))
        (out0, Map.empty) res)"

section \<open>Apply and health\<close>

text \<open>The result of one request, and the request when one was sent.\<close>

definition apply_one ::
  "client \<Rightarrow> (shaping \<Rightarrow> string + string) \<Rightarrow> (http_request \<Rightarrow> http_reply) \<Rightarrow> endpoint \<Rightarrow> shaping \<Rightarrow> bool \<Rightarrow>
     client_result \<times> http_request option" where
  "apply_one c marshal net ep p clear = (case base_url c (e_as ep) of
     None \<Rightarrow> (\<lparr>cr_as = e_as ep, cr_ok = False, cr_error = ''AS not in graph''\<rparr>, None)
   | Some base \<Rightarrow>
      (let url = base @ ''/api/v1/links/'' @ e_ifid ep in
       case (if clear then Inr None else map_sum id Some (marshal p)) of
         Inl err \<Rightarrow> (\<lparr>cr_as = e_as ep, cr_ok = False, cr_error = err\<rparr>, None)
       | Inr body \<Rightarrow>
          (let rq = \<lparr>rq_method = (if clear then ''DELETE'' else ''PUT''), rq_url = url, rq_body = body\<rparr> in
           (case net rq of
              Inl err \<Rightarrow> \<lparr>cr_as = e_as ep, cr_ok = False, cr_error = err\<rparr>
            | Inr (status, text) \<Rightarrow>
                if status < 200 \<or> 300 \<le> status
                then \<lparr>cr_as = e_as ep, cr_ok = False, cr_error = ''status '' @ itoa status @ '': '' @ take 512 text\<rparr>
                else \<lparr>cr_as = e_as ep, cr_ok = True, cr_error = ''''\<rparr>,
            Some rq))))"

definition endpoints_of :: "link \<Rightarrow> string \<Rightarrow> endpoint list" where
  "endpoints_of l direction =
     (if direction = ''a_to_b'' then [l_a l] else if direction = ''b_to_a'' then [l_b l]
      else if direction = ''both'' then [l_a l, l_b l] else [])"

definition client_apply ::
  "client \<Rightarrow> (shaping \<Rightarrow> string + string) \<Rightarrow> (nat \<Rightarrow> http_request \<Rightarrow> http_reply) \<Rightarrow> link \<Rightarrow> string \<Rightarrow> shaping \<Rightarrow> bool \<Rightarrow>
     (client_result \<times> http_request option) list" where
  "client_apply c marshal net l direction p clear =
     map (\<lambda>(i, ep). apply_one c marshal (net i) ep p clear) (enumerate 0 (endpoints_of l direction))"

definition health_one :: "client \<Rightarrow> (http_request \<Rightarrow> http_reply) \<Rightarrow> int \<Rightarrow> bool" where
  "health_one c net as = (case base_url c as of
     None \<Rightarrow> False
   | Some base \<Rightarrow> (case net (http_get (base @ ''/healthz'')) of
       Inl _ \<Rightarrow> False | Inr (status, _) \<Rightarrow> status = 200))"

definition all_health :: "client \<Rightarrow> (nat \<Rightarrow> http_request \<Rightarrow> http_reply) \<Rightarrow> int \<rightharpoonup> bool" where
  "all_health c net = foldl (\<lambda>m (i, a). m(a_num a \<mapsto> health_one c (net i) (a_num a)))
     Map.empty (enumerate 0 (g_ases (cl_g c)))"

section \<open>Joining per-AS answers\<close>

text \<open>
  Graphs whose ASes, link ids and interfaces are pairwise distinct.  A loaded topology need not have
  distinct link ids: two links between the same two ASes share one.
\<close>

definition link_ends :: "link \<Rightarrow> (int \<times> string) list" where
  "link_ends l = [(e_as (l_a l), e_ifid (l_a l)), (e_as (l_b l), e_ifid (l_b l))]"

definition wf_graph :: "graph \<Rightarrow> bool" where
  "wf_graph g \<longleftrightarrow> distinct (map a_num (g_ases g)) \<and> distinct (map l_id (g_links g)) \<and>
     distinct (concat (map link_ends (g_links g)))"

lemma as_if_key_inj [fmt_simps]: "as_if_key a i = as_if_key b j \<longleftrightarrow> a = b \<and> i = j"
  using itoa_sep_inj(1) [of a i b j] by (simp add: as_if_key_def)

definition flat :: "('a \<times> 'e list) list \<Rightarrow> ('a \<times> 'e) list" where
  "flat per = concat (map (\<lambda>(a, es). map (Pair a) es) per)"

lemma flat_simps [simp]: "flat [] = []" "flat ((a, es) # ls) = map (Pair a) es @ flat ls"
  by (simp_all add: flat_def)

lemma filter_flat:
  assumes "distinct (map fst per)"
  shows "filter (\<lambda>x. fst x = a \<and> P (snd x)) (flat per) =
    map (Pair a) (filter P (case map_of per a of None \<Rightarrow> [] | Some es \<Rightarrow> es))"
  using assms
proof (induction per)
  case (Cons l per)
  obtain b es where l: "l = (b, es)" by (cases l)
  have "filter (\<lambda>x. fst x = a \<and> P (snd x)) (map (Pair b) es) = (if b = a then map (Pair a) (filter P es) else [])"
    by (auto simp: filter_map o_def)
  moreover have "map_of per a = None" if "b = a"
    using that Cons.prems l by (simp add: map_of_eq_None_iff)
  ultimately show ?case using Cons l by auto
qed simp

lemma last_with_flat:
  assumes "distinct (map fst per)" "\<And>b e. f (b, e) = Some k \<longleftrightarrow> b = a \<and> h e = Some k'"
  shows "last_with f k (flat per) =
    map_option (Pair a) (last_with h k' (case map_of per a of None \<Rightarrow> [] | Some es \<Rightarrow> es))"
proof -
  have "filter (\<lambda>x. f x = Some k) (flat per) = filter (\<lambda>x. fst x = a \<and> h (snd x) = Some k') (flat per)"
    using assms(2) by (intro filter_cong) (auto simp: split_paired_all)
  then show ?thesis
    by (simp add: last_with_def Let_def filter_flat [OF assms(1), of a "\<lambda>e. h e = Some k'"] last_map)
qed

text \<open>The answers of a fan-out over the graph's ASes, by AS number.\<close>

lemma fan_out_fst: "map fst (map (\<lambda>(i, a). (a_num a, r i a)) (enumerate n as)) = map a_num as"
  by (induction as arbitrary: n) simp_all

lemma fan_out_get:
  assumes "distinct (map a_num as)" "i < length as"
  shows "map_of (map (\<lambda>(i, a). (a_num a, r i a)) (enumerate 0 as)) (a_num (as ! i)) = Some (r i (as ! i))"
proof (rule map_of_is_SomeI)
  show "distinct (map fst (map (\<lambda>(i, a). (a_num a, r i a)) (enumerate 0 as)))"
    using assms(1) by (simp only: fan_out_fst)
  have "(i, as ! i) \<in> set (enumerate 0 as)" using assms(2) by (simp add: in_set_enumerate_eq)
  then show "(a_num (as ! i), r i (as ! i)) \<in> set (map (\<lambda>(i, a). (a_num a, r i a)) (enumerate 0 as))"
    by force
qed

text \<open>The indices from interfaces to links.\<close>

lemma a_side_idx_fill:
  "a_side_idx g = fill_map (\<lambda>l. Some (as_if_key (e_as (l_a l)) (e_ifid (l_a l)))) l_id Map.empty (g_links g)"
  by (simp add: a_side_idx_def fill_map_def)

lemma wf_graph_ends:
  assumes "wf_graph g" "l \<in> set (g_links g)" "l' \<in> set (g_links g)" "x \<in> set (link_ends l)" "x \<in> set (link_ends l')"
  shows "l = l'"
proof -
  have "\<forall>ls. distinct (concat (map link_ends ls)) \<longrightarrow> l \<in> set ls \<longrightarrow> l' \<in> set ls \<longrightarrow> l = l'"
  proof
    fix ls show "distinct (concat (map link_ends ls)) \<longrightarrow> l \<in> set ls \<longrightarrow> l' \<in> set ls \<longrightarrow> l = l'"
      using assms(4,5) by (induction ls) auto
  qed
  then show ?thesis using assms(1-3) unfolding wf_graph_def by blast
qed

lemma wf_graph_id: "wf_graph g \<Longrightarrow> l \<in> set (g_links g) \<Longrightarrow> l' \<in> set (g_links g) \<Longrightarrow> l_id l = l_id l' \<Longrightarrow> l = l'"
  by (auto simp: wf_graph_def distinct_map dest: inj_onD)

lemma a_side_idx_iff:
  assumes "wf_graph g" "l \<in> set (g_links g)"
  shows "a_side_idx g (as_if_key a i) = Some (l_id l) \<longleftrightarrow> a = e_as (l_a l) \<and> i = e_ifid (l_a l)"
proof
  assume "a_side_idx g (as_if_key a i) = Some (l_id l)"
  then obtain l' where l': "last_with (\<lambda>l. Some (as_if_key (e_as (l_a l)) (e_ifid (l_a l)))) (as_if_key a i) (g_links g) = Some l'"
    "l_id l' = l_id l"
    by (auto simp: a_side_idx_fill fill_map_last split: option.splits)
  from last_with_Some [OF this(1)] show "a = e_as (l_a l) \<and> i = e_ifid (l_a l)"
    using wf_graph_id [OF assms(1) _ assms(2) l'(2)] by (auto simp: as_if_key_inj)
next
  assume ai: "a = e_as (l_a l) \<and> i = e_ifid (l_a l)"
  have inj: "inj_on (\<lambda>l. Some (as_if_key (e_as (l_a l)) (e_ifid (l_a l)))) (set (g_links g))"
    using wf_graph_ends [OF assms(1)] by (fastforce simp: inj_on_def as_if_key_inj link_ends_def)
  show "a_side_idx g (as_if_key a i) = Some (l_id l)"
    unfolding a_side_idx_fill using ai by (intro fill_map_unique [OF inj assms(2)]) simp
qed

section \<open>What a poll returns\<close>

text \<open>The list entries of the ASes that answered, each with its AS.\<close>

definition oks :: "('e + 'a list) \<Rightarrow> 'a list" where
  "oks r = (case r of Inl _ \<Rightarrow> [] | Inr es \<Rightarrow> es)"

lemma poll_fill:
  assumes "res = map (\<lambda>(i, a). (a_num a, fetch_links c decode (net i) (a_num a))) (enumerate 0 (g_ases (cl_g c)))"
    and "idx = a_side_idx (cl_g c)" "xs = flat (map (\<lambda>(as, r). (as, oks r)) res)"
  shows "poll c decode net =
    (fill_map (\<lambda>(as, e). idx (as_if_key as (le_ifid e))) (\<lambda>(as, e). if le_shaped e then le_shaping e else None) Map.empty xs,
     fill_map (\<lambda>(as, e). idx (as_if_key as (le_ifid e))) (\<lambda>(as, e). le_baseline e) Map.empty xs)"
proof -
  let ?f = "\<lambda>(as, e). idx (as_if_key as (le_ifid e))"
  let ?g = "\<lambda>(as, e). if le_shaped e then le_shaping e else None"
  let ?h = "\<lambda>(as, e). le_baseline e"
  have one: "foldl (poll_entry idx as) (m, n) es = (fill_map ?f ?g m (map (Pair as) es), fill_map ?f ?h n (map (Pair as) es))"
    for as m n es
    by (induction es arbitrary: m n) (auto simp: poll_entry_def fill_map_def split: option.splits)
  have app: "fill_map f g m (ys @ zs) = fill_map f g (fill_map f g m ys) zs" for f g m ys zs
    by (simp add: fill_map_def)
  have all: "foldl (\<lambda>ob (as, r). case r of Inl _ \<Rightarrow> ob | Inr es \<Rightarrow> foldl (poll_entry idx as) ob es) (m, n) rs =
      (fill_map ?f ?g m (flat (map (\<lambda>(as, r). (as, oks r)) rs)), fill_map ?f ?h n (flat (map (\<lambda>(as, r). (as, oks r)) rs)))"
    for m n rs
    by (induction rs arbitrary: m n) (auto simp: one app oks_def fill_map_def [of _ _ _ "[]"] split: sum.splits)
  show ?thesis
    unfolding poll_def Let_def assms(3) assms(1) [symmetric] assms(2) [symmetric] by (rule all)
qed

lemma fan_out_oks:
  assumes "distinct (map a_num as)" "i < length as" "a_num (as ! i) = n"
  shows "map_of (map (\<lambda>(n, r). (n, oks r)) (map (\<lambda>(i, a). (a_num a, r i a)) (enumerate 0 as))) n = Some (oks (r i (as ! i)))"
    and "distinct (map fst (map (\<lambda>(n, r). (n, oks r)) (map (\<lambda>(i, a). (a_num a, r i a)) (enumerate 0 as))))"
proof -
  have eq: "map (\<lambda>(n, r). (n, oks r)) (map (\<lambda>(i, a). (a_num a, r i a)) (enumerate 0 as)) =
      map (\<lambda>(i, a). (a_num a, oks (r i a))) (enumerate 0 as)"
    by (simp add: split_def o_def)
  show "map_of (map (\<lambda>(n, r). (n, oks r)) (map (\<lambda>(i, a). (a_num a, r i a)) (enumerate 0 as))) n = Some (oks (r i (as ! i)))"
    unfolding eq using fan_out_get [OF assms(1,2), of "\<lambda>i a. oks (r i a)"] assms(3) by simp
  show "distinct (map fst (map (\<lambda>(n, r). (n, oks r)) (map (\<lambda>(i, a). (a_num a, r i a)) (enumerate 0 as))))"
    unfolding eq using assms(1) by (simp only: fan_out_fst)
qed

lemma client_new_base:
  assumes "distinct (map a_num (g_ases g))" "a \<in> set (g_ases g)" "CHR '':'' \<notin> set (a_mgmt a)"
  shows "base_url (client_new g) (a_num a) = Some (''http://'' @ a_mgmt a @ '':30480'')"
proof -
  let ?v = "\<lambda>a. ''http://'' @ (case split_host_port (a_mgmt a) of
         Inl _ \<Rightarrow> join_host_port (a_mgmt a) (itoa default_port) | Inr _ \<Rightarrow> a_mgmt a)"
  have "cl_base (client_new g) = fill_map (\<lambda>a. Some (a_num a)) ?v Map.empty (g_ases g)"
    by (simp add: client_new_def fill_map_def)
  moreover have "inj_on (\<lambda>a. Some (a_num a)) (set (g_ases g))"
    using assms(1) by (simp add: distinct_map inj_on_def)
  ultimately have b: "base_url (client_new g) (a_num a) = Some (?v a)"
    using fill_map_unique [OF _ assms(2), of "\<lambda>a. Some (a_num a)" "a_num a" ?v Map.empty] by (simp add: base_url_def)
  have "last_index_byte CHR '':'' (a_mgmt a) = None"
    using assms(3) by (simp only: last_index_byte_None) simp
  then have s: "split_host_port (a_mgmt a) = Inl MissingPort"
    by (simp only: split_host_port_def option.case)
  have p: "itoa default_port = ''30480''"
    by (simp add: default_port_def itoa_def digit_char_def nat_digits.simps [of 30480] nat_digits.simps [of 3048]
      nat_digits.simps [of 304] nat_digits.simps [of 30] nat_digits.simps [of 3]) code_simp
  show ?thesis unfolding b s p join_host_port_def using assms(3) by simp
qed

text \<open>
  C29: A poll attributes linkd's answers to the right links: in a graph with distinct ASes, link ids
  and interfaces, a link's user shaping is the one its A side's AS reports in its last entry for the A
  side's interface, when that entry is flagged shaped, and nil when it is not; its baseline is that
  entry's baseline; and the link is absent from both maps when that AS does not answer or does not
  list the interface.
\<close>

theorem poll_links:
  assumes "wf_graph g" "l \<in> set (g_links g)"
    and "i < length (g_ases g)" "a_num (g_ases g ! i) = e_as (l_a l)"
    and "seen = (case fetch_links (client_new g) decode (net i) (e_as (l_a l)) of
      Inl _ \<Rightarrow> None | Inr es \<Rightarrow> last_with (\<lambda>e. Some (le_ifid e)) (e_ifid (l_a l)) es)"
  shows "fst (poll (client_new g) decode net) (l_id l) =
      map_option (\<lambda>e. if le_shaped e then le_shaping e else None) seen \<and>
    snd (poll (client_new g) decode net) (l_id l) = map_option le_baseline seen"
proof -
  let ?c = "client_new g" and ?as = "e_as (l_a l)"
  let ?res = "map (\<lambda>(i, a). (a_num a, fetch_links ?c decode (net i) (a_num a))) (enumerate 0 (g_ases g))"
  let ?xs = "flat (map (\<lambda>(as, r). (as, oks r)) ?res)"
  let ?f = "\<lambda>(as, e). a_side_idx g (as_if_key as (le_ifid e))"
  have dis: "distinct (map a_num (g_ases g))" using assms(1) by (simp add: wf_graph_def)
  note got = fan_out_oks [OF dis assms(3,4), of "\<lambda>i a. fetch_links ?c decode (net i) (a_num a)"]
  have "last_with ?f (l_id l) ?xs = map_option (Pair ?as)
      (last_with (\<lambda>e. Some (le_ifid e)) (e_ifid (l_a l)) (case Some (oks (fetch_links ?c decode (net i) ?as)) of None \<Rightarrow> [] | Some es \<Rightarrow> es))"
    using got(1) assms(4)
    by (subst last_with_flat [OF got(2), where a = ?as and h = "\<lambda>e. Some (le_ifid e)" and k' = "e_ifid (l_a l)"])
      (simp_all add: a_side_idx_iff [OF assms(1,2)])
  then have last: "last_with ?f (l_id l) ?xs = map_option (Pair ?as) seen"
    by (simp add: assms(5) oks_def split: sum.splits)
  have g: "cl_g ?c = g" by (simp add: client_new_def)
  show ?thesis
    unfolding poll_fill [OF refl refl refl, of ?c decode net] g
    by (cases seen) (simp_all add: fill_map_last last del: map_map)
qed

section \<open>What a BGP poll returns\<close>

lemma bgp_fill:
  "foldl (\<lambda>out (as, s). bgp_entry idx as out s) out0 xs k =
     (let f = (\<lambda>(as, s). idx (as_if_key as (bs_ifid s)));
          mk = (\<lambda>(as, s). Some \<lparr>b_state = bs_state s, b_since = bs_since s\<rparr>) in
      map_option (\<lambda>bl. \<lparr>bgp_a = (case last_with f (k, True) xs of None \<Rightarrow> bgp_a bl | Some x \<Rightarrow> mk x),
        bgp_b = (case last_with f (k, False) xs of None \<Rightarrow> bgp_b bl | Some x \<Rightarrow> mk x)\<rparr>) (out0 k))"
proof (induction xs rule: rev_induct)
  case Nil
  then show ?case by (cases "out0 k") simp_all
next
  case (snoc x xs)
  obtain as s where x: "x = (as, s)" by (cases x)
  show ?case
  proof (cases "idx (as_if_key as (bs_ifid s))")
    case None
    then show ?thesis using snoc x by (simp add: bgp_entry_def Let_def)
  next
    case (Some y)
    then obtain j isA where "idx (as_if_key as (bs_ifid s)) = Some (j, isA)" by (cases y) simp
    then show ?thesis
      using snoc x by (cases "out0 k") (auto simp: bgp_entry_def Let_def)
  qed
qed

lemma side_idx_iff:
  assumes "wf_graph g" "l \<in> set (g_links g)"
  shows "side_idx g (as_if_key a i) = Some (l_id l, isA) \<longleftrightarrow>
    (a, i) = (if isA then (e_as (l_a l), e_ifid (l_a l)) else (e_as (l_b l), e_ifid (l_b l)))"
proof -
  let ?ends = "\<lambda>l. [((e_as (l_a l), e_ifid (l_a l)), (l_id l, True)), ((e_as (l_b l), e_ifid (l_b l)), (l_id l, False))]"
  let ?xs = "concat (map ?ends (g_links g))"
  let ?f = "\<lambda>x. Some (as_if_key (fst (fst x)) (snd (fst x)))"
  have "foldl (\<lambda>m l. m(as_if_key (e_as (l_a l)) (e_ifid (l_a l)) \<mapsto> (l_id l, True),
       as_if_key (e_as (l_b l)) (e_ifid (l_b l)) \<mapsto> (l_id l, False))) m ls =
      fill_map ?f snd m (concat (map ?ends ls))" for m ls
    by (induction ls arbitrary: m) (simp_all add: fill_map_def)
  then have idx: "side_idx g = fill_map ?f snd Map.empty ?xs" by (simp add: side_idx_def)
  have keys: "map fst ?xs = concat (map link_ends (g_links g))"
    by (simp add: map_concat o_def link_ends_def [abs_def])
  have inj: "inj_on ?f (set ?xs)"
  proof (rule inj_onI)
    fix x y assume "x \<in> set ?xs" "y \<in> set ?xs" "?f x = ?f y"
    then have "fst x = fst y" by (simp add: as_if_key_inj prod_eq_iff)
    have "distinct (map fst ?xs)" unfolding keys using assms(1) by (simp add: wf_graph_def)
    then have "inj_on fst (set ?xs)" by (simp only: distinct_map)
    then show "x = y" using \<open>fst x = fst y\<close> \<open>x \<in> set ?xs\<close> \<open>y \<in> set ?xs\<close> by (rule inj_onD)
  qed
  let ?e = "if isA then l_a l else l_b l"
  show ?thesis
  proof
    assume "side_idx g (as_if_key a i) = Some (l_id l, isA)"
    then obtain x where x: "last_with ?f (as_if_key a i) ?xs = Some x" "snd x = (l_id l, isA)"
      unfolding idx fill_map_last by (auto split: option.splits)
    from last_with_Some [OF x(1)] obtain l' where l': "l' \<in> set (g_links g)" "x \<in> set (?ends l')" "fst x = (a, i)"
      by (auto simp: as_if_key_inj)
    then have "l' = l" using wf_graph_id [OF assms(1) l'(1) assms(2)] x(2) by auto
    then show "(a, i) = (if isA then (e_as (l_a l), e_ifid (l_a l)) else (e_as (l_b l), e_ifid (l_b l)))"
      using l'(2,3) x(2) by auto
  next
    assume ai: "(a, i) = (if isA then (e_as (l_a l), e_ifid (l_a l)) else (e_as (l_b l), e_ifid (l_b l)))"
    then have "((a, i), (l_id l, isA)) \<in> set ?xs" using assms(2) by (cases isA) auto
    from fill_map_unique [OF inj this, of "as_if_key a i" snd Map.empty]
    show "side_idx g (as_if_key a i) = Some (l_id l, isA)" unfolding idx by simp
  qed
qed

text \<open>The poll as two independent loops over the answers.\<close>

lemma poll_bgp_fill:
  fixes c decode net
  defines "res \<equiv> map (\<lambda>(i, a). (a_num a, fetch_bgp c decode (net i) (a_num a))) (enumerate 0 (g_ases (cl_g c)))"
  shows "fst (poll_bgp c decode net) =
      foldl (\<lambda>out (as, s). bgp_entry (side_idx (cl_g c)) as out s)
        (fill_map (\<lambda>l. Some (l_id l)) (\<lambda>_. \<lparr>bgp_a = None, bgp_b = None\<rparr>) Map.empty (g_links (cl_g c)))
        (flat (map (\<lambda>(as, r). (as, concat (map fst (oks (map_sum id (\<lambda>x. [x]) r))))) res))"
    and "snd (poll_bgp c decode net) =
      fill_map (\<lambda>(as, r). case r of Inl _ \<Rightarrow> None | Inr _ \<Rightarrow> Some as)
        (\<lambda>(as, r). case r of Inl _ \<Rightarrow> Map.empty | Inr (ss, rr) \<Rightarrow> route_map rr) Map.empty res"
proof -
  have one: "foldl (\<lambda>out (as, s). bgp_entry idx as out s) out (map (Pair as) ss) = foldl (bgp_entry idx as) out ss" for idx as out ss
    by (induction ss arbitrary: out) simp_all
  have all: "foldl (\<lambda>(out, routes) (as, r). case r of Inl _ \<Rightarrow> (out, routes)
        | Inr (ss, rr) \<Rightarrow> (foldl (bgp_entry idx as) out ss, routes(as \<mapsto> route_map rr))) (out, routes) rs =
      (foldl (\<lambda>out (as, s). bgp_entry idx as out s) out
         (flat (map (\<lambda>(as, r). (as, concat (map fst (oks (map_sum id (\<lambda>x. [x]) r))))) rs)),
       fill_map (\<lambda>(as, r). case r of Inl _ \<Rightarrow> None | Inr _ \<Rightarrow> Some as)
        (\<lambda>(as, r). case r of Inl _ \<Rightarrow> Map.empty | Inr (ss, rr) \<Rightarrow> route_map rr) routes rs)" for idx out routes rs
    by (induction rs arbitrary: out routes) (auto simp: one oks_def fill_map_def split: sum.splits)
  have start: "foldl (\<lambda>m l. m(l_id l \<mapsto> \<lparr>bgp_a = None, bgp_b = None\<rparr>)) Map.empty ls =
      fill_map (\<lambda>l. Some (l_id l)) (\<lambda>_. \<lparr>bgp_a = None, bgp_b = None\<rparr>) Map.empty ls" for ls :: "link list"
    by (simp add: fill_map_def)
  show "fst (poll_bgp c decode net) =
      foldl (\<lambda>out (as, s). bgp_entry (side_idx (cl_g c)) as out s)
        (fill_map (\<lambda>l. Some (l_id l)) (\<lambda>_. \<lparr>bgp_a = None, bgp_b = None\<rparr>) Map.empty (g_links (cl_g c)))
        (flat (map (\<lambda>(as, r). (as, concat (map fst (oks (map_sum id (\<lambda>x. [x]) r))))) res))"
    unfolding poll_bgp_def Let_def start all res_def by simp
  show "snd (poll_bgp c decode net) =
      fill_map (\<lambda>(as, r). case r of Inl _ \<Rightarrow> None | Inr _ \<Rightarrow> Some as)
        (\<lambda>(as, r). case r of Inl _ \<Rightarrow> Map.empty | Inr (ss, rr) \<Rightarrow> route_map rr) Map.empty res"
    unfolding poll_bgp_def Let_def start all res_def by simp
qed

lemma fan_out_fill:
  assumes "distinct (map a_num as)" "i < length as"
  shows "fill_map (\<lambda>(n, r). case r of Inl _ \<Rightarrow> None | Inr _ \<Rightarrow> Some n) h Map.empty
      (map (\<lambda>(i, a). (a_num a, r i a)) (enumerate 0 as)) (a_num (as ! i)) =
    (case r i (as ! i) of Inl _ \<Rightarrow> None | Inr _ \<Rightarrow> Some (h (a_num (as ! i), r i (as ! i))))"
proof -
  let ?res = "map (\<lambda>(i, a). (a_num a, r i a)) (enumerate 0 as)"
  let ?f = "\<lambda>(n, r). case r of Inl _ \<Rightarrow> None | Inr _ \<Rightarrow> Some n"
  have wf: "wf_map ?res" using assms(1) by (simp only: fan_out_fst)
  have p: "(\<lambda>x. ?f x = Some (a_num (as ! i))) = (\<lambda>x. fst x = a_num (as ! i) \<and> (\<exists>y. snd x = Inr y))"
    by (auto split: sum.splits)
  have "filter (\<lambda>x. ?f x = Some (a_num (as ! i))) ?res =
      filter (\<lambda>x. \<exists>y. snd x = Inr y) (filter (\<lambda>x. fst x = a_num (as ! i)) ?res)"
    unfolding filter_filter by (rule arg_cong [where f = "\<lambda>P. filter P ?res", OF p])
  also have "\<dots> = (case r i (as ! i) of Inl _ \<Rightarrow> [] | Inr _ \<Rightarrow> [(a_num (as ! i), r i (as ! i))])"
    unfolding filter_wf_map [OF wf] fan_out_get [OF assms] by (auto split: sum.splits)
  finally show ?thesis
    by (simp add: fill_map_last last_with_def Let_def split: sum.splits)
qed

lemma poll_bgp_side:
  assumes "wf_graph g" "l \<in> set (g_links g)" "i < length (g_ases g)"
    and "ep = (if isA then l_a l else l_b l)" "a_num (g_ases g ! i) = e_as ep"
    and "rs = (\<lambda>i a. fetch_bgp c decode (net i) (a_num a))"
  shows "last_with (\<lambda>(as, s). side_idx g (as_if_key as (bs_ifid s))) (l_id l, isA)
      (flat (map (\<lambda>(as, r). (as, concat (map fst (oks (map_sum id (\<lambda>x. [x]) r)))))
        (map (\<lambda>(i, a). (a_num a, rs i a)) (enumerate 0 (g_ases g))))) =
    map_option (Pair (e_as ep)) (case rs i (g_ases g ! i) of Inl _ \<Rightarrow> None
      | Inr (ss, rr) \<Rightarrow> last_with (\<lambda>s. Some (bs_ifid s)) (e_ifid ep) ss)"
proof -
  let ?r = "\<lambda>i a. concat (map fst (oks (map_sum id (\<lambda>x. [x]) (rs i a))))"
  let ?res = "map (\<lambda>(i, a). (a_num a, ?r i a)) (enumerate 0 (g_ases g))"
  have dis: "distinct (map a_num (g_ases g))" using assms(1) by (simp add: wf_graph_def)
  have eq: "map (\<lambda>(as, r). (as, concat (map fst (oks (map_sum id (\<lambda>x. [x]) r)))))
        (map (\<lambda>(i, a). (a_num a, rs i a)) (enumerate 0 (g_ases g))) = ?res"
    by (simp add: split_def o_def)
  have wf: "distinct (map fst ?res)" using dis by (simp only: fan_out_fst)
  have get: "map_of ?res (e_as ep) = Some (?r i (g_ases g ! i))"
    using fan_out_get [OF dis assms(3), of ?r] assms(5) by simp
  have "last_with (\<lambda>(as, s). side_idx g (as_if_key as (bs_ifid s))) (l_id l, isA) (flat ?res) =
      map_option (Pair (e_as ep)) (last_with (\<lambda>s. Some (bs_ifid s)) (e_ifid ep)
        (case map_of ?res (e_as ep) of None \<Rightarrow> [] | Some es \<Rightarrow> es))"
    by (rule last_with_flat [OF wf]) (simp add: side_idx_iff [OF assms(1,2)] assms(4))
  then show ?thesis
    unfolding eq get by (cases "rs i (g_ases g ! i)") (auto simp: oks_def)
qed

text \<open>
  A BGP poll joins what both ends report onto each link: in a graph with distinct ASes, link ids
  and interfaces each side of a link carries the last session its own AS reports for its own
  interface, and nil when that AS errs or reports none; and the route table of an AS is present
  exactly when the AS answered, mapping each destination to the interface of its last route there.
\<close>

theorem poll_bgp_joined:
  assumes "wf_graph g" "l \<in> set (g_links g)"
    and "i < length (g_ases g)" "a_num (g_ases g ! i) = e_as (l_a l)"
    and "j < length (g_ases g)" "a_num (g_ases g ! j) = e_as (l_b l)"
    and "f = (\<lambda>i. fetch_bgp (client_new g) decode (net i) (a_num (g_ases g ! i)))"
    and "side = (\<lambda>r ifid. map_option (\<lambda>s. \<lparr>b_state = bs_state s, b_since = bs_since s\<rparr>)
      (case r of Inl _ \<Rightarrow> None | Inr (ss, rr) \<Rightarrow> last_with (\<lambda>s. Some (bs_ifid s)) ifid ss))"
  shows "fst (poll_bgp (client_new g) decode net) (l_id l) =
      Some \<lparr>bgp_a = side (f i) (e_ifid (l_a l)), bgp_b = side (f j) (e_ifid (l_b l))\<rparr> \<and>
    (\<forall>n<length (g_ases g). snd (poll_bgp (client_new g) decode net) (a_num (g_ases g ! n)) =
      (case f n of Inl _ \<Rightarrow> None
       | Inr (ss, rr) \<Rightarrow> Some (\<lambda>dst. map_option br_ifid (last_with (\<lambda>r. Some (br_prefix r)) dst rr))))"
proof (intro conjI allI impI)
  let ?c = "client_new g"
  have g: "cl_g ?c = g" by (simp add: client_new_def)
  have dis: "distinct (map a_num (g_ases g))" using assms(1) by (simp add: wf_graph_def)
  have start: "fill_map (\<lambda>l. Some (l_id l)) (\<lambda>_. \<lparr>bgp_a = None, bgp_b = None\<rparr>) Map.empty (g_links g) (l_id l) =
      Some \<lparr>bgp_a = None, bgp_b = None\<rparr>"
    using assms(1,2) by (intro fill_map_unique) (auto simp: wf_graph_def distinct_map inj_on_def)
  note A = poll_bgp_side [OF assms(1,2,3), of _ True, OF _ assms(4) refl, of ?c decode net, simplified if_True, OF refl]
  note B = poll_bgp_side [OF assms(1,2,5), of _ False, OF _ assms(6) refl, of ?c decode net, simplified if_False, OF refl]
  show "fst (poll_bgp ?c decode net) (l_id l) =
      Some \<lparr>bgp_a = side (f i) (e_ifid (l_a l)), bgp_b = side (f j) (e_ifid (l_b l))\<rparr>"
    unfolding poll_bgp_fill g bgp_fill Let_def start A B assms(7,8)
    by (auto simp: split_def option.map_comp o_def split: option.splits sum.splits)
next
  fix n assume n: "n < length (g_ases g)"
  let ?c = "client_new g"
  have g: "cl_g ?c = g" by (simp add: client_new_def)
  have dis: "distinct (map a_num (g_ases g))" using assms(1) by (simp add: wf_graph_def)
  show "snd (poll_bgp ?c decode net) (a_num (g_ases g ! n)) =
      (case f n of Inl _ \<Rightarrow> None
       | Inr (ss, rr) \<Rightarrow> Some (\<lambda>dst. map_option br_ifid (last_with (\<lambda>r. Some (br_prefix r)) dst rr)))"
  proof -
    have "route_map rr = fill_map (\<lambda>r. Some (br_prefix r)) br_ifid Map.empty rr" for rr
      by (simp add: route_map_def fill_map_def)
    then have "route_map rr dst = map_option br_ifid (last_with (\<lambda>r. Some (br_prefix r)) dst rr)" for rr dst
      by (simp add: fill_map_last split: option.splits)
    then show ?thesis
      unfolding poll_bgp_fill g fan_out_fill [OF dis n] assms(7) by (auto split: sum.splits)
  qed
qed

section \<open>What an apply does\<close>

definition request_for :: "client \<Rightarrow> (shaping \<Rightarrow> string + string) \<Rightarrow> endpoint \<Rightarrow> shaping \<Rightarrow> bool \<Rightarrow> http_request option" where
  "request_for c marshal ep p clear = (case base_url c (e_as ep) of None \<Rightarrow> None
   | Some base \<Rightarrow>
      (let url = base @ ''/api/v1/links/'' @ e_ifid ep in
       if clear then Some \<lparr>rq_method = ''DELETE'', rq_url = url, rq_body = None\<rparr>
       else case marshal p of Inl _ \<Rightarrow> None
         | Inr text \<Rightarrow> Some \<lparr>rq_method = ''PUT'', rq_url = url, rq_body = Some text\<rparr>))"

definition accepted :: "http_reply \<Rightarrow> bool" where
  "accepted r = (case r of Inl _ \<Rightarrow> False | Inr (status, _) \<Rightarrow> 200 \<le> status \<and> status < 300)"

lemma apply_one_outcome:
  "cr_as (fst (apply_one c marshal net ep p clear)) = e_as ep"
  "snd (apply_one c marshal net ep p clear) = request_for c marshal ep p clear"
  "cr_ok (fst (apply_one c marshal net ep p clear)) \<longleftrightarrow>
     (\<exists>rq. request_for c marshal ep p clear = Some rq \<and> accepted (net rq))"
  "cr_ok (fst (apply_one c marshal net ep p clear)) \<Longrightarrow> cr_error (fst (apply_one c marshal net ep p clear)) = ''''"
proof -
  have "cr_as (fst (apply_one c marshal net ep p clear)) = e_as ep \<and>
    snd (apply_one c marshal net ep p clear) = request_for c marshal ep p clear \<and>
    (cr_ok (fst (apply_one c marshal net ep p clear)) \<longleftrightarrow>
      (\<exists>rq. request_for c marshal ep p clear = Some rq \<and> accepted (net rq))) \<and>
    (cr_ok (fst (apply_one c marshal net ep p clear)) \<longrightarrow> cr_error (fst (apply_one c marshal net ep p clear)) = '''')"
  proof (cases "base_url c (e_as ep)")
    case None
    then show ?thesis by (simp add: apply_one_def request_for_def)
  next
    case base: (Some base)
    show ?thesis
    proof (cases "request_for c marshal ep p clear")
      case None
      then obtain e where "(if clear then Inr None else map_sum id Some (marshal p)) = Inl e"
        using base by (auto simp: request_for_def Let_def split: if_splits sum.splits)
      with base None show ?thesis by (simp add: apply_one_def Let_def)
    next
      case (Some rq)
      then have "(if clear then Inr None else map_sum id Some (marshal p)) = Inr (rq_body rq)"
        "rq = \<lparr>rq_method = (if clear then ''DELETE'' else ''PUT''),
           rq_url = base @ ''/api/v1/links/'' @ e_ifid ep, rq_body = rq_body rq\<rparr>"
        using base by (auto simp: request_for_def Let_def split: if_splits sum.splits)
      then show ?thesis
        using Some base by (cases "net rq") (auto simp: apply_one_def Let_def accepted_def split: if_splits)
    qed
  qed
  then show "cr_as (fst (apply_one c marshal net ep p clear)) = e_as ep"
    "snd (apply_one c marshal net ep p clear) = request_for c marshal ep p clear"
    "cr_ok (fst (apply_one c marshal net ep p clear)) \<longleftrightarrow>
       (\<exists>rq. request_for c marshal ep p clear = Some rq \<and> accepted (net rq))"
    "cr_ok (fst (apply_one c marshal net ep p clear)) \<Longrightarrow> cr_error (fst (apply_one c marshal net ep p clear)) = ''''"
    by blast+
qed

lemma map_enumerate: "map (\<lambda>(i, x). h x) (enumerate n xs) = map h xs"
  by (induction xs arbitrary: n) simp_all

text \<open>
  C30: An apply contacts exactly the interfaces its direction names, A before B: each one's linkd gets
  one PUT of the shape, or one DELETE when clearing, at that interface's URL, unless the AS is unknown
  or the shape does not encode; and the endpoint's result is its own AS's, with success reported
  exactly when its request was sent and answered with a 2xx status.
\<close>

theorem apply_contacts:
  assumes "eps = (if dir = ''a_to_b'' then [l_a l] else if dir = ''b_to_a'' then [l_b l]
      else if dir = ''both'' then [l_a l, l_b l] else [])"
    and "out = client_apply c marshal net l dir p clear"
  shows "map (cr_as \<circ> fst) out = map e_as eps \<and>
    map snd out = map (\<lambda>ep. request_for c marshal ep p clear) eps \<and>
    (\<forall>i<length eps. cr_ok (fst (out ! i)) \<longleftrightarrow>
       (\<exists>rq. request_for c marshal (eps ! i) p clear = Some rq \<and> accepted (net i rq)))"
proof -
  have eps: "endpoints_of l dir = eps" by (simp add: assms(1) endpoints_of_def)
  have out: "out = map (\<lambda>(i, ep). apply_one c marshal (net i) ep p clear) (enumerate 0 eps)"
    by (simp add: assms(2) client_apply_def eps)
  have "map (cr_as \<circ> fst) out = map (\<lambda>(i, ep). e_as ep) (enumerate 0 eps)"
    "map snd out = map (\<lambda>(i, ep). request_for c marshal ep p clear) (enumerate 0 eps)"
    by (simp_all add: out split_def apply_one_outcome o_def)
  moreover have "cr_ok (fst (out ! i)) \<longleftrightarrow> (\<exists>rq. request_for c marshal (eps ! i) p clear = Some rq \<and> accepted (net i rq))"
    if "i < length eps" for i
    using that by (simp add: out nth_enumerate_eq apply_one_outcome(3))
  ultimately show ?thesis by (simp add: map_enumerate)
qed

text \<open>\<open>AllHealth\<close> gives every AS of the graph its own linkd's answer.\<close>

lemma all_health_get:
  assumes "distinct (map a_num (g_ases (cl_g c)))" "i < length (g_ases (cl_g c))"
  shows "all_health c net (a_num (g_ases (cl_g c) ! i)) = Some (health_one c (net i) (a_num (g_ases (cl_g c) ! i)))"
proof -
  let ?as = "g_ases (cl_g c)"
  have "all_health c net = fill_map (\<lambda>(i, a). Some (a_num a)) (\<lambda>(i, a). health_one c (net i) (a_num a)) Map.empty (enumerate 0 ?as)"
    by (simp add: all_health_def fill_map_def split_def)
  moreover have "inj_on (\<lambda>(i, a). Some (a_num a)) (set (enumerate 0 ?as))"
    using nth_eq_iff_index_eq [OF assms(1)] by (auto simp: inj_on_def in_set_enumerate_eq)
  moreover have "(i, ?as ! i) \<in> set (enumerate 0 ?as)" using assms(2) by (simp add: in_set_enumerate_eq)
  ultimately show ?thesis
    using fill_map_unique [of "\<lambda>(i, a). Some (a_num a)" "enumerate 0 ?as" "(i, ?as ! i)" "a_num (?as ! i)"
      "\<lambda>(i, a). health_one c (net i) (a_num a)"] by simp
qed

subsection \<open>A concrete graph\<close>

definition lc_graph :: graph where
  "lc_graph = \<lparr>g_ases = [\<lparr>a_ia = ''1-150'', a_num = 150, a_core = True, a_mgmt = ''a''\<rparr>,
     \<lparr>a_ia = ''1-151'', a_num = 151, a_core = True, a_mgmt = ''b''\<rparr>], g_links = [ex_link]\<rparr>"

lemma lc_wf: "wf_graph lc_graph" "ex_link \<in> set (g_links lc_graph)"
  "0 < length (g_ases lc_graph)" "1 < length (g_ases lc_graph)"
  "a_num (g_ases lc_graph ! 0) = e_as (l_a ex_link)" "a_num (g_ases lc_graph ! 1) = e_as (l_b ex_link)"
  by (simp_all add: wf_graph_def lc_graph_def link_ends_def ex_link_def ex_end_def)

definition lc_shape :: shaping where
  "lc_shape = \<lparr>delay_ms = Some (Fin 20), jitter_ms = None, loss_pct = None, rate_mbit = None\<rparr>"

definition lc_decode :: "string \<Rightarrow> string + link_entry list" where
  "lc_decode body = (if body = ''L''
     then Inr [\<lparr>le_ifid = ''1'', le_shaping = Some lc_shape, le_shaped = True, le_baseline = None\<rparr>] else Inl ''EOF'')"

definition lc_net :: "nat \<Rightarrow> http_request \<Rightarrow> http_reply" where
  "lc_net i rq = (if i = 0 then Inr (200, ''L'') else Inl ''refused'')"

lemma lc_base: "base_url (client_new lc_graph) 150 = Some ''http://a:30480''" "base_url (client_new lc_graph) 151 = Some ''http://b:30480''"
proof -
  have d: "distinct (map a_num (g_ases lc_graph))" by (simp add: lc_graph_def)
  show "base_url (client_new lc_graph) 150 = Some ''http://a:30480''" "base_url (client_new lc_graph) 151 = Some ''http://b:30480''"
    using client_new_base [OF d, of "g_ases lc_graph ! 0"] client_new_base [OF d, of "g_ases lc_graph ! 1"]
    by (simp_all add: lc_graph_def)
qed

theorem poll_links_witness:
  "fst (poll (client_new lc_graph) lc_decode lc_net) ''150-151'' = Some (Some lc_shape)"
proof -
  have "fetch_links (client_new lc_graph) lc_decode (lc_net 0) (e_as (l_a ex_link)) =
      Inr [\<lparr>le_ifid = ''1'', le_shaping = Some lc_shape, le_shaped = True, le_baseline = None\<rparr>]"
    by (simp add: fetch_links_def fetch_json_def ex_link_def ex_end_def lc_base lc_net_def lc_decode_def)
  then show ?thesis
    using poll_links [OF lc_wf(1,2,3,5) refl, of lc_decode lc_net]
    by (simp add: ex_link_def ex_end_def last_with_def)
qed

definition lc_bgp :: "string \<Rightarrow> string + bgp_body" where
  "lc_bgp body = Inr ([\<lparr>bs_ifid = ''1'', bs_state = ''up'', bs_since = 5\<rparr>], [\<lparr>br_prefix = 151, br_ifid = ''1''\<rparr>])"

theorem poll_bgp_joined_witness:
  "fst (poll_bgp (client_new lc_graph) lc_bgp lc_net) ''150-151'' =
     Some \<lparr>bgp_a = Some \<lparr>b_state = ''up'', b_since = 5\<rparr>, bgp_b = None\<rparr> \<and>
   snd (poll_bgp (client_new lc_graph) lc_bgp lc_net) 151 = None"
proof -
  have f: "fetch_bgp (client_new lc_graph) lc_bgp (lc_net 0) 150 =
      Inr ([\<lparr>bs_ifid = ''1'', bs_state = ''up'', bs_since = 5\<rparr>], [\<lparr>br_prefix = 151, br_ifid = ''1''\<rparr>])"
    "fetch_bgp (client_new lc_graph) lc_bgp (lc_net 1) 151 = Inl ''refused''"
    by (simp_all add: fetch_bgp_def fetch_json_def lc_base lc_net_def lc_bgp_def)
  have a: "a_num (g_ases lc_graph ! 0) = 150" "a_num (g_ases lc_graph ! 1) = 151" by (simp_all add: lc_graph_def)
  have "l_id ex_link = ''150-151''" "e_ifid (l_a ex_link) = ''1''" by (simp_all add: ex_link_def ex_end_def)
  with poll_bgp_joined [OF lc_wf(1,2,3,5,4,6) refl refl, of lc_bgp lc_net] lc_wf(4)
  show ?thesis
    by (simp only: a f sum.case prod.case last_with_def Let_def)
      (auto simp: a [unfolded One_nat_def] f [unfolded One_nat_def] dest!: spec [of _ 1])
qed

definition lc_results :: "(client_result \<times> http_request option) list" where
  "lc_results = client_apply (client_new lc_graph) (\<lambda>_. Inr ''{}'') lc_net ex_link ''both'' lc_shape False"

theorem apply_contacts_witness:
  "map (cr_as \<circ> fst) lc_results = [150, 151] \<and> cr_ok (fst (lc_results ! 0)) \<and> \<not> cr_ok (fst (lc_results ! 1))"
proof -
  have eps: "[l_a ex_link, l_b ex_link] = (if ''both'' = ''a_to_b'' then [l_a ex_link] else if ''both'' = ''b_to_a'' then [l_b ex_link]
      else if ''both'' = ''both'' then [l_a ex_link, l_b ex_link] else [])" by simp
  note got = apply_contacts [OF eps lc_results_def]
  have rq: "\<exists>rq. request_for (client_new lc_graph) (\<lambda>_. Inr ''{}'') (l_a ex_link) lc_shape False = Some rq"
    by (simp add: request_for_def ex_link_def ex_end_def lc_base Let_def)
  have "map (cr_as \<circ> fst) lc_results = [150, 151]"
    using conjunct1 [OF got] by (simp add: ex_link_def ex_end_def)
  moreover have "cr_ok (fst (lc_results ! 0))"
    using conjunct2 [OF conjunct2 [OF got], THEN spec [of _ 0]] rq by (simp add: lc_net_def accepted_def)
  moreover have "\<not> cr_ok (fst (lc_results ! 1))"
    using conjunct2 [OF conjunct2 [OF got], THEN spec [of _ 1]] by (simp add: lc_net_def accepted_def)
  ultimately show ?thesis by blast
qed

end
