(* ===== verification/Idint.thy ===== *)
theory Idint
  imports LinkdClient "HOL-Library.Word"
begin

text \<open>
  \<open>dashboard/backend/internal/idint\<close>: the path inspector's trace session.  The manager's critical
  sections are functions of its state; a tick is two of them with the probe, a parameter, in between.
  The theorems: whatever sets, clears and overlapping ticks do, the shown trace belongs to the current
  session; each hop of a trace carries the record of the link it is drawn on; and flattening a walk
  over the topology into path interfaces is undone by \<open>pairLinks\<close> and \<open>hopsOf\<close>.
\<close>

section \<open>Wire types\<close>

record iface_json =
  if_ia :: string
  if_id :: "64 word"

record path_json =
  pj_fingerprint :: string
  pj_mtu :: int
  pj_expiry :: string
  pj_ifaces :: "iface_json list"
  pj_latency :: "int list"

record hop_record =
  hr_hop :: int
  hr_ia :: string
  hr_source :: bool
  hr_ingress :: bool
  hr_egress :: bool
  hr_aggregated :: bool
  hr_encrypted :: bool
  hr_verified :: bool
  hr_node_id :: "32 word option"
  hr_igr_ifid :: "16 word option"
  hr_egr_ifid :: "16 word option"
  hr_rtt_next :: "int option"
  hr_tx_pct :: "f64 option"
  hr_tstamp :: "64 word option"
  hr_queue :: "int option"

record probe_result =
  pr_path :: path_json
  pr_rtt_ms :: f64
  pr_exceeded :: bool
  pr_fwd :: "hop_record list"
  pr_rev :: "hop_record list"

record path_option =
  po_fingerprint :: string
  po_hops :: "int list"
  po_links :: "string list option"
  po_latency :: int
  po_mtu :: int
  po_expiry :: string
  po_best :: bool

record trace_hop =
  th_ia :: string
  th_link :: string
  th_rtt :: "int option"
  th_tx_pct :: "f64 option"
  th_queue :: "int option"
  th_node_id :: "32 word option"
  th_verified :: bool

datatype idint_error = UnknownAs int int | SameAs int | OddInterfaces nat | MalformedIa string
  | BadIaNumber string | NotInTopology string | RecordMismatch nat nat nat | ProbeFailed string

text \<open>The error text is the error itself, and the empty string is \<open>None\<close>.\<close>

record trace_vm =
  tv_src :: string
  tv_dst :: string
  tv_fingerprint :: string
  tv_auto :: bool
  tv_links :: "string list"
  tv_ok :: bool
  tv_error :: "idint_error option"
  tv_updated :: int
  tv_rtt_ms :: f64
  tv_hops :: "trace_hop list"

section \<open>The manager\<close>

record trace_session =
  se_src :: int
  se_dst :: int
  se_fingerprint :: string

text \<open>A lookup of an unknown AS in \<open>iaByNum\<close> yields the empty string.\<close>

record manager =
  mg_ia :: "int \<rightharpoonup> string"
  mg_link :: "string \<rightharpoonup> string"
  mg_as :: "int \<Rightarrow> bool"
  mg_sess :: "trace_session option"
  mg_vm :: "trace_vm option"
  mg_latest :: "probe_result option"

definition link_key :: "int \<Rightarrow> string \<Rightarrow> string" where
  "link_key as ifid = itoa as @ '':'' @ ifid"

definition manager_new :: "graph \<Rightarrow> manager" where
  "manager_new g = \<lparr>
     mg_ia = foldl (\<lambda>m a. m(a_num a \<mapsto> a_ia a)) Map.empty (g_ases g),
     mg_link = foldl (\<lambda>m l. m(link_key (e_as (l_a l)) (e_ifid (l_a l)) \<mapsto> l_id l,
                             link_key (e_as (l_b l)) (e_ifid (l_b l)) \<mapsto> l_id l)) Map.empty (g_links g),
     mg_as = foldl (\<lambda>s a. s(a_num a := True)) (\<lambda>_. False) (g_ases g),
     mg_sess = None, mg_vm = None, mg_latest = None\<rparr>"

definition mgr_ia :: "manager \<Rightarrow> int \<Rightarrow> string" where
  "mgr_ia m as = (case mg_ia m as of None \<Rightarrow> '''' | Some ia \<Rightarrow> ia)"

definition validate_pair :: "manager \<Rightarrow> int \<Rightarrow> int \<Rightarrow> idint_error option" where
  "validate_pair m src dst =
     (if \<not> mg_as m src \<or> \<not> mg_as m dst then Some (UnknownAs src dst)
      else if src = dst then Some (SameAs src) else None)"

definition pending_vm :: "manager \<Rightarrow> trace_session \<Rightarrow> trace_vm" where
  "pending_vm m s = \<lparr>tv_src = mgr_ia m (se_src s), tv_dst = mgr_ia m (se_dst s), tv_fingerprint = '''',
     tv_auto = (se_fingerprint s = ''''), tv_links = [], tv_ok = True, tv_error = None, tv_updated = 0,
     tv_rtt_ms = Fin 0, tv_hops = []\<rparr>"

definition mgr_set :: "int \<Rightarrow> int \<Rightarrow> string \<Rightarrow> manager \<Rightarrow> idint_error + manager" where
  "mgr_set src dst fp m = (case validate_pair m src dst of
     Some e \<Rightarrow> Inl e
   | None \<Rightarrow> (let s = \<lparr>se_src = src, se_dst = dst, se_fingerprint = fp\<rparr> in
       Inr (m\<lparr>mg_sess := Some s, mg_vm := Some (pending_vm m s), mg_latest := None\<rparr>)))"

definition mgr_clear :: "manager \<Rightarrow> manager" where
  "mgr_clear m = m\<lparr>mg_sess := None, mg_vm := None, mg_latest := None\<rparr>"

text \<open>\<open>VM\<close> and \<open>Latest\<close> copy, so that later changes do not reach the reader.\<close>

definition mgr_vm :: "manager \<Rightarrow> trace_vm option" where
  "mgr_vm m = mg_vm m"

definition mgr_latest :: "manager \<Rightarrow> probe_result option" where
  "mgr_latest m = mg_latest m"

section \<open>Building the view\<close>

definition as_num_of :: "string \<Rightarrow> idint_error + int" where
  "as_num_of ia = (case last_index_byte CHR ''-'' ia of
     None \<Rightarrow> Inl (MalformedIa ia)
   | Some i \<Rightarrow> (case atoi (drop (i + 1) ia) of None \<Rightarrow> Inl (BadIaNumber (drop (i + 1) ia)) | Some n \<Rightarrow> Inr n))"

text \<open>The pairing loop; the cross-check of the second interface only logs.\<close>

fun pair_loop :: "(string \<rightharpoonup> string) \<Rightarrow> iface_json list \<Rightarrow> idint_error + string list" where
  "pair_loop link (a # b # rest) = (case as_num_of (if_ia a) of
     Inl e \<Rightarrow> Inl e
   | Inr n \<Rightarrow>
      (let key = link_key n (itoa (uint (if_id a))) in
       case link key of None \<Rightarrow> Inl (NotInTopology key)
     | Some l \<Rightarrow> (case pair_loop link rest of Inl e \<Rightarrow> Inl e | Inr ls \<Rightarrow> Inr (l # ls))))"
| "pair_loop link _ = Inr []"

definition mgr_pair_links :: "manager \<Rightarrow> iface_json list \<Rightarrow> idint_error + string list" where
  "mgr_pair_links m ifaces =
     (if length ifaces mod 2 \<noteq> 0 then Inl (OddInterfaces (length ifaces)) else pair_loop (mg_link m) ifaces)"

definition egress_records :: "hop_record list \<Rightarrow> hop_record list" where
  "egress_records recs = filter hr_egress recs"

definition trace_hop_of :: "hop_record \<Rightarrow> string \<Rightarrow> trace_hop" where
  "trace_hop_of rec link = \<lparr>th_ia = hr_ia rec, th_link = link, th_rtt = hr_rtt_next rec,
     th_tx_pct = hr_tx_pct rec, th_queue = hr_queue rec, th_node_id = hr_node_id rec,
     th_verified = hr_verified rec\<rparr>"

definition build_vm :: "int \<Rightarrow> manager \<Rightarrow> trace_session \<Rightarrow> probe_result \<Rightarrow> idint_error + trace_vm" where
  "build_vm now m s res = (case mgr_pair_links m (pj_ifaces (pr_path res)) of
     Inl e \<Rightarrow> Inl e
   | Inr links \<Rightarrow>
      (let fwd = egress_records (pr_fwd res); rev_e = egress_records (pr_rev res) in
       case (if length fwd = length links then Inr fwd
             else if length rev_e \<noteq> length links
             then Inl (RecordMismatch (length fwd) (length rev_e) (length links))
             else Inr (rev rev_e)) of
         Inl e \<Rightarrow> Inl e
       | Inr egress \<Rightarrow> Inr \<lparr>tv_src = mgr_ia m (se_src s), tv_dst = mgr_ia m (se_dst s),
           tv_fingerprint = pj_fingerprint (pr_path res), tv_auto = (se_fingerprint s = ''''),
           tv_links = links, tv_ok = True, tv_error = None, tv_updated = now,
           tv_rtt_ms = pr_rtt_ms res,
           tv_hops = map (\<lambda>(rec, l). trace_hop_of rec l) (zip egress links)\<rparr>))"

section \<open>A tick\<close>

text \<open>The first critical section reads the session, the second stores the outcome of its probe.\<close>

definition tick_begin :: "manager \<Rightarrow> trace_session option" where
  "tick_begin m = mg_sess m"

definition tick_end :: "int \<Rightarrow> trace_session \<Rightarrow> string + probe_result \<Rightarrow> manager \<Rightarrow> manager" where
  "tick_end now s probed m =
     (if mg_sess m \<noteq> Some s then m
      else (case (case probed of Inl err \<Rightarrow> Inl (ProbeFailed err) | Inr res \<Rightarrow> map_sum id (Pair res) (build_vm now m s res)) of
          Inl e \<Rightarrow>
            (let vm = (case mg_vm m of Some vm \<Rightarrow> vm | None \<Rightarrow> (pending_vm m s)\<lparr>tv_ok := False\<rparr>) in
             m\<lparr>mg_vm := Some (vm\<lparr>tv_ok := False, tv_error := Some e, tv_updated := now\<rparr>)\<rparr>)
        | Inr (res, vm) \<Rightarrow> m\<lparr>mg_vm := Some vm, mg_latest := Some res\<rparr>))"

section \<open>Path options\<close>

fun every_second :: "'a list \<Rightarrow> 'a list" where
  "every_second (x # y # xs) = y # every_second xs"
| "every_second _ = []"

definition ok_nums :: "iface_json list \<Rightarrow> int list" where
  "ok_nums ifaces = concat (map (\<lambda>i. case as_num_of (if_ia i) of Inl _ \<Rightarrow> [] | Inr n \<Rightarrow> [n]) ifaces)"

text \<open>The first interface, then those at odd positions.\<close>

definition hops_of :: "iface_json list \<Rightarrow> int list" where
  "hops_of ifaces = (if ifaces = [] then [] else ok_nums (take 1 ifaces) @ ok_nums (every_second ifaces))"

fun latency_sum :: "int \<Rightarrow> int list \<Rightarrow> int" where
  "latency_sum acc [] = acc"
| "latency_sum acc (v # vs) = (if v < 0 then -1 else latency_sum (wrap64 (acc + v)) vs)"

definition latency_total :: "int list \<Rightarrow> int" where
  "latency_total us = (if us = [] then -1 else latency_sum 0 us)"

definition path_option_of :: "manager \<Rightarrow> nat \<Rightarrow> path_json \<Rightarrow> path_option" where
  "path_option_of m i p = \<lparr>po_fingerprint = pj_fingerprint p, po_hops = hops_of (pj_ifaces p),
     po_links = (case mgr_pair_links m (pj_ifaces p) of Inl _ \<Rightarrow> None | Inr ls \<Rightarrow> Some ls),
     po_latency = latency_total (pj_latency p), po_mtu = pj_mtu p, po_expiry = pj_expiry p,
     po_best = (i = 0)\<rparr>"

definition path_options :: "manager \<Rightarrow> int \<Rightarrow> int \<Rightarrow> string + path_json list \<Rightarrow> idint_error + path_option list" where
  "path_options m src dst reply = (case validate_pair m src dst of
     Some e \<Rightarrow> Inl e
   | None \<Rightarrow> (case reply of Inl err \<Rightarrow> Inl (ProbeFailed err)
     | Inr paths \<Rightarrow> Inr (map (\<lambda>(i, p). path_option_of m i p) (enumerate 0 paths))))"

section \<open>Sessions and overlapping ticks\<close>

text \<open>
  Sets, clears and ticks from any number of goroutines.  \<open>ts_flight\<close> holds the sessions of the ticks
  whose probe is running; \<open>ts_probes\<close> records every successful probe with the session it was made for.
  \<open>Run\<close>'s overlap guard only restricts the steps further.
\<close>

record trace_sys =
  ts_mgr :: manager
  ts_flight :: "trace_session list"
  ts_probes :: "(trace_session \<times> probe_result) list"

inductive trace_step :: "trace_sys \<Rightarrow> trace_sys \<Rightarrow> bool" where
  tr_set: "mgr_set src dst fp (ts_mgr s) = Inr m \<Longrightarrow> trace_step s (s\<lparr>ts_mgr := m\<rparr>)"
| tr_clear: "trace_step s (s\<lparr>ts_mgr := mgr_clear (ts_mgr s)\<rparr>)"
| tr_begin: "tick_begin (ts_mgr s) = Some se \<Longrightarrow> trace_step s (s\<lparr>ts_flight := se # ts_flight s\<rparr>)"
| tr_end: "se \<in> set (ts_flight s) \<Longrightarrow>
    trace_step s (s\<lparr>ts_mgr := tick_end now se probed (ts_mgr s), ts_flight := remove1 se (ts_flight s),
      ts_probes := (case probed of Inl _ \<Rightarrow> ts_probes s | Inr res \<Rightarrow> (se, res) # ts_probes s)\<rparr>)"

inductive_cases trace_stepE: "trace_step s s'"

definition trace_init :: "graph \<Rightarrow> trace_sys" where
  "trace_init g = \<lparr>ts_mgr = manager_new g, ts_flight = [], ts_probes = []\<rparr>"

abbreviation trace_reachable :: "graph \<Rightarrow> trace_sys \<Rightarrow> bool" where
  "trace_reachable g s \<equiv> trace_step\<^sup>*\<^sup>* (trace_init g) s"

text \<open>The view of a session: its endpoints, and hops on exactly the links of the path.\<close>

definition view_of :: "manager \<Rightarrow> trace_session \<Rightarrow> trace_vm \<Rightarrow> bool" where
  "view_of m s v \<longleftrightarrow> tv_src v = mgr_ia m (se_src s) \<and> tv_dst v = mgr_ia m (se_dst s) \<and>
     tv_auto v = (se_fingerprint s = '''') \<and> map th_link (tv_hops v) = tv_links v \<and>
     (tv_ok v \<longleftrightarrow> tv_error v = None)"

definition trace_ok :: "manager \<Rightarrow> (trace_session \<times> probe_result) list \<Rightarrow> bool" where
  "trace_ok m probes \<longleftrightarrow> (case mg_sess m of
     None \<Rightarrow> mg_vm m = None \<and> mg_latest m = None
   | Some s \<Rightarrow> validate_pair m (se_src s) (se_dst s) = None \<and>
      (\<exists>v. mg_vm m = Some v \<and> view_of m s v \<and>
        (case mg_latest m of
           None \<Rightarrow> tv_links v = [] \<and> tv_fingerprint v = ''''
         | Some r \<Rightarrow> (s, r) \<in> set probes \<and> tv_fingerprint v = pj_fingerprint (pr_path r) \<and>
             mgr_pair_links m (pj_ifaces (pr_path r)) = Inr (tv_links v))))"

lemma trace_ok_mono: "trace_ok m probes \<Longrightarrow> set probes \<subseteq> set probes' \<Longrightarrow> trace_ok m probes'"
  by (auto simp: trace_ok_def split: option.splits)

text \<open>The indices are fixed when the manager is built.\<close>

definition same_maps :: "manager \<Rightarrow> manager \<Rightarrow> bool" where
  "same_maps m m' \<longleftrightarrow> mg_ia m' = mg_ia m \<and> mg_link m' = mg_link m \<and> mg_as m' = mg_as m"

lemma same_mapsD:
  assumes "same_maps m m'"
  shows "mgr_ia m' = mgr_ia m" "validate_pair m' = validate_pair m" "mgr_pair_links m' = mgr_pair_links m"
    "pending_vm m' = pending_vm m" "view_of m' = view_of m" "build_vm now m' = build_vm now m"
proof -
  show ia: "mgr_ia m' = mgr_ia m" and "validate_pair m' = validate_pair m"
    and pl: "mgr_pair_links m' = mgr_pair_links m"
    using assms by (auto intro!: ext simp: same_maps_def mgr_ia_def validate_pair_def mgr_pair_links_def)
  show "pending_vm m' = pending_vm m" "view_of m' = view_of m" "build_vm now m' = build_vm now m"
    by (intro ext; unfold pending_vm_def view_of_def build_vm_def ia pl; rule refl)+
qed

lemma build_vm_view:
  assumes "build_vm now m s res = Inr v"
  shows "view_of m s v" "tv_fingerprint v = pj_fingerprint (pr_path res)"
    "mgr_pair_links m (pj_ifaces (pr_path res)) = Inr (tv_links v)"
proof -
  obtain links where links: "mgr_pair_links m (pj_ifaces (pr_path res)) = Inr links"
    using assms by (auto simp: build_vm_def split: sum.splits)
  let ?egress = "if length (egress_records (pr_fwd res)) = length links then egress_records (pr_fwd res)
    else rev (egress_records (pr_rev res))"
  obtain egress where e: "length egress = length links" "tv_links v = links" "tv_error v = None" "tv_ok v"
    "tv_hops v = map (\<lambda>(rec, l). trace_hop_of rec l) (zip egress links)"
    "tv_src v = mgr_ia m (se_src s)" "tv_dst v = mgr_ia m (se_dst s)" "tv_auto v = (se_fingerprint s = '''')"
    "tv_fingerprint v = pj_fingerprint (pr_path res)"
  proof (rule that [of ?egress])
    show "length ?egress = length links"
      using assms links by (auto simp: build_vm_def Let_def split: if_splits)
  qed (use assms links in \<open>auto simp: build_vm_def Let_def split: if_splits\<close>)
  have "map th_link (map (\<lambda>(rec, l). trace_hop_of rec l) (zip egress links)) = map snd (zip egress links)"
    by (simp add: trace_hop_of_def split_def o_def)
  then have "map th_link (tv_hops v) = links" using e(1,5) by simp
  with e show "view_of m s v" by (simp add: view_of_def)
  show "tv_fingerprint v = pj_fingerprint (pr_path res)" "mgr_pair_links m (pj_ifaces (pr_path res)) = Inr (tv_links v)"
    using e links by simp_all
qed

lemma tick_end_ok:
  assumes "trace_ok m probes" "\<And>res. probed = Inr res \<Longrightarrow> (s, res) \<in> set probes"
  shows "trace_ok (tick_end now s probed m) probes"
proof (cases "mg_sess m = Some s")
  case True
  let ?r = "case probed of Inl err \<Rightarrow> Inl (ProbeFailed err) | Inr res \<Rightarrow> map_sum id (Pair res) (build_vm now m s res)"
  obtain v where v: "mg_vm m = Some v" using assms(1) True by (auto simp: trace_ok_def)
  show ?thesis
  proof (cases ?r)
    case (Inl e)
    let ?v = "v\<lparr>tv_ok := False, tv_error := Some e, tv_updated := now\<rparr>"
    have t: "tick_end now s probed m = m\<lparr>mg_vm := Some ?v\<rparr>"
      using True v Inl by (simp add: tick_end_def)
    have "same_maps m (m\<lparr>mg_vm := Some ?v\<rparr>)" by (simp add: same_maps_def)
    with assms(1) True v show ?thesis
      unfolding t by (auto simp: trace_ok_def same_mapsD view_of_def split: option.splits)
  next
    case (Inr x)
    then obtain res w where x: "probed = Inr res" "build_vm now m s res = Inr w" "x = (res, w)"
      by (cases probed; cases "build_vm now m s (projr probed)") auto
    have t: "tick_end now s probed m = m\<lparr>mg_vm := Some w, mg_latest := Some res\<rparr>"
      using True Inr x by (simp add: tick_end_def)
    have "same_maps m (m\<lparr>mg_vm := Some w, mg_latest := Some res\<rparr>)" by (simp add: same_maps_def)
    with assms True x build_vm_view [OF x(2)] show ?thesis
      unfolding t by (auto simp: trace_ok_def same_mapsD)
  qed
qed (use assms in \<open>simp add: tick_end_def\<close>)

lemma tick_end_maps: "same_maps m (tick_end now s probed m)"
  by (auto simp: tick_end_def same_maps_def Let_def split: sum.splits option.splits)

lemma mgr_set_ok:
  assumes "mgr_set src dst fp m = Inr m'"
  shows "trace_ok m' probes" "same_maps m m'"
proof -
  let ?s = "\<lparr>se_src = src, se_dst = dst, se_fingerprint = fp\<rparr>"
  have m': "m' = m\<lparr>mg_sess := Some ?s, mg_vm := Some (pending_vm m ?s), mg_latest := None\<rparr>"
    and v: "validate_pair m src dst = None"
    using assms by (auto simp: mgr_set_def Let_def split: option.splits)
  show "same_maps m m'" by (simp add: m' same_maps_def)
  then show "trace_ok m' probes"
    using v by (auto simp: trace_ok_def same_mapsD m' view_of_def pending_vm_def)
qed

lemma trace_step_ok:
  assumes "trace_step s s'" "trace_ok (ts_mgr s) (ts_probes s)"
  shows "trace_ok (ts_mgr s') (ts_probes s')"
  using assms
proof cases
  case (tr_set src dst fp m)
  then show ?thesis by (simp add: mgr_set_ok)
next
  case tr_clear
  then show ?thesis by (simp add: trace_ok_def mgr_clear_def)
next
  case (tr_end se probed now)
  let ?p = "case probed of Inl _ \<Rightarrow> ts_probes s | Inr res \<Rightarrow> (se, res) # ts_probes s"
  have "trace_ok (ts_mgr s) ?p"
    using assms(2) by (rule trace_ok_mono) (auto split: sum.splits)
  then have "trace_ok (tick_end now se probed (ts_mgr s)) ?p"
    by (rule tick_end_ok) simp
  then show ?thesis by (simp add: tr_end)
qed simp

lemma trace_reachable_ok: "trace_reachable g s \<Longrightarrow> trace_ok (ts_mgr s) (ts_probes s)"
proof (induction rule: rtranclp_induct)
  case base
  then show ?case by (simp add: trace_init_def manager_new_def trace_ok_def)
qed (rule trace_step_ok)

lemma reachable_maps: "trace_reachable g s \<Longrightarrow> same_maps (manager_new g) (ts_mgr s)"
proof (induction rule: rtranclp_induct)
  case (step s s')
  from step.hyps(2) have "same_maps (ts_mgr s) (ts_mgr s')"
    by cases (auto simp: mgr_set_ok tick_end_maps, auto simp: same_maps_def mgr_clear_def)
  with step.IH show ?case by (simp add: same_maps_def)
qed (simp add: same_maps_def trace_init_def)

text \<open>
  C31: The trace shown is the current session's, whatever sets, clears, failing probes and overlapping
  or stale ticks interleave.  There is a view exactly while there is a session; it names the session's
  ASes, which are distinct and in the graph, and its hops lie one by one on the links it lists; and the
  latest result, when there is one, comes from a probe made for this very session and is the one whose
  path and fingerprint the view shows, also after later probes have failed.
\<close>

theorem trace_session_consistent:
  assumes "trace_reachable g s" "m = ts_mgr s"
  shows "(mgr_vm m = None \<longleftrightarrow> mg_sess m = None) \<and>
    (\<forall>se v. mg_sess m = Some se \<and> mgr_vm m = Some v \<longrightarrow>
       validate_pair (manager_new g) (se_src se) (se_dst se) = None \<and> view_of (manager_new g) se v) \<and>
    (\<forall>r. mgr_latest m = Some r \<longrightarrow> (\<exists>se v. mg_sess m = Some se \<and> mgr_vm m = Some v \<and>
       (se, r) \<in> set (ts_probes s) \<and> tv_fingerprint v = pj_fingerprint (pr_path r) \<and>
       mgr_pair_links (manager_new g) (pj_ifaces (pr_path r)) = Inr (tv_links v)))"
proof -
  note ok = trace_reachable_ok [OF assms(1)] and maps = same_mapsD [OF reachable_maps [OF assms(1)]]
  show ?thesis
    using ok maps(2,3,5) unfolding assms(2) trace_ok_def mgr_vm_def mgr_latest_def
    by (cases "mg_sess (ts_mgr s)"; cases "mg_latest (ts_mgr s)") auto
qed

section \<open>What a tick shows\<close>

text \<open>
  C33: A tick of the current session draws every record on its own link.  When the path resolves to
  links and the forward stack has one egress record per link, hop \<open>k\<close> is the \<open>k\<close>-th of them; failing
  that, when the reverse stack has, hop \<open>k\<close> is the \<open>k\<close>-th from the end; in every other case, failed
  probes included, the view keeps path, hops and round-trip time and only reports the error.  A tick
  whose session is no longer the current one changes nothing.
\<close>

theorem tick_outcome:
  assumes "mg_vm m = Some v" "m' = tick_end now s probed m"
    and "hops = (\<lambda>recs links. map2 trace_hop_of recs links)"
  shows "(mg_sess m \<noteq> Some s \<longrightarrow> m' = m) \<and>
    (mg_sess m = Some s \<longrightarrow>
      (\<exists>res links w. probed = Inr res \<and> mgr_pair_links m (pj_ifaces (pr_path res)) = Inr links \<and>
         mg_vm m' = Some w \<and> mg_latest m' = Some res \<and> tv_ok w \<and> tv_links w = links \<and>
         tv_rtt_ms w = pr_rtt_ms res \<and>
         (length (egress_records (pr_fwd res)) = length links \<and> tv_hops w = hops (egress_records (pr_fwd res)) links \<or>
          length (egress_records (pr_fwd res)) \<noteq> length links \<and>
          length (egress_records (pr_rev res)) = length links \<and> tv_hops w = hops (rev (egress_records (pr_rev res))) links)) \<or>
      (\<exists>e. m' = m\<lparr>mg_vm := Some (v\<lparr>tv_ok := False, tv_error := Some e, tv_updated := now\<rparr>)\<rparr> \<and>
         (\<forall>res links. probed = Inr res \<and> mgr_pair_links m (pj_ifaces (pr_path res)) = Inr links \<longrightarrow>
            length (egress_records (pr_fwd res)) \<noteq> length links \<and>
            length (egress_records (pr_rev res)) \<noteq> length links)))"
proof (cases "mg_sess m = Some s")
  case True
  let ?fail = "\<lambda>e. m\<lparr>mg_vm := Some (v\<lparr>tv_ok := False, tv_error := Some e, tv_updated := now\<rparr>)\<rparr>"
  show ?thesis
  proof (cases probed)
    case (Inl err)
    then have "m' = ?fail (ProbeFailed err)" using assms(1,2) True by (simp add: tick_end_def)
    with Inl True show ?thesis by blast
  next
    case (Inr res)
    show ?thesis
    proof (cases "build_vm now m s res")
      case (Inl e)
      then have "m' = ?fail e" using assms(1,2) True Inr by (simp add: tick_end_def)
      moreover have "\<forall>links. mgr_pair_links m (pj_ifaces (pr_path res)) = Inr links \<longrightarrow>
          length (egress_records (pr_fwd res)) \<noteq> length links \<and> length (egress_records (pr_rev res)) \<noteq> length links"
        using Inl by (auto simp: build_vm_def Let_def split: if_splits)
      ultimately show ?thesis using True Inr by blast
    next
      case built: (Inr w)
      then have m': "m' = m\<lparr>mg_vm := Some w, mg_latest := Some res\<rparr>"
        using assms(2) True Inr by (simp add: tick_end_def)
      obtain links where links: "mgr_pair_links m (pj_ifaces (pr_path res)) = Inr links"
        using built by (auto simp: build_vm_def split: sum.splits)
      have "tv_ok w \<and> tv_links w = links \<and> tv_rtt_ms w = pr_rtt_ms res \<and>
         (length (egress_records (pr_fwd res)) = length links \<and> tv_hops w = hops (egress_records (pr_fwd res)) links \<or>
          length (egress_records (pr_fwd res)) \<noteq> length links \<and>
          length (egress_records (pr_rev res)) = length links \<and> tv_hops w = hops (rev (egress_records (pr_rev res))) links)"
        using built links assms(3) by (auto simp: build_vm_def Let_def split: if_splits)
      then have "\<exists>res links w. probed = Inr res \<and> mgr_pair_links m (pj_ifaces (pr_path res)) = Inr links \<and>
         mg_vm m' = Some w \<and> mg_latest m' = Some res \<and> tv_ok w \<and> tv_links w = links \<and>
         tv_rtt_ms w = pr_rtt_ms res \<and>
         (length (egress_records (pr_fwd res)) = length links \<and> tv_hops w = hops (egress_records (pr_fwd res)) links \<or>
          length (egress_records (pr_fwd res)) \<noteq> length links \<and>
          length (egress_records (pr_rev res)) = length links \<and> tv_hops w = hops (rev (egress_records (pr_rev res))) links)"
        using Inr links m' by (intro exI [of _ res] exI [of _ links] exI [of _ w]) simp
      with True show ?thesis by blast
    qed
  qed
qed (simp add: assms(2) tick_end_def)

section \<open>Paths over the topology\<close>

text \<open>
  A walk is a list of links, each with whether it is crossed from its A side to its B side; \<open>num\<close>
  gives the numeric id of an interface.
\<close>

definition step_ends :: "link \<times> bool \<Rightarrow> endpoint \<times> endpoint" where
  "step_ends st = (if snd st then (l_a (fst st), l_b (fst st)) else (l_b (fst st), l_a (fst st)))"

definition iface_of :: "(endpoint \<Rightarrow> 64 word) \<Rightarrow> endpoint \<Rightarrow> iface_json" where
  "iface_of num e = \<lparr>if_ia = e_ia e, if_id = num e\<rparr>"

definition walk_ifaces :: "(endpoint \<Rightarrow> 64 word) \<Rightarrow> (link \<times> bool) list \<Rightarrow> iface_json list" where
  "walk_ifaces num steps = concat (map (\<lambda>st. [iface_of num (fst (step_ends st)), iface_of num (snd (step_ends st))]) steps)"

text \<open>The names of an interface agree: its ISD-AS ends in its AS number, its id is the decimal one.\<close>

definition named :: "(endpoint \<Rightarrow> 64 word) \<Rightarrow> endpoint \<Rightarrow> bool" where
  "named num e \<longleftrightarrow> as_num_of (e_ia e) = Inr (e_as e) \<and> e_ifid e = itoa (uint (num e))"

lemma link_key_inj: "link_key a i = link_key b j \<longleftrightarrow> a = b \<and> i = j"
  using itoa_sep_inj(2) [of a i b j] by (simp add: link_key_def)

lemma as_num_of_ia:
  assumes "is_int64 n" "CHR ''-'' \<notin> set (itoa n)"
  shows "as_num_of (isd @ ''-'' @ itoa n) = Inr n"
  using assms last_index_byte_append [of "CHR ''-''" "itoa n" isd] by (simp add: as_num_of_def atoi_itoa)

lemma mg_link_get:
  assumes "wf_graph g" "l \<in> set (g_links g)" "e = l_a l \<or> e = l_b l"
  shows "mg_link (manager_new g) (link_key (e_as e) (e_ifid e)) = Some (l_id l)"
proof -
  let ?ends = "\<lambda>l. map (\<lambda>p. (p, l_id l)) (link_ends l)"
  let ?xs = "concat (map ?ends (g_links g))"
  let ?f = "\<lambda>x. Some (link_key (fst (fst x)) (snd (fst x)))"
  have "foldl (\<lambda>m l. m(link_key (e_as (l_a l)) (e_ifid (l_a l)) \<mapsto> l_id l,
      link_key (e_as (l_b l)) (e_ifid (l_b l)) \<mapsto> l_id l)) m ls = fill_map ?f snd m (concat (map ?ends ls))" for m ls
    by (induction ls arbitrary: m) (simp_all add: fill_map_def link_ends_def)
  then have idx: "mg_link (manager_new g) = fill_map ?f snd Map.empty ?xs" by (simp add: manager_new_def)
  have "map fst ?xs = concat (map link_ends (g_links g))" by (simp add: map_concat o_def)
  then have "distinct (map fst ?xs)" using assms(1) by (simp add: wf_graph_def)
  then have inj: "inj_on fst (set ?xs)" by (simp only: distinct_map)
  have "inj_on ?f (set ?xs)"
  proof (rule inj_onI)
    fix x y assume "x \<in> set ?xs" "y \<in> set ?xs" "?f x = ?f y"
    then show "x = y" using inj_onD [OF inj] by (simp add: link_key_inj prod_eq_iff [of "fst x"])
  qed
  moreover have "((e_as e, e_ifid e), l_id l) \<in> set ?xs"
    using assms(2,3) by (auto simp: link_ends_def)
  ultimately have "fill_map ?f snd Map.empty ?xs (link_key (e_as e) (e_ifid e)) = Some (snd ((e_as e, e_ifid e), l_id l))"
    by (rule fill_map_unique) simp
  then show ?thesis using idx by simp
qed

lemma step_ends_cases: "fst (step_ends st) = l_a (fst st) \<or> fst (step_ends st) = l_b (fst st)"
  by (simp add: step_ends_def)

lemma length_walk_ifaces: "length (walk_ifaces num steps) = 2 * length steps"
  by (induction steps) (simp_all add: walk_ifaces_def)

lemma pair_loop_walk:
  assumes "wf_graph g" "fst ` set steps \<subseteq> set (g_links g)" "\<forall>st\<in>set steps. named num (fst (step_ends st))"
  shows "pair_loop (mg_link (manager_new g)) (walk_ifaces num steps) = Inr (map (\<lambda>st. l_id (fst st)) steps)"
  using assms(2,3)
proof (induction steps)
  case (Cons st steps)
  let ?e = "fst (step_ends st)"
  have "mg_link (manager_new g) (link_key (e_as ?e) (e_ifid ?e)) = Some (l_id (fst st))"
    using assms(1) Cons.prems(1) step_ends_cases [of st] by (intro mg_link_get) auto
  moreover have "as_num_of (e_ia ?e) = Inr (e_as ?e)" "e_ifid ?e = itoa (uint (num ?e))"
    using Cons.prems(2) by (simp_all add: named_def)
  ultimately show ?case
    using Cons by (simp add: walk_ifaces_def iface_of_def)
qed (simp add: walk_ifaces_def)

lemma ok_nums_walk:
  assumes "\<forall>st\<in>set steps. named num (snd (step_ends st))"
  shows "ok_nums (every_second (walk_ifaces num steps)) = map (\<lambda>st. e_as (snd (step_ends st))) steps"
  using assms
proof (induction steps)
  case (Cons st steps)
  then show ?case by (simp add: walk_ifaces_def ok_nums_def iface_of_def named_def)
qed (simp add: walk_ifaces_def ok_nums_def)

text \<open>
  C34: The manager reads a path back exactly: flattening a walk over the links of the graph into path
  interfaces, as sciond reports paths, and resolving those gives the walk's link ids in order and its
  ASes in order, in whichever direction each link is crossed.
\<close>

theorem path_links_roundtrip:
  assumes "wf_graph g" "fst ` set steps \<subseteq> set (g_links g)"
    and "\<forall>st\<in>set steps. named num (fst (step_ends st)) \<and> named num (snd (step_ends st))"
  shows "mgr_pair_links (manager_new g) (walk_ifaces num steps) = Inr (map (\<lambda>st. l_id (fst st)) steps) \<and>
    hops_of (walk_ifaces num steps) =
      (case steps of [] \<Rightarrow> [] | st # _ \<Rightarrow> e_as (fst (step_ends st)) # map (\<lambda>st. e_as (snd (step_ends st))) steps)"
proof -
  have "\<forall>st\<in>set steps. named num (fst (step_ends st))" "\<forall>st\<in>set steps. named num (snd (step_ends st))"
    using assms(3) by auto
  note loop = pair_loop_walk [OF assms(1,2) this(1)] and second = ok_nums_walk [OF this(2)]
  have "hops_of (walk_ifaces num steps) =
      (case steps of [] \<Rightarrow> [] | st # _ \<Rightarrow> e_as (fst (step_ends st)) # map (\<lambda>st. e_as (snd (step_ends st))) steps)"
  proof (cases steps)
    case (Cons st rest)
    have "take 1 (walk_ifaces num steps) = [iface_of num (fst (step_ends st))]" "walk_ifaces num steps \<noteq> []"
      by (simp_all add: Cons walk_ifaces_def)
    moreover have "as_num_of (e_ia (fst (step_ends st))) = Inr (e_as (fst (step_ends st)))"
      using assms(3) Cons by (simp add: named_def)
    ultimately show ?thesis
      unfolding hops_of_def second by (simp add: ok_nums_def iface_of_def Cons)
  qed (simp add: hops_of_def walk_ifaces_def)
  then show ?thesis
    using loop by (simp add: mgr_pair_links_def length_walk_ifaces)
qed

section \<open>Latency totals\<close>

lemma latency_sum_neg: "\<exists>v\<in>set us. v < 0 \<Longrightarrow> latency_sum acc us = -1"
  by (induction us arbitrary: acc) auto

lemma latency_sum_exact:
  "\<forall>v\<in>set us. 0 \<le> v \<Longrightarrow> 0 \<le> acc \<Longrightarrow> acc + sum_list us \<le> max_int64 \<Longrightarrow> latency_sum acc us = acc + sum_list us"
proof (induction us arbitrary: acc)
  case (Cons v us)
  have "0 \<le> sum_list us" using Cons.prems(1) by (intro sum_list_nonneg) auto
  then have "is_int64 (acc + v)" using Cons.prems by (simp add: is_int64_def min_int64_def)
  then show ?case using Cons by (simp add: add.assoc)
qed simp

text \<open>The total is \<open>-1\<close> when anything is unset, and the exact sum otherwise, up to 292 thousand years.\<close>

lemma latency_total_spec:
  assumes "sum_list us \<le> max_int64"
  shows "latency_total us = (if us = [] \<or> (\<exists>v\<in>set us. v < 0) then -1 else sum_list us)"
  using assms latency_sum_neg [of us 0] latency_sum_exact [of us 0]
  by (auto simp: latency_total_def not_less)

section \<open>The HTTP prober\<close>

text \<open>
  \<open>NewHTTPProber\<close> and its two calls.  The HTTP client and the JSON codec are parameters; an unset
  management address or ISD-AS is the empty string, as for Go's missing map keys.
\<close>

record http_prober =
  hp_port :: int
  hp_reflector :: int
  hp_mgmt :: "int \<rightharpoonup> string"
  hp_ia :: "int \<rightharpoonup> string"

datatype prober_error = Transport string | ProberStatus int string | BadReply string

definition http_prober_new :: "graph \<Rightarrow> int \<Rightarrow> int \<Rightarrow> http_prober" where
  "http_prober_new g port reflector = \<lparr>hp_port = port, hp_reflector = reflector,
     hp_mgmt = foldl (\<lambda>m a. m(a_num a \<mapsto> a_mgmt a)) Map.empty (g_ases g),
     hp_ia = foldl (\<lambda>m a. m(a_num a \<mapsto> a_ia a)) Map.empty (g_ases g)\<rparr>"

abbreviation str_at :: "('k \<rightharpoonup> string) \<Rightarrow> 'k \<Rightarrow> string" where
  "str_at m k \<equiv> case m k of None \<Rightarrow> '''' | Some s \<Rightarrow> s"

text \<open>\<open>url.QueryEscape\<close>.\<close>

definition upper_hex :: "nat \<Rightarrow> char" where
  "upper_hex d = (if d < 10 then char_of (48 + d) else char_of (55 + d))"

definition query_safe :: "char \<Rightarrow> bool" where
  "query_safe c \<longleftrightarrow> alphanumeric c \<or> c \<in> set ''-_.~''"

definition query_escape :: "string \<Rightarrow> string" where
  "query_escape s = concat (map (\<lambda>c. if query_safe c then [c] else if c = CHR '' '' then ''+''
     else [CHR ''%'', upper_hex (of_char c div 16), upper_hex (of_char c mod 16)]) s)"

text \<open>\<open>do\<close>: the body of a failure is expected to carry the message, decoded by \<open>err_of\<close>.\<close>

definition prober_do ::
  "(string \<Rightarrow> string) \<Rightarrow> (string \<Rightarrow> string + 'a) \<Rightarrow> http_reply \<Rightarrow> prober_error + 'a" where
  "prober_do err_of decode reply = (case reply of
     Inl err \<Rightarrow> Inl (Transport err)
   | Inr (status, body) \<Rightarrow>
       if status \<noteq> 200 then Inl (ProberStatus status (err_of body))
       else (case decode body of Inl err \<Rightarrow> Inl (BadReply err) | Inr x \<Rightarrow> Inr x))"

definition prober_paths ::
  "http_prober \<Rightarrow> (http_request \<Rightarrow> http_reply) \<Rightarrow> (string \<Rightarrow> string) \<Rightarrow> (string \<Rightarrow> string + 'a) \<Rightarrow> int \<Rightarrow> int \<Rightarrow> prober_error + 'a" where
  "prober_paths p net err_of decode src dst =
     prober_do err_of decode (net (http_get (''http://'' @ join_host_port (str_at (hp_mgmt p) src) (itoa (hp_port p)) @
       ''/api/v1/paths?dst='' @ query_escape (str_at (hp_ia p) dst))))"

definition prober_probe ::
  "http_prober \<Rightarrow> (http_request \<Rightarrow> http_reply) \<Rightarrow> ((string \<times> string) list \<Rightarrow> string) \<Rightarrow> (string \<Rightarrow> string) \<Rightarrow>
     (string \<Rightarrow> string + 'a) \<Rightarrow> int \<Rightarrow> int \<Rightarrow> string \<Rightarrow> prober_error + 'a" where
  "prober_probe p net marshal err_of decode src dst fp =
     (let remote = str_at (hp_ia p) dst @ '','' @ join_host_port (str_at (hp_mgmt p) dst) (itoa (hp_reflector p)) in
      prober_do err_of decode (net \<lparr>rq_method = ''POST'',
        rq_url = ''http://'' @ join_host_port (str_at (hp_mgmt p) src) (itoa (hp_port p)) @ ''/api/v1/probe'',
        rq_body = Some (marshal [(''fingerprint'', fp), (''remote'', remote)])\<rparr>))"

lemma query_escape_ia: "query_escape ''1-ff00:0:110'' = ''1-ff00%3A0%3A110''"
  by code_simp

subsection \<open>A concrete session\<close>

definition id_end :: "int \<Rightarrow> endpoint" where
  "id_end n = \<lparr>e_ia = ''1-'' @ itoa n, e_as = n, e_ifid = ''2'', e_ip = '''', e_link_to = ''core''\<rparr>"

definition id_graph :: graph where
  "id_graph = \<lparr>g_ases = [\<lparr>a_ia = ''1-150'', a_num = 150, a_core = True, a_mgmt = ''a''\<rparr>,
     \<lparr>a_ia = ''1-151'', a_num = 151, a_core = True, a_mgmt = ''b''\<rparr>],
   g_links = [\<lparr>l_id = ''150-151'', l_type = ''core'', l_subnet = ''link 1'', l_a = id_end 150, l_b = id_end 151\<rparr>]\<rparr>"

definition id_steps :: "(link \<times> bool) list" where
  "id_steps = [(hd (g_links id_graph), False)]"

definition id_record :: hop_record where
  "id_record = \<lparr>hr_hop = 0, hr_ia = ''1-151'', hr_source = True, hr_ingress = False, hr_egress = True,
     hr_aggregated = False, hr_encrypted = False, hr_verified = True, hr_node_id = None, hr_igr_ifid = None,
     hr_egr_ifid = None, hr_rtt_next = Some 900, hr_tx_pct = None, hr_tstamp = None, hr_queue = None\<rparr>"

definition id_result :: probe_result where
  "id_result = \<lparr>pr_path = \<lparr>pj_fingerprint = ''f'', pj_mtu = 1400, pj_expiry = '''',
     pj_ifaces = walk_ifaces (\<lambda>_. 2) id_steps, pj_latency = [900]\<rparr>, pr_rtt_ms = Fin 2, pr_exceeded = False,
     pr_fwd = [], pr_rev = [id_record]\<rparr>"

definition id_session :: trace_session where
  "id_session = \<lparr>se_src = 151, se_dst = 150, se_fingerprint = ''''\<rparr>"

definition id_manager :: manager where
  "id_manager = projr (mgr_set 151 150 '''' (manager_new id_graph))"

lemma id_set: "mgr_set 151 150 '''' (manager_new id_graph) = Inr id_manager"
proof -
  have "\<not> isl (mgr_set 151 150 '''' (manager_new id_graph))" by code_simp
  then show ?thesis by (simp add: id_manager_def)
qed

lemma id_tick: "mg_sess id_manager = Some id_session"
  "mg_latest (tick_end 5 id_session (Inr id_result) id_manager) = Some id_result"
  "map_option tv_links (mg_vm (tick_end 5 id_session (Inr id_result) id_manager)) = Some [''150-151'']"
  by code_simp+

theorem trace_session_consistent_witness:
  "\<exists>s v. trace_reachable id_graph s \<and> mgr_latest (ts_mgr s) = Some id_result \<and> mgr_vm (ts_mgr s) = Some v \<and>
     tv_fingerprint v = ''f''"
proof -
  obtain s where reach: "trace_reachable id_graph s" and latest: "mgr_latest (ts_mgr s) = Some id_result"
  proof (rule that)
    let ?s1 = "(trace_init id_graph)\<lparr>ts_mgr := id_manager\<rparr>"
    let ?s2 = "?s1\<lparr>ts_flight := id_session # ts_flight ?s1\<rparr>"
    let ?s3 = "?s2\<lparr>ts_mgr := tick_end 5 id_session (Inr id_result) (ts_mgr ?s2),
      ts_flight := remove1 id_session (ts_flight ?s2),
      ts_probes := (case (Inr id_result :: string + probe_result) of
         Inl _ \<Rightarrow> ts_probes ?s2 | Inr res \<Rightarrow> (id_session, res) # ts_probes ?s2)\<rparr>"
    have s1: "trace_step (trace_init id_graph) ?s1"
      by (rule tr_set [of 151 150 "''''"]) (simp add: trace_init_def id_set)
    have s2: "trace_step ?s1 ?s2" by (rule tr_begin) (simp add: tick_begin_def id_tick)
    have s3: "trace_step ?s2 ?s3" by (rule tr_end) simp
    show "trace_reachable id_graph ?s3"
      by (rule rtranclp.rtrancl_into_rtrancl [where r = trace_step, OF _ s3],
        rule rtranclp.rtrancl_into_rtrancl [where r = trace_step, OF _ s2],
        rule r_into_rtranclp [where r = trace_step, OF s1])
    show "mgr_latest (ts_mgr ?s3) = Some id_result" by (simp add: mgr_latest_def id_tick)
  qed
  from trace_session_consistent [OF reach refl] latest obtain v where
    "mgr_vm (ts_mgr s) = Some v" "tv_fingerprint v = pj_fingerprint (pr_path id_result)" by blast
  with reach latest show ?thesis by (auto simp: id_result_def)
qed

theorem tick_outcome_witness:
  "\<exists>w. mg_vm (tick_end 5 id_session (Inr id_result) id_manager) = Some w \<and>
     tv_hops w = [trace_hop_of id_record ''150-151'']"
proof -
  obtain v where v: "mg_vm id_manager = Some v"
  proof -
    have "mg_vm id_manager \<noteq> None" by code_simp
    then show ?thesis using that by blast
  qed
  have "mgr_pair_links id_manager (pj_ifaces (pr_path id_result)) = Inr [''150-151'']" by code_simp
  then show ?thesis
    using tick_outcome [OF v refl refl, where now = 5 and s = id_session and probed = "Inr id_result"] id_tick(1)
    by (auto simp: id_result_def egress_records_def id_record_def)
qed

theorem path_links_roundtrip_witness:
  "mgr_pair_links (manager_new id_graph) (walk_ifaces (\<lambda>_. 2) id_steps) = Inr [''150-151''] \<and>
   hops_of (walk_ifaces (\<lambda>_. 2) id_steps) = [151, 150]"
proof -
  have wf: "wf_graph id_graph" by code_simp
  have sub: "fst ` set id_steps \<subseteq> set (g_links id_graph)" by (simp add: id_steps_def id_graph_def)
  have "named (\<lambda>_. 2) (id_end 150)" "named (\<lambda>_. 2) (id_end 151)" by code_simp+
  then have "\<forall>st\<in>set id_steps. named (\<lambda>_. 2) (fst (step_ends st)) \<and> named (\<lambda>_. 2) (snd (step_ends st))"
    by (simp add: id_steps_def id_graph_def step_ends_def)
  from path_links_roundtrip [OF wf sub this] show ?thesis
    by (simp add: id_steps_def id_graph_def step_ends_def id_end_def)
qed

end
