(* ===== verification/Prober.thy ===== *)
theory Prober
  imports Idint "HOL-Library.Product_Lexorder" "HOL-Library.Multiset"
begin

text \<open>
  \<open>idint-probed\<close>: the sidecar that probes SCION paths.  Path metadata, raw path headers and decoded
  ID-INT reports come from the SCION stack and are data of the model; the sockets, the daemon and the
  telemetry verification are stages with outcomes.  Modelled: the map from hop fields to ASes, the
  ordering and selection of paths, the conversion of reports, the probe's chain of stages and the HTTP
  server around it.
\<close>

unbundle bit_operations_syntax

section \<open>Paths and reports of the SCION stack\<close>

text \<open>The type variable is \<open>addr.IA\<close>; a path's fingerprint is a function of its interfaces.\<close>

record 'ia path_md =
  md_ifaces :: "('ia \<times> 64 word) list"
  md_latency :: "int list"
  md_mtu :: "16 word"
  md_expiry :: int

record seg_meta =
  sm_len0 :: "64 word"
  sm_len1 :: "64 word"
  sm_len2 :: "64 word"
  sm_num_inf :: nat
  sm_peer0 :: bool
  sm_peer1 :: bool
  sm_peer2 :: bool

record int_hop =
  ih_index :: "64 word"
  ih_source :: bool
  ih_ingress :: bool
  ih_egress :: bool
  ih_aggregated :: bool
  ih_encrypted :: bool
  ih_node_id :: "32 word option"
  ih_igr_port :: "16 word option"
  ih_egr_port :: "16 word option"
  ih_len :: "nat \<Rightarrow> nat"
  ih_slot :: "nat \<Rightarrow> 64 word"

record int_report =
  rp_data :: "int_hop list"
  rp_instr :: "nat \<Rightarrow> 8 word"
  rp_exceeded :: bool

section \<open>From hop fields to interfaces\<close>

definition rev_segs :: "seg_meta \<Rightarrow> seg_meta" where
  "rev_segs d =
     (if 0 < sm_len2 d then d\<lparr>sm_len0 := sm_len2 d, sm_len2 := sm_len0 d, sm_peer0 := sm_peer2 d, sm_peer2 := sm_peer0 d\<rparr>
      else if 0 < sm_len1 d then d\<lparr>sm_len0 := sm_len1 d, sm_len1 := sm_len0 d, sm_peer0 := sm_peer1 d, sm_peer1 := sm_peer0 d\<rparr>
      else d)"

text \<open>
  The indices at which the segment changes, after the two turns of the loop over peering info
  fields; Go's \<open>uint\<close> arithmetic wraps.
\<close>

definition seg_changes :: "seg_meta \<Rightarrow> 64 word \<times> 64 word \<times> 64 word" where
  "seg_changes d =
     (let c0 = sm_len0 d; c1 = c0 + sm_len1 d; c2 = c1 + sm_len2 d;
          c0' = (if 1 < sm_num_inf d \<and> sm_peer0 d then c1 else c0);
          c1' = (if 2 < sm_num_inf d \<and> sm_peer1 d then c2 else c1) in (c0', c1', c2))"

definition hopfield_iface :: "seg_meta \<Rightarrow> bool \<Rightarrow> 64 word \<Rightarrow> 64 word" where
  "hopfield_iface d reverse i =
     (case seg_changes (if reverse then rev_segs d else d) of (c0, c1, c2) \<Rightarrow>
        if 0 < i then (if i < c0 then 2 * i - 1 else if i < c1 then 2 * i - 3 else 2 * i - 5) else 0)"

definition fwd_path_meta :: "'ia path_md \<Rightarrow> seg_meta \<Rightarrow> 64 word \<Rightarrow> string + 'ia" where
  "fwd_path_meta md d i = (let j = hopfield_iface d False i in
     if j < of_nat (length (md_ifaces md)) then Inr (fst (md_ifaces md ! unat j)) else Inl ''hop index out of range'')"

definition rev_path_meta :: "'ia path_md \<Rightarrow> seg_meta \<Rightarrow> 64 word \<Rightarrow> string + 'ia" where
  "rev_path_meta md d i = (let j = hopfield_iface d True i; length = of_nat (length (md_ifaces md)) in
     if j < length then Inr (fst (md_ifaces md ! unat (length - j - 1))) else Inl ''hop index out of range'')"

section \<open>Wire conversion\<close>

definition path_to_json :: "('ia \<Rightarrow> string) \<Rightarrow> (('ia \<times> 64 word) list \<Rightarrow> string) \<Rightarrow> (int \<Rightarrow> string) \<Rightarrow> 'ia path_md \<Rightarrow> path_json" where
  "path_to_json ia_str fprint fmt md = \<lparr>pj_fingerprint = fprint (md_ifaces md), pj_mtu = uint (md_mtu md),
     pj_expiry = fmt (md_expiry md),
     pj_ifaces = map (\<lambda>(ia, n). \<lparr>if_ia = ia_str ia, if_id = n\<rparr>) (md_ifaces md),
     pj_latency = map (\<lambda>d. if d < 0 then -1 else d div 1000) (md_latency md)\<rparr>"

text \<open>The instruction codes of the \<open>idint\<close> package.\<close>

record instr_codes =
  ic_rtt_next :: "8 word"
  ic_egress_tx :: "8 word"
  ic_ingress_ts :: "8 word"
  ic_queue_len :: "8 word"

definition fixed_instructions :: "instr_codes \<Rightarrow> nat \<Rightarrow> 8 word" where
  "fixed_instructions ic s = [ic_rtt_next ic, ic_egress_tx ic, ic_ingress_ts ic, ic_queue_len ic] ! s"

text \<open>One turn of the slot loop: the \<open>switch\<close> on the report's instruction.\<close>

definition record_slot :: "instr_codes \<Rightarrow> (nat \<Rightarrow> 8 word) \<Rightarrow> int_hop \<Rightarrow> hop_record \<Rightarrow> nat \<Rightarrow> hop_record" where
  "record_slot ic instr hop r s =
     (if ih_len hop s = 0 then r
      else let val = ih_slot hop s in
        if instr s = ic_rtt_next ic then r\<lparr>hr_rtt_next := Some (sint val)\<rparr>
        else if instr s = ic_egress_tx ic
          then r\<lparr>hr_tx_pct := Some (Fin 100 * f64_of_int (uint val) / Fin 4294967295)\<rparr>
        else if instr s = ic_ingress_ts ic then r\<lparr>hr_tstamp := Some val\<rparr>
        else if instr s = ic_queue_len ic then r\<lparr>hr_queue := Some (sint val)\<rparr>
        else r)"

definition record_of :: "instr_codes \<Rightarrow> (nat \<Rightarrow> 8 word) \<Rightarrow> string \<Rightarrow> bool \<Rightarrow> int_hop \<Rightarrow> hop_record" where
  "record_of ic instr ia verified hop = foldl (record_slot ic instr hop)
     \<lparr>hr_hop = uint (ih_index hop), hr_ia = ia, hr_source = ih_source hop, hr_ingress = ih_ingress hop,
      hr_egress = ih_egress hop, hr_aggregated = ih_aggregated hop, hr_encrypted = ih_encrypted hop,
      hr_verified = verified, hr_node_id = ih_node_id hop, hr_igr_ifid = ih_igr_port hop,
      hr_egr_ifid = ih_egr_port hop, hr_rtt_next = None, hr_tx_pct = None, hr_tstamp = None, hr_queue = None\<rparr>
     [0..<4]"

fun records_loop ::
  "instr_codes \<Rightarrow> (nat \<Rightarrow> 8 word) \<Rightarrow> ('ia \<Rightarrow> string) \<Rightarrow> (64 word \<Rightarrow> string + 'ia) \<Rightarrow> bool \<Rightarrow> int_hop list \<Rightarrow> string + hop_record list"
where
  "records_loop ic instr ia_str hop_to_ia verified [] = Inr []"
| "records_loop ic instr ia_str hop_to_ia verified (hop # hops) = (case hop_to_ia (ih_index hop) of
     Inl err \<Rightarrow> Inl (''hop '' @ itoa (uint (ih_index hop)) @ '': '' @ err)
   | Inr ia \<Rightarrow> (case records_loop ic instr ia_str hop_to_ia verified hops of
       Inl err \<Rightarrow> Inl err
     | Inr rs \<Rightarrow> Inr (record_of ic instr (ia_str ia) verified hop # rs)))"

definition records ::
  "instr_codes \<Rightarrow> ('ia \<Rightarrow> string) \<Rightarrow> int_report \<Rightarrow> (64 word \<Rightarrow> string + 'ia) \<Rightarrow> bool \<Rightarrow> string + hop_record list" where
  "records ic ia_str report hop_to_ia verified =
     records_loop ic (rp_instr report) ia_str hop_to_ia verified (rp_data report)"

section \<open>The order of paths\<close>

record path_sort_key =
  sk_unset :: bool
  sk_total :: int
  sk_ifaces :: nat
  sk_fingerprint :: string

definition sort_key_of :: "(('ia \<times> 64 word) list \<Rightarrow> string) \<Rightarrow> 'ia path_md \<Rightarrow> path_sort_key" where
  "sort_key_of fprint md = foldl (\<lambda>k d. if d < 0 then k\<lparr>sk_unset := True\<rparr> else k\<lparr>sk_total := wrap64 (sk_total k + d)\<rparr>)
     \<lparr>sk_unset = False, sk_total = 0, sk_ifaces = length (md_ifaces md), sk_fingerprint = fprint (md_ifaces md)\<rparr>
     (md_latency md)"

definition path_less :: "path_sort_key \<Rightarrow> path_sort_key \<Rightarrow> bool" where
  "path_less a b =
     (if sk_unset a \<noteq> sk_unset b then \<not> sk_unset a
      else if \<not> sk_unset a \<and> sk_total a \<noteq> sk_total b then sk_total a < sk_total b
      else if sk_ifaces a \<noteq> sk_ifaces b then sk_ifaces a < sk_ifaces b
      else sk_fingerprint a < sk_fingerprint b)"

text \<open>\<open>sort.SliceStable\<close>: an element is inserted before the first one it does not follow.\<close>

fun stable_insert :: "('a \<Rightarrow> 'a \<Rightarrow> bool) \<Rightarrow> 'a \<Rightarrow> 'a list \<Rightarrow> 'a list" where
  "stable_insert lt x [] = [x]"
| "stable_insert lt x (y # ys) = (if lt y x then y # stable_insert lt x ys else x # y # ys)"

definition slice_stable :: "('a \<Rightarrow> 'a \<Rightarrow> bool) \<Rightarrow> 'a list \<Rightarrow> 'a list" where
  "slice_stable lt xs = foldr (stable_insert lt) xs []"

definition sort_paths :: "(('ia \<times> 64 word) list \<Rightarrow> string) \<Rightarrow> 'ia path_md list \<Rightarrow> 'ia path_md list" where
  "sort_paths fprint paths = map fst (slice_stable (\<lambda>p q. path_less (snd p) (snd q))
     (map (\<lambda>p. (p, sort_key_of fprint p)) paths))"

section \<open>The AS of a hop field\<close>

text \<open>
  The shape of a path: the ASes it crosses, with two interfaces per link, and its segments' hop
  counts.  Two joined segments share the AS at the joint, which then has a hop field in each; over a
  peering link they do not.
\<close>

definition crossing :: "'ia list \<Rightarrow> ('ia \<times> 64 word) list \<Rightarrow> bool" where
  "crossing ases ifs \<longleftrightarrow> 2 \<le> length ases \<and> length ases < 256 \<and> length ifs = 2 * (length ases - 1) \<and>
     (\<forall>k<length ases - 1. fst (ifs ! (2 * k)) = ases ! k \<and> fst (ifs ! (2 * k + 1)) = ases ! (k + 1))"

definition segs_ok :: "seg_meta \<Rightarrow> bool \<Rightarrow> nat \<Rightarrow> nat \<Rightarrow> nat \<Rightarrow> bool" where
  "segs_ok d peering n0 n1 n2 \<longleftrightarrow>
     sm_len0 d = of_nat n0 \<and> sm_len1 d = of_nat n1 \<and> sm_len2 d = of_nat n2 \<and>
     n0 < 64 \<and> n1 < 64 \<and> n2 < 64 \<and>
     (if peering then 0 < n0 \<and> 0 < n1 \<and> n2 = 0 \<and> sm_num_inf d = 2 \<and> sm_peer0 d \<and> sm_peer1 d
      else 2 \<le> n0 \<and> (n1 = 0 \<or> 2 \<le> n1) \<and> (n2 = 0 \<or> 2 \<le> n2 \<and> 2 \<le> n1) \<and>
        sm_num_inf d = (if n1 = 0 then 1 else if n2 = 0 then 2 else 3) \<and>
        \<not> sm_peer0 d \<and> \<not> sm_peer1 d \<and> \<not> sm_peer2 d)"

definition num_ases :: "bool \<Rightarrow> nat \<Rightarrow> nat \<Rightarrow> nat \<Rightarrow> nat" where
  "num_ases peering n0 n1 n2 = (if peering then n0 + n1 else n0 + (n1 - 1) + (n2 - 1))"

definition hop_as :: "bool \<Rightarrow> nat \<Rightarrow> nat \<Rightarrow> nat \<Rightarrow> nat" where
  "hop_as peering n0 n1 i = (if peering \<or> i < n0 then i else if i < n0 + n1 then i - 1 else i - 2)"

lemma unat_nat64: "k < 2 ^ 64 \<Longrightarrow> unat (of_nat k :: 64 word) = k"
  by (simp add: unat_of_nat take_bit_nat_eq_self)

lemma nat64_less: "a < 2 ^ 64 \<Longrightarrow> b < 2 ^ 64 \<Longrightarrow> (of_nat a :: 64 word) < of_nat b \<longleftrightarrow> a < b"
  by (simp add: word_less_nat_alt unat_nat64)

lemma nat64_double_diff: "k \<le> 2 * i \<Longrightarrow> 2 * (of_nat i :: 64 word) - of_nat k = of_nat (2 * i - k)"
  by (simp add: of_nat_diff)

lemma hopfield_iface_as:
  assumes "segs_ok d peering n0 n1 n2" "i < n0 + n1 + n2"
  shows "hopfield_iface d False (of_nat i) = of_nat (2 * hop_as peering n0 n1 i - 1)"
proof (cases "i = 0")
  case True
  then show ?thesis using assms by (auto simp: hopfield_iface_def hop_as_def segs_ok_def split: if_splits prod.splits)
next
  case False
  have n: "n0 < 64" "n1 < 64" "n2 < 64" using assms(1) by (simp_all add: segs_ok_def)
  have c: "sm_len0 d = of_nat n0" "sm_len0 d + sm_len1 d = of_nat (n0 + n1)"
    using assms(1) by (simp_all add: segs_ok_def)
  have lt: "(0::64 word) < of_nat i" "(of_nat i :: 64 word) < of_nat n0 \<longleftrightarrow> i < n0"
    "(of_nat i :: 64 word) < of_nat (n0 + n1) \<longleftrightarrow> i < n0 + n1"
    using False n assms(2) nat64_less [of 0 i] nat64_less [of i n0] nat64_less [of i "n0 + n1"] by simp_all
  have d: "2 * (of_nat i :: 64 word) - 1 = of_nat (2 * i - 1)"
    "2 \<le> i \<Longrightarrow> 2 * (of_nat i :: 64 word) - 3 = of_nat (2 * (i - 1) - 1)"
    "3 \<le> i \<Longrightarrow> 2 * (of_nat i :: 64 word) - 5 = of_nat (2 * (i - 2) - 1)"
    using False nat64_double_diff [of 1 i] nat64_double_diff [of 3 i] nat64_double_diff [of 5 i]
    by (simp_all add: diff_mult_distrib2)
  show ?thesis
  proof (cases peering)
    case True
    then have "seg_changes d = (of_nat (n0 + n1), of_nat (n0 + n1), sm_len0 d + sm_len1 d + sm_len2 d)" "n2 = 0"
      using assms(1) c by (simp_all add: seg_changes_def segs_ok_def Let_def)
    then show ?thesis using True lt d assms(2) by (simp add: hopfield_iface_def hop_as_def)
  next
    case nopeer: False
    then have s: "seg_changes d = (of_nat n0, of_nat (n0 + n1), sm_len0 d + sm_len1 d + sm_len2 d)"
      "2 \<le> n0" "n1 = 0 \<or> 2 \<le> n1" "n2 = 0 \<or> 2 \<le> n1"
      using assms(1) c by (auto simp: seg_changes_def segs_ok_def Let_def)
    then show ?thesis
      using nopeer lt d assms(2) by (auto simp: hopfield_iface_def hop_as_def)
  qed
qed

lemma rev_segs_ok:
  assumes "segs_ok d peering n0 n1 n2"
  shows "segs_ok (rev_segs d) peering (if 0 < n2 then n2 else if 0 < n1 then n1 else n0)
    (if 0 < n2 then n1 else if 0 < n1 then n0 else 0) (if 0 < n2 then n0 else 0)"
proof -
  have "(0::64 word) < of_nat n1 \<longleftrightarrow> 0 < n1" "(0::64 word) < of_nat n2 \<longleftrightarrow> 0 < n2"
    using assms nat64_less [of 0 n1] nat64_less [of 0 n2] by (simp_all add: segs_ok_def)
  then show ?thesis using assms by (auto simp: segs_ok_def rev_segs_def split: if_splits)
qed

lemma hopfield_reverse: "hopfield_iface d True i = hopfield_iface (rev_segs d) False i"
  by (simp add: hopfield_iface_def)

lemma hop_as_less:
  assumes "segs_ok d peering n0 n1 n2" "i < n0 + n1 + n2"
  shows "hop_as peering n0 n1 i < num_ases peering n0 n1 n2"
  using assms by (auto simp: segs_ok_def hop_as_def num_ases_def split: if_splits)

lemma crossing_ia:
  assumes "crossing ases ifs" "a < length ases"
  shows "2 * a - 1 < length ifs" "fst (ifs ! (2 * a - 1)) = ases ! a"
    "fst (ifs ! (length ifs - (2 * a - 1) - 1)) = rev ases ! a"
proof -
  let ?n = "length ases"
  have ifs: "length ifs = 2 * (?n - 1)" "2 \<le> ?n" and
    at: "\<And>k. k < ?n - 1 \<Longrightarrow> fst (ifs ! (2 * k)) = ases ! k \<and> fst (ifs ! (2 * k + 1)) = ases ! (k + 1)"
    using assms(1) by (auto simp: crossing_def)
  show "2 * a - 1 < length ifs" using ifs assms(2) by simp
  show "fst (ifs ! (2 * a - 1)) = ases ! a"
    using at [of "a - 1"] at [of 0] assms(2) ifs(2) by (cases a) auto
  have r: "rev ases ! a = ases ! (?n - 1 - a)" using assms(2) by (simp add: rev_nth)
  show "fst (ifs ! (length ifs - (2 * a - 1) - 1)) = rev ases ! a"
  proof (cases "a = 0")
    case True
    have "length ifs - (2 * a - 1) - 1 = 2 * (?n - 2) + 1" using True ifs by simp
    moreover have "Suc (?n - 2) = ?n - Suc 0" using ifs(2) by simp
    ultimately show ?thesis using at [of "?n - 2"] True r ifs by simp
  next
    case False
    have "length ifs - (2 * a - 1) - 1 = 2 * (?n - 1 - a)" using False ifs assms(2) by simp
    then show ?thesis using at [of "?n - 1 - a"] False r assms(2) by simp
  qed
qed

text \<open>
  C35: Telemetry is attributed to the AS that produced it.  On a path that crosses the ASes
  \<open>ases\<close> in segments of \<open>n0\<close>, \<open>n1\<close> and \<open>n2\<close> hop fields, with or without a peering link, hop field
  \<open>i\<close> maps to the AS the forward path has there, joints counted once, and to the one the reversed
  path has there for the reverse report; no index of the path is out of range.
\<close>

theorem hop_attribution:
  assumes "segs_ok d peering n0 n1 n2" "crossing ases (md_ifaces md)"
    and "length ases = num_ases peering n0 n1 n2" "i < n0 + n1 + n2"
    and "(r0, r1, r2) = (if 0 < n2 then (n2, n1, n0) else if 0 < n1 then (n1, n0, 0) else (n0, 0, 0))"
  shows "fwd_path_meta md d (of_nat i) = Inr (ases ! hop_as peering n0 n1 i) \<and>
    rev_path_meta md d (of_nat i) = Inr (rev ases ! hop_as peering r0 r1 i)"
proof -
  let ?len = "length (md_ifaces md)"
  have len: "?len < 2 ^ 64" using assms(2) by (auto simp: crossing_def)
  have rsegs: "segs_ok (rev_segs d) peering r0 r1 r2"
    using rev_segs_ok [OF assms(1)] assms(5) by (auto split: if_splits)
  have r: "i < r0 + r1 + r2" "num_ases peering r0 r1 r2 = num_ases peering n0 n1 n2"
    using assms(1,4,5) by (auto simp: num_ases_def segs_ok_def split: if_splits)
  let ?a = "hop_as peering n0 n1 i" and ?b = "hop_as peering r0 r1 i"
  have a: "?a < length ases" and b: "?b < length ases"
    using hop_as_less [OF assms(1,4)] hop_as_less [OF rsegs r(1)] assms(3) r(2) by simp_all
  note A = crossing_ia [OF assms(2) a] and B = crossing_ia [OF assms(2) b]
  have small: "2 * ?a - 1 < 2 ^ 64" "2 * ?b - 1 < 2 ^ 64" using A(1) B(1) len by simp_all
  have "fwd_path_meta md d (of_nat i) = Inr (ases ! ?a)"
    using A small(1) len unfolding fwd_path_meta_def hopfield_iface_as [OF assms(1,4)] Let_def
    by (simp add: nat64_less unat_nat64)
  moreover have w: "(of_nat ?len - of_nat (2 * ?b - 1) - 1 :: 64 word) = of_nat (?len - (2 * ?b - 1) - 1)"
    using B(1) by (simp add: of_nat_diff)
  have "rev_path_meta md d (of_nat i) = Inr (rev ases ! ?b)"
  proof -
    have "rev_path_meta md d (of_nat i) =
        Inr (fst (md_ifaces md ! unat (of_nat ?len - of_nat (2 * ?b - 1) - 1 :: 64 word)))"
      using B(1) small(2) len unfolding rev_path_meta_def hopfield_reverse hopfield_iface_as [OF rsegs r(1)] Let_def
      by (simp add: nat64_less)
    also have "unat (of_nat ?len - of_nat (2 * ?b - 1) - 1 :: 64 word) = ?len - (2 * ?b - 1) - 1"
      unfolding w using len by (intro unat_nat64) simp
    finally show ?thesis using B(3) by simp
  qed
  ultimately show ?thesis by blast
qed

section \<open>Records\<close>

lemma record_slots:
  assumes "distinct [ic_rtt_next ic, ic_egress_tx ic, ic_ingress_ts ic, ic_queue_len ic]"
    and "slot = (\<lambda>code ss. last_with (\<lambda>s. if ih_len hop s = 0 then None else Some (instr s)) code ss)"
  shows "hr_rtt_next (foldl (record_slot ic instr hop) r ss) =
      (case slot (ic_rtt_next ic) ss of None \<Rightarrow> hr_rtt_next r | Some s \<Rightarrow> Some (sint (ih_slot hop s)))"
    "hr_tx_pct (foldl (record_slot ic instr hop) r ss) =
      (case slot (ic_egress_tx ic) ss of None \<Rightarrow> hr_tx_pct r
       | Some s \<Rightarrow> Some (Fin 100 * f64_of_int (uint (ih_slot hop s)) / Fin 4294967295))"
    "hr_tstamp (foldl (record_slot ic instr hop) r ss) =
      (case slot (ic_ingress_ts ic) ss of None \<Rightarrow> hr_tstamp r | Some s \<Rightarrow> Some (ih_slot hop s))"
    "hr_queue (foldl (record_slot ic instr hop) r ss) =
      (case slot (ic_queue_len ic) ss of None \<Rightarrow> hr_queue r | Some s \<Rightarrow> Some (sint (ih_slot hop s)))"
    "hr_ia (foldl (record_slot ic instr hop) r ss) = hr_ia r"
    "hr_hop (foldl (record_slot ic instr hop) r ss) = hr_hop r"
    "hr_egress (foldl (record_slot ic instr hop) r ss) = hr_egress r"
  using assms(1) unfolding assms(2)
  by (induction ss rule: rev_induct) (auto simp: record_slot_def Let_def split: option.splits)

text \<open>The load of a link is a percentage, rounding included, when the slot holds 32 bits.\<close>

lemma tx_pct_bounds:
  assumes "uint (v :: 64 word) \<le> 4294967295"
  shows "Fin 0 \<le> Fin 100 * f64_of_int (uint v) / Fin 4294967295 \<and>
    Fin 100 * f64_of_int (uint v) / Fin 4294967295 \<le> Fin 100"
proof -
  let ?u = "of_int (uint v) :: rat"
  have u: "0 \<le> ?u" "?u \<le> 4294967295"
  proof -
    show "0 \<le> ?u" by (simp only: of_int_0_le_iff uint_ge_0)
    have "?u \<le> of_int 4294967295" using assms by (simp only: of_int_le_iff)
    then show "?u \<le> 4294967295" by simp
  qed
  have "f64_of_int (uint v) = Fin ?u"
    unfolding f64_of_int_def using assms by (intro Fin_int_exact) simp
  moreover have "f64_of_rat (100 * ?u) = Fin (100 * ?u)"
    using assms Fin_int_exact [of "100 * uint v"] by simp
  ultimately have e: "Fin 100 * f64_of_int (uint v) / Fin 4294967295 = f64_of_rat (100 * ?u / 4294967295)"
    by simp
  have "f64_of_rat 100 = Fin 100" using Fin_int_exact [of 100] by simp
  moreover have "100 * ?u / 4294967295 \<le> 100" "0 \<le> 100 * ?u / 4294967295" using u by simp_all
  ultimately show ?thesis
    unfolding e using f64_of_rat_ge_0 [of "100 * ?u / 4294967295"] f64_of_rat_mono [of "100 * ?u / 4294967295" 100] by simp
qed

lemma records_loop_nth:
  "records_loop ic instr ia_str h v hops = Inr rs \<Longrightarrow> length rs = length hops \<and>
    (\<forall>k<length hops. \<exists>ia. h (ih_index (hops ! k)) = Inr ia \<and> rs ! k = record_of ic instr (ia_str ia) v (hops ! k))"
proof (induction hops arbitrary: rs)
  case (Cons hop hops)
  then show ?case by (fastforce simp: nth_Cons split: sum.splits nat.splits)
qed simp

text \<open>
  A report converts hop by hop, in order, each record with its AS and its values by instruction,
  not by position: with distinct instruction codes a value is present exactly when some slot that
  carries data has that instruction, the last such slot counting, and a 32-bit egress load is a
  percentage between 0 and 100.
\<close>

theorem records_by_instruction:
  assumes "distinct [ic_rtt_next ic, ic_egress_tx ic, ic_ingress_ts ic, ic_queue_len ic]"
    and "records ic ia_str report h v = Inr rs" "k < length (rp_data report)" "hop = rp_data report ! k"
    and "slot = (\<lambda>code. last_with (\<lambda>s. if ih_len hop s = 0 then None else Some (rp_instr report s)) code [0..<4])"
  shows "length rs = length (rp_data report) \<and>
    (\<exists>ia. h (ih_index hop) = Inr ia \<and> hr_ia (rs ! k) = ia_str ia) \<and> hr_egress (rs ! k) = ih_egress hop \<and>
    hr_rtt_next (rs ! k) = map_option (\<lambda>s. sint (ih_slot hop s)) (slot (ic_rtt_next ic)) \<and>
    hr_tstamp (rs ! k) = map_option (ih_slot hop) (slot (ic_ingress_ts ic)) \<and>
    hr_queue (rs ! k) = map_option (\<lambda>s. sint (ih_slot hop s)) (slot (ic_queue_len ic)) \<and>
    (hr_tx_pct (rs ! k) = None \<longleftrightarrow> slot (ic_egress_tx ic) = None) \<and>
    (\<forall>s x. slot (ic_egress_tx ic) = Some s \<and> uint (ih_slot hop s) \<le> 4294967295 \<and> hr_tx_pct (rs ! k) = Some x \<longrightarrow>
       Fin 0 \<le> x \<and> x \<le> Fin 100)"
proof -
  obtain ia where ia: "h (ih_index hop) = Inr ia" "rs ! k = record_of ic (rp_instr report) (ia_str ia) v hop"
    "length rs = length (rp_data report)"
    using records_loop_nth [OF assms(2) [unfolded records_def]] assms(3,4) by blast
  note slots = record_slots [OF assms(1) refl, where ss = "[0..<4]" and instr = "rp_instr report" and hop = hop]
  show ?thesis
    unfolding ia(2) record_of_def slots assms(5) using ia(1,3) tx_pct_bounds
    by (auto split: option.splits)
qed

section \<open>Sorting\<close>

text \<open>The comparison is the lexicographic order of a key in which an unset path's total does not count.\<close>

definition rank :: "path_sort_key \<Rightarrow> bool \<times> int \<times> nat \<times> string" where
  "rank k = (sk_unset k, if sk_unset k then 0 else sk_total k, sk_ifaces k, sk_fingerprint k)"

lemma path_less_rank: "path_less a b \<longleftrightarrow> rank a < rank b"
  by (auto simp: path_less_def rank_def less_prod_def')

lemma slice_stable_sort: "slice_stable (\<lambda>p q. f p < f q) xs = sort_key f xs"
proof -
  have "stable_insert (\<lambda>p q. f p < f q) = insort_key f"
  proof (intro ext)
    fix x ys show "stable_insert (\<lambda>p q. f p < f q) x ys = insort_key f x ys"
      by (induction ys) (auto simp: not_less)
  qed
  then show ?thesis by (simp add: slice_stable_def sort_key_def)
qed

lemma sort_key_decorated: "map fst (sort_key (\<lambda>x. f (snd x)) (map (\<lambda>p. (p, g p)) xs)) = sort_key (\<lambda>p. f (g p)) xs"
proof -
  have ins: "insort_key (\<lambda>x. f (snd x)) (p, g p) (map (\<lambda>p. (p, g p)) ys) = map (\<lambda>p. (p, g p)) (insort_key (\<lambda>p. f (g p)) p ys)" for p ys
    by (induction ys) auto
  have "sort_key (\<lambda>x. f (snd x)) (map (\<lambda>p. (p, g p)) xs) = map (\<lambda>p. (p, g p)) (sort_key (\<lambda>p. f (g p)) xs)"
    by (induction xs) (simp_all add: ins)
  then show ?thesis by (simp add: o_def)
qed

lemma sort_paths_rank: "sort_paths fprint paths = sort_key (\<lambda>p. rank (sort_key_of fprint p)) paths"
  unfolding sort_paths_def path_less_rank slice_stable_sort [of "\<lambda>p. rank (snd p)"]
  by (rule sort_key_decorated)

lemma sort_key_of_fold:
  "sk_unset (foldl (\<lambda>k d. if d < 0 then k\<lparr>sk_unset := True\<rparr> else k\<lparr>sk_total := wrap64 (sk_total k + d)\<rparr>) k ds) \<longleftrightarrow>
     sk_unset k \<or> (\<exists>d\<in>set ds. d < 0)"
  "\<lbrakk>\<forall>d\<in>set ds. 0 \<le> d; 0 \<le> sk_total k; sk_total k + sum_list ds \<le> max_int64\<rbrakk> \<Longrightarrow>
     sk_total (foldl (\<lambda>k d. if d < 0 then k\<lparr>sk_unset := True\<rparr> else k\<lparr>sk_total := wrap64 (sk_total k + d)\<rparr>) k ds) =
       sk_total k + sum_list ds"
proof (induction ds arbitrary: k)
  case (Cons d ds)
  case 1
  then show ?case using Cons.IH(1) by auto
next
  case (Cons d ds)
  case 2
  have "0 \<le> sum_list ds" using 2(1) by (intro sum_list_nonneg) auto
  then have "is_int64 (sk_total k + d)" using 2 by (simp add: is_int64_def min_int64_def)
  then show ?case using Cons.IH(2) [of "k\<lparr>sk_total := sk_total k + d\<rparr>"] 2 by (simp add: add.assoc)
qed auto

definition annotated :: "'ia path_md \<Rightarrow> bool" where
  "annotated p \<longleftrightarrow> (\<forall>d\<in>set (md_latency p). 0 \<le> d)"

lemma sort_key_of_unset: "sk_unset (sort_key_of fprint p) \<longleftrightarrow> \<not> annotated p"
  by (auto simp: sort_key_of_def sort_key_of_fold(1) annotated_def not_le)

lemma sort_key_of_total:
  "annotated p \<Longrightarrow> sum_list (md_latency p) \<le> max_int64 \<Longrightarrow> sk_total (sort_key_of fprint p) = sum_list (md_latency p)"
  by (simp add: sort_key_of_def annotated_def sort_key_of_fold(2))

text \<open>
  \<open>SortPaths\<close> is a stable sort that puts the fastest path first: it permutes the paths, keeps the
  order of those that compare equal, leaves no path before one that compares less; and its first path
  is fully annotated if any is, and then no fully annotated path has a smaller total latency, as long
  as totals fit 64 bits.
\<close>

theorem sort_paths_fastest:
  assumes "ps = sort_paths fprint paths" "key = sort_key_of fprint"
  shows "mset ps = mset paths \<and>
    (\<forall>p. filter (\<lambda>q. \<not> path_less (key p) (key q) \<and> \<not> path_less (key q) (key p)) ps =
      filter (\<lambda>q. \<not> path_less (key p) (key q) \<and> \<not> path_less (key q) (key p)) paths) \<and>
    sorted_wrt (\<lambda>p q. \<not> path_less (key q) (key p)) ps \<and>
    (\<forall>p\<in>set paths. annotated p \<and> (\<forall>q\<in>set paths. sum_list (md_latency q) \<le> max_int64) \<longrightarrow>
       annotated (hd ps) \<and> sum_list (md_latency (hd ps)) \<le> sum_list (md_latency p))"
proof (intro conjI allI ballI impI)
  have ps: "ps = sort_key (\<lambda>p. rank (key p)) paths" using assms by (simp add: sort_paths_rank)
  show "mset ps = mset paths" by (simp add: ps)
  show "filter (\<lambda>q. \<not> path_less (key p) (key q) \<and> \<not> path_less (key q) (key p)) ps =
      filter (\<lambda>q. \<not> path_less (key p) (key q) \<and> \<not> path_less (key q) (key p)) paths" for p
  proof -
    have "(\<lambda>q. \<not> path_less (key p) (key q) \<and> \<not> path_less (key q) (key p)) = (\<lambda>q. rank (key p) = rank (key q))"
      by (auto simp: path_less_rank not_less)
    then show ?thesis unfolding ps by (metis (mono_tags, lifting) filter_cong sort_key_stable)
  qed
  have sorted: "sorted_wrt (\<lambda>p q. rank (key p) \<le> rank (key q)) ps"
    using sorted_sort_key [of "\<lambda>p. rank (key p)" paths] by (simp add: ps sorted_map)
  then show "sorted_wrt (\<lambda>p q. \<not> path_less (key q) (key p)) ps"
    by (simp add: path_less_rank not_less)
  fix p assume p: "p \<in> set paths"
    and a: "annotated p \<and> (\<forall>q\<in>set paths. sum_list (md_latency q) \<le> max_int64)"
  have set: "set ps = set paths" by (simp add: ps)
  then obtain q qs where q: "ps = q # qs" using p by (cases ps) auto
  have "p = q \<or> p \<in> set qs" using p set q by auto
  then have le: "rank (key q) \<le> rank (key p)" using sorted q by auto
  have "q \<in> set paths" using set q by auto
  with le a have "annotated q"
    by (auto simp: rank_def assms(2) sort_key_of_unset less_eq_prod_def)
  moreover have "sum_list (md_latency q) \<le> sum_list (md_latency p)"
    using le a p \<open>q \<in> set paths\<close> \<open>annotated q\<close>
    by (auto simp: rank_def assms(2) sort_key_of_unset sort_key_of_total less_eq_prod_def)
  ultimately show "annotated (hd ps)" "sum_list (md_latency (hd ps)) \<le> sum_list (md_latency p)"
    using q by simp_all
qed

section \<open>The probe\<close>

text \<open>
  A call into the SCION stack: it returns, fails (with whether the error is a timeout), or panics,
  which the deferred \<open>recover\<close> turns into an error.
\<close>

datatype 'a stage = Done 'a | Fails bool string | Panics string

datatype probe_error = FingerprintNotFound | ProbeTimeout | ProbeErr string

definition stage_bind :: "string \<Rightarrow> 'a stage \<Rightarrow> ('a \<Rightarrow> probe_error + 'b) \<Rightarrow> probe_error + 'b" where
  "stage_bind what st k = (case st of
     Done x \<Rightarrow> k x
   | Fails _ err \<Rightarrow> Inl (ProbeErr (what @ '': '' @ err))
   | Panics v \<Rightarrow> Inl (ProbeErr (''probe panic: '' @ v)))"

definition network_paths ::
  "(('ia \<times> 64 word) list \<Rightarrow> string) \<Rightarrow> ('ia path_md \<Rightarrow> path_json) \<Rightarrow> string \<Rightarrow> string + 'ia path_md list \<Rightarrow> string + (string \<times> path_json list)" where
  "network_paths fprint to_json local_ia reply = (case reply of
     Inl err \<Rightarrow> Inl (''sciond paths: '' @ err)
   | Inr paths \<Rightarrow> Inr (local_ia, map to_json (sort_paths fprint paths)))"

definition select_path ::
  "(('ia \<times> 64 word) list \<Rightarrow> string) \<Rightarrow> string \<Rightarrow> string \<Rightarrow> 'ia path_md list \<Rightarrow> probe_error + 'ia path_md" where
  "select_path fprint remote_ia fp paths =
     (if fp = '''' then (case paths of [] \<Rightarrow> Inl (ProbeErr (''no path available to '' @ remote_ia)) | p # _ \<Rightarrow> Inr p)
      else (case find (\<lambda>p. fprint (md_ifaces p) = fp) paths of
          None \<Rightarrow> Inl FingerprintNotFound | Some p \<Rightarrow> Inr p))"

text \<open>\<open>(x + 3) & ^3\<close> on a Go \<open>int\<close>, after a division that truncates towards zero.\<close>

definition max_stack_len :: "16 word \<Rightarrow> int" where
  "max_stack_len mtu = (let x = uint mtu - 512; h = sgn x * (\<bar>x\<bar> div 2) in (h + 3) AND (NOT 3))"

text \<open>
  A received reply: whether it carries a report, its UDP payload if it is UDP, and the outcome of
  parsing that payload.  \<open>pe_fwd\<close> and \<open>pe_rev\<close> are the outcomes of verifying and decrypting the two
  reports along the chosen path.
\<close>

record 'ia probe_env =
  pe_paths :: "'ia path_md list stage"
  pe_open :: "unit stage"
  pe_udp_local :: bool
  pe_key :: "unit stage"
  pe_write :: "int \<Rightarrow> unit stage"
  pe_deadline :: "unit stage"
  pe_read :: "unit stage"
  pe_rtt_ms :: f64
  pe_has_report :: bool
  pe_is_udp :: bool
  pe_parse :: "unit stage"
  pe_fwd :: "'ia path_md \<Rightarrow> int_report stage"
  pe_rev :: "'ia path_md \<Rightarrow> int_report stage"

definition receive_bind :: "unit stage \<Rightarrow> (unit \<Rightarrow> probe_error + 'b) \<Rightarrow> probe_error + 'b" where
  "receive_bind st k = (case st of Fails True _ \<Rightarrow> Inl ProbeTimeout | _ \<Rightarrow> stage_bind ''receiving response'' st k)"

definition check :: "bool \<Rightarrow> string \<Rightarrow> (probe_error + 'b) \<Rightarrow> probe_error + 'b" where
  "check ok msg k = (if ok then k else Inl (ProbeErr msg))"

definition wrap_err :: "string \<Rightarrow> string + 'a \<Rightarrow> ('a \<Rightarrow> probe_error + 'b) \<Rightarrow> probe_error + 'b" where
  "wrap_err what r k = (case r of Inl err \<Rightarrow> Inl (ProbeErr (what @ '': '' @ err)) | Inr x \<Rightarrow> k x)"

definition convert_reports ::
  "instr_codes \<Rightarrow> ('ia \<Rightarrow> string) \<Rightarrow> ('ia path_md \<Rightarrow> path_json) \<Rightarrow> ('ia path_md \<Rightarrow> seg_meta) \<Rightarrow> f64 \<Rightarrow>
     'ia path_md \<Rightarrow> int_report \<Rightarrow> int_report \<Rightarrow> probe_error + probe_result" where
  "convert_reports ic ia_str to_json segs rtt via fwd rvs =
     wrap_err ''forward records'' (records ic ia_str fwd (fwd_path_meta via (segs via)) True) (\<lambda>fs.
     wrap_err ''reverse records'' (records ic ia_str rvs (rev_path_meta via (segs via)) True) (\<lambda>rs.
       Inr \<lparr>pr_path = to_json via, pr_rtt_ms = rtt, pr_exceeded = (rp_exceeded fwd \<or> rp_exceeded rvs),
         pr_fwd = fs, pr_rev = rs\<rparr>))"

definition probe ::
  "instr_codes \<Rightarrow> ('ia \<Rightarrow> string) \<Rightarrow> (('ia \<times> 64 word) list \<Rightarrow> string) \<Rightarrow> ('ia path_md \<Rightarrow> path_json) \<Rightarrow>
     ('ia path_md \<Rightarrow> seg_meta) \<Rightarrow> 'ia probe_env \<Rightarrow> string \<Rightarrow> string \<Rightarrow> probe_error + probe_result" where
  "probe ic ia_str fprint to_json segs env remote_ia fp =
     stage_bind ''sciond paths'' (pe_paths env) (\<lambda>paths.
     case select_path fprint remote_ia fp (sort_paths fprint paths) of Inl e \<Rightarrow> Inl e | Inr via \<Rightarrow>
     stage_bind ''connection failed'' (pe_open env) (\<lambda>_.
     check (pe_udp_local env) ''unexpected local address type'' (
     stage_bind ''getting host-host key'' (pe_key env) (\<lambda>_.
     stage_bind ''sending probe failed'' (pe_write env (max_stack_len (md_mtu via))) (\<lambda>_.
     stage_bind ''setting read deadline'' (pe_deadline env) (\<lambda>_.
     receive_bind (pe_read env) (\<lambda>_.
     check (pe_has_report env) ''response does not contain ID-INT'' (
     check (pe_is_udp env) ''non-UDP packet received'' (
     stage_bind ''decoding probe payload'' (pe_parse env) (\<lambda>_.
     stage_bind ''decoding forward path'' (pe_fwd env via) (\<lambda>fwd.
     stage_bind ''decoding reverse path'' (pe_rev env via) (\<lambda>rvs.
     convert_reports ic ia_str to_json segs (pe_rtt_ms env) via fwd rvs))))))))))))"

section \<open>The server\<close>

text \<open>
  The handlers' outcomes.  A probe handler takes the lock without waiting; \<open>ps_busy\<close> is the lock, and
  \<open>ps_running\<close> counts the probes in the engine.
\<close>

definition handle_paths :: "string + 'ia \<Rightarrow> ('ia \<Rightarrow> string + 'r) \<Rightarrow> int \<times> (string + 'r)" where
  "handle_paths parsed paths = (case parsed of
     Inl err \<Rightarrow> (400, Inl (''bad dst: '' @ err))
   | Inr dst \<Rightarrow> (case paths dst of Inl err \<Rightarrow> (502, Inl err) | Inr resp \<Rightarrow> (200, Inr resp)))"

record probe_server =
  ps_busy :: bool
  ps_running :: nat

text \<open>Up to the call of the engine: an early reply, or the lock taken.\<close>

definition probe_begin :: "(string \<times> string) option \<Rightarrow> (string \<Rightarrow> string + 'a) \<Rightarrow> probe_server \<Rightarrow>
    probe_server \<times> (int \<times> string + 'a \<times> string)" where
  "probe_begin body parse_remote s = (case body of
     None \<Rightarrow> (s, Inl (400, ''bad body''))
   | Some (remote, fp) \<Rightarrow> (case parse_remote remote of
       Inl err \<Rightarrow> (s, Inl (400, ''bad remote: '' @ err))
     | Inr addr \<Rightarrow>
        if ps_busy s then (s, Inl (409, ''probe in flight''))
        else (s\<lparr>ps_busy := True, ps_running := ps_running s + 1\<rparr>, Inr (addr, fp))))"

definition probe_end :: "probe_error + 'r \<Rightarrow> probe_server \<Rightarrow> probe_server \<times> int \<times> (string + 'r)" where
  "probe_end res s = (s\<lparr>ps_busy := False, ps_running := ps_running s - 1\<rparr>,
     (case res of
        Inl FingerprintNotFound \<Rightarrow> (404, Inl ''fingerprint not found'')
      | Inl ProbeTimeout \<Rightarrow> (504, Inl ''probe timeout'')
      | Inl (ProbeErr err) \<Rightarrow> (502, Inl err)
      | Inr r \<Rightarrow> (200, Inr r)))"


section \<open>What a probe answers\<close>

lemma stage_bind_simps:
  "stage_bind what st k = Inr r \<longleftrightarrow> (\<exists>x. st = Done x \<and> k x = Inr r)"
  "stage_bind what st k = Inl FingerprintNotFound \<longleftrightarrow> (\<exists>x. st = Done x \<and> k x = Inl FingerprintNotFound)"
  "stage_bind what st k = Inl ProbeTimeout \<longleftrightarrow> (\<exists>x. st = Done x \<and> k x = Inl ProbeTimeout)"
  by (auto simp: stage_bind_def split: stage.splits)

lemma check_simps:
  "check ok msg k = Inr r \<longleftrightarrow> ok \<and> k = Inr r"
  "check ok msg k = Inl FingerprintNotFound \<longleftrightarrow> ok \<and> k = Inl FingerprintNotFound"
  "check ok msg k = Inl ProbeTimeout \<longleftrightarrow> ok \<and> k = Inl ProbeTimeout"
  by (auto simp: check_def)

lemma wrap_err_simps:
  "wrap_err what x k = Inr r \<longleftrightarrow> (\<exists>y. x = Inr y \<and> k y = Inr r)"
  "wrap_err what x k = Inl FingerprintNotFound \<longleftrightarrow> (\<exists>y. x = Inr y \<and> k y = Inl FingerprintNotFound)"
  "wrap_err what x k = Inl ProbeTimeout \<longleftrightarrow> (\<exists>y. x = Inr y \<and> k y = Inl ProbeTimeout)"
  by (auto simp: wrap_err_def split: sum.splits)

lemma receive_simps:
  "receive_bind st k = Inr r \<longleftrightarrow> (\<exists>x. st = Done x \<and> k x = Inr r)"
  "receive_bind st k = Inl FingerprintNotFound \<longleftrightarrow> (\<exists>x. st = Done x \<and> k x = Inl FingerprintNotFound)"
  "receive_bind st k = Inl ProbeTimeout \<longleftrightarrow> (\<exists>msg. st = Fails True msg) \<or> (\<exists>x. st = Done x \<and> k x = Inl ProbeTimeout)"
  by (auto simp: receive_bind_def stage_bind_def split: stage.splits bool.splits)

lemma sum_case_simps:
  "(case x of Inl e \<Rightarrow> Inl e | Inr y \<Rightarrow> k y) = Inr r \<longleftrightarrow> (\<exists>y. x = Inr y \<and> k y = Inr r)"
  "(case x of Inl e \<Rightarrow> Inl e | Inr y \<Rightarrow> k y) = Inl err \<longleftrightarrow> x = Inl err \<or> (\<exists>y. x = Inr y \<and> k y = Inl err)"
  by (auto split: sum.splits)

lemmas probe_simps = stage_bind_simps check_simps wrap_err_simps receive_simps sum_case_simps

lemma convert_reports_outcome:
  "convert_reports ic ia_str to_json segs rtt via fwd rvs \<noteq> Inl FingerprintNotFound"
  "convert_reports ic ia_str to_json segs rtt via fwd rvs \<noteq> Inl ProbeTimeout"
  "convert_reports ic ia_str to_json segs rtt via fwd rvs = Inr res \<Longrightarrow> pr_path res = to_json via"
  by (auto simp: convert_reports_def probe_simps)

lemma select_path_outcome:
  "select_path fprint ia fp ps = Inr via \<Longrightarrow> via \<in> set ps \<and>
     (if fp = '''' then (\<exists>rest. ps = via # rest) else fprint (md_ifaces via) = fp)"
  "select_path fprint ia fp ps = Inl FingerprintNotFound \<longleftrightarrow> fp \<noteq> '''' \<and> fp \<notin> (\<lambda>p. fprint (md_ifaces p)) ` set ps"
  "select_path fprint ia fp ps \<noteq> Inl ProbeTimeout"
  by (auto simp: select_path_def find_Some_iff find_None_iff split: list.splits option.splits if_splits)

lemma find_first:
  "find P xs = Some x \<longleftrightarrow> (\<exists>pre rest. xs = pre @ x # rest \<and> P x \<and> (\<forall>y\<in>set pre. \<not> P y))"
proof (induction xs)
  case (Cons a xs)
  show ?case
  proof (cases "P a")
    case False
    then have "(\<exists>pre rest. a # xs = pre @ x # rest \<and> P x \<and> (\<forall>y\<in>set pre. \<not> P y)) \<longleftrightarrow>
        (\<exists>pre rest. xs = pre @ x # rest \<and> P x \<and> (\<forall>y\<in>set pre. \<not> P y))"
      by (auto simp: Cons_eq_append_conv) (metis list.set_intros set_ConsD)
    with Cons False show ?thesis by simp
  qed (auto simp: Cons_eq_append_conv)
qed simp

text \<open>
  What the outcome of a probe depends on, stage by stage: the path it takes, the first of the sorted
  paths with the pinned fingerprint, or simply the first; whether everything up to waiting for the
  reply worked; and the reply, with its two reports.
\<close>

definition chosen :: "(('ia \<times> 64 word) list \<Rightarrow> string) \<Rightarrow> string \<Rightarrow> 'ia path_md list \<Rightarrow> 'ia path_md \<Rightarrow> bool" where
  "chosen fprint fp paths via \<longleftrightarrow> (\<exists>pre rest. sort_paths fprint paths = pre @ via # rest \<and>
     (if fp = '''' then pre = [] else fprint (md_ifaces via) = fp \<and> (\<forall>p\<in>set pre. fprint (md_ifaces p) \<noteq> fp)))"

definition awaits_reply :: "'ia probe_env \<Rightarrow> 'ia path_md \<Rightarrow> bool" where
  "awaits_reply env via \<longleftrightarrow> pe_open env = Done () \<and> pe_udp_local env \<and> pe_key env = Done () \<and>
     pe_write env (max_stack_len (md_mtu via)) = Done () \<and> pe_deadline env = Done ()"

definition reply_reports :: "'ia probe_env \<Rightarrow> 'ia path_md \<Rightarrow> int_report \<Rightarrow> int_report \<Rightarrow> bool" where
  "reply_reports env via fwd rvs \<longleftrightarrow> pe_read env = Done () \<and> pe_has_report env \<and> pe_is_udp env \<and>
     pe_parse env = Done () \<and> pe_fwd env via = Done fwd \<and> pe_rev env via = Done rvs"

lemma select_path_chosen:
  "select_path fprint ia fp (sort_paths fprint paths) = Inr via \<longleftrightarrow> chosen fprint fp paths via"
proof (cases "fp = ''''")
  case False
  have "select_path fprint ia fp ps = Inr via \<longleftrightarrow> find (\<lambda>p. fprint (md_ifaces p) = fp) ps = Some via" for ps
    using False by (simp add: select_path_def split: option.splits)
  then show ?thesis using False by (simp add: chosen_def find_first)
qed (simp add: select_path_def chosen_def split: list.splits)

lemma probe_missing:
  "probe ic ia_str fprint to_json segs env ia fp = Inl FingerprintNotFound \<longleftrightarrow>
     (\<exists>paths. pe_paths env = Done paths \<and> fp \<noteq> '''' \<and> fp \<notin> (\<lambda>p. fprint (md_ifaces p)) ` set paths)"
  unfolding probe_def
  by (auto simp: probe_simps convert_reports_outcome select_path_outcome(2) sort_paths_rank)

lemma probe_timeout:
  "probe ic ia_str fprint to_json segs env ia fp = Inl ProbeTimeout \<longleftrightarrow>
     (\<exists>paths via msg. pe_paths env = Done paths \<and> chosen fprint fp paths via \<and> awaits_reply env via \<and> pe_read env = Fails True msg)"
  unfolding probe_def select_path_chosen [symmetric, where ia = ia]
  by (auto simp: probe_simps convert_reports_outcome select_path_outcome(3) awaits_reply_def)

lemma probe_success:
  "probe ic ia_str fprint to_json segs env ia fp = Inr res \<longleftrightarrow>
     (\<exists>paths via fwd rvs fs rs. pe_paths env = Done paths \<and> chosen fprint fp paths via \<and> awaits_reply env via \<and>
        reply_reports env via fwd rvs \<and>
        records ic ia_str fwd (fwd_path_meta via (segs via)) True = Inr fs \<and>
        records ic ia_str rvs (rev_path_meta via (segs via)) True = Inr rs \<and>
        res = \<lparr>pr_path = to_json via, pr_rtt_ms = pe_rtt_ms env,
          pr_exceeded = (rp_exceeded fwd \<or> rp_exceeded rvs), pr_fwd = fs, pr_rev = rs\<rparr>)"
  unfolding probe_def select_path_chosen [symmetric, where ia = ia]
  by (auto simp: probe_simps convert_reports_def awaits_reply_def reply_reports_def)

lemma chosen_set: "chosen fprint fp paths via \<Longrightarrow> via \<in> set paths"
proof -
  assume "chosen fprint fp paths via"
  then have "via \<in> set (sort_paths fprint paths)" by (auto simp: chosen_def)
  then show ?thesis by (simp add: sort_paths_rank)
qed

text \<open>
  C36: The probe endpoint's statuses are exact.  A body or a remote that does not parse is a 400 and a
  probe in flight a 409, and neither reaches the engine; any other request takes the lock, which its
  end releases.  Then 404 is replied exactly when sciond returned paths and none has the asked
  fingerprint; 504 exactly when a path was chosen, every stage up to the read worked and the read timed
  out; 200 exactly when all stages up to the conversion of both reports worked, and then the reply holds
  the chosen path, the records of its reports and their exceeded flags.  Every other failure, panics and timeouts of
  other stages included, is a 502.  The chosen path is one sciond returned: the first of the sorted
  paths with the pinned fingerprint, or the one \<open>Paths\<close> lists first when none is pinned.
\<close>

theorem probe_replies:
  assumes "(s', code, body) = probe_end (probe ic ia_str fprint to_json segs env ia fp) s"
    and "probe_begin req parse_remote s0 = (s1, out)"
  shows "(case out of
      Inl (c, _) \<Rightarrow> s1 = s0 \<and>
        (c = 400 \<and> (\<forall>r f a. req = Some (r, f) \<longrightarrow> parse_remote r \<noteq> Inr a) \<or>
         c = 409 \<and> ps_busy s0 \<and> (\<exists>r f a. req = Some (r, f) \<and> parse_remote r = Inr a))
    | Inr (a, f) \<Rightarrow> \<not> ps_busy s0 \<and> ps_busy s1 \<and> (\<exists>r. req = Some (r, f) \<and> parse_remote r = Inr a)) \<and>
    \<not> ps_busy s' \<and> code \<in> {200, 404, 502, 504} \<and>
    (code = 404 \<longleftrightarrow> (\<exists>paths. pe_paths env = Done paths \<and> fp \<noteq> '''' \<and> fp \<notin> (\<lambda>p. fprint (md_ifaces p)) ` set paths)) \<and>
    (code = 504 \<longleftrightarrow> (\<exists>paths via msg. pe_paths env = Done paths \<and> chosen fprint fp paths via \<and> awaits_reply env via \<and>
      pe_read env = Fails True msg)) \<and>
    (\<forall>res. code = 200 \<and> body = Inr res \<longleftrightarrow> (\<exists>paths via fwd rvs fs rs.
      pe_paths env = Done paths \<and> chosen fprint fp paths via \<and> awaits_reply env via \<and> reply_reports env via fwd rvs \<and>
      records ic ia_str fwd (fwd_path_meta via (segs via)) True = Inr fs \<and>
      records ic ia_str rvs (rev_path_meta via (segs via)) True = Inr rs \<and>
      res = \<lparr>pr_path = to_json via, pr_rtt_ms = pe_rtt_ms env,
        pr_exceeded = (rp_exceeded fwd \<or> rp_exceeded rvs), pr_fwd = fs, pr_rev = rs\<rparr>)) \<and>
    (code = 200 \<longleftrightarrow> (\<exists>res. body = Inr res)) \<and>
    (\<forall>res. body = Inr res \<longrightarrow> (\<exists>paths via. pe_paths env = Done paths \<and> via \<in> set paths \<and> pr_path res = to_json via \<and>
       (if fp = '''' then \<exists>rest. network_paths fprint to_json ia (Inr paths) = Inr (ia, pr_path res # rest)
        else fprint (md_ifaces via) = fp)))"
proof -
  let ?r = "probe ic ia_str fprint to_json segs env ia fp"
  have code: "code = (case ?r of Inl FingerprintNotFound \<Rightarrow> 404 | Inl ProbeTimeout \<Rightarrow> 504 | Inl (ProbeErr _) \<Rightarrow> 502 | Inr _ \<Rightarrow> 200)"
    and body: "\<And>res. body = Inr res \<longleftrightarrow> ?r = Inr res" and free: "\<not> ps_busy s'"
    using assms(1) by (auto simp: probe_end_def split: sum.splits probe_error.splits)
  have codes: "code \<in> {200, 404, 502, 504}" unfolding code by (auto split: sum.splits probe_error.splits)
  have c404: "code = 404 \<longleftrightarrow> ?r = Inl FingerprintNotFound" and c504: "code = 504 \<longleftrightarrow> ?r = Inl ProbeTimeout"
    and c200: "code = 200 \<longleftrightarrow> (\<exists>res. body = Inr res)"
    unfolding code body by (auto split: sum.splits probe_error.splits)
  have path: "\<exists>paths via. pe_paths env = Done paths \<and> via \<in> set paths \<and> pr_path res = to_json via \<and>
       (if fp = '''' then \<exists>rest. network_paths fprint to_json ia (Inr paths) = Inr (ia, pr_path res # rest)
        else fprint (md_ifaces via) = fp)" if res: "body = Inr res" for res
  proof -
    obtain paths via where pv: "pe_paths env = Done paths" "chosen fprint fp paths via" "pr_path res = to_json via"
      using res unfolding body probe_success by force
    from pv(2) show ?thesis
      by (intro exI [of _ paths] exI [of _ via])
        (use pv chosen_set [OF pv(2)] in \<open>auto simp: chosen_def network_paths_def split: if_splits\<close>)
  qed
  have out: "case out of
      Inl (c, _) \<Rightarrow> s1 = s0 \<and>
        (c = 400 \<and> (\<forall>r f a. req = Some (r, f) \<longrightarrow> parse_remote r \<noteq> Inr a) \<or>
         c = 409 \<and> ps_busy s0 \<and> (\<exists>r f a. req = Some (r, f) \<and> parse_remote r = Inr a))
    | Inr (a, f) \<Rightarrow> \<not> ps_busy s0 \<and> ps_busy s1 \<and> (\<exists>r. req = Some (r, f) \<and> parse_remote r = Inr a)"
    using assms(2) by (auto simp: probe_begin_def split: option.splits sum.splits if_splits)
  have ok: "code = 200 \<and> body = Inr res \<longleftrightarrow> ?r = Inr res" for res
    using c200 body [of res] by blast
  show ?thesis
    unfolding ok c404 c504 probe_missing probe_timeout probe_success [symmetric]
    using out free codes c200 path by (intro conjI allI impI) (rule refl | rule probe_success | blast)+
qed

text \<open>At most one probe runs in the engine, and a second one is turned away.\<close>

definition server_ok :: "probe_server \<Rightarrow> bool" where
  "server_ok s \<longleftrightarrow> ps_running s = (if ps_busy s then 1 else 0)"

lemma probe_begin_ok:
  assumes "server_ok s" "probe_begin body parse s = (s', out)"
  shows "server_ok s'" "(\<exists>x. out = Inr x) \<longleftrightarrow> \<not> ps_busy s \<and> ps_busy s'"
  using assms by (auto simp: probe_begin_def server_ok_def split: option.splits sum.splits if_splits)

lemma probe_end_ok: "server_ok s \<Longrightarrow> ps_busy s \<Longrightarrow> server_ok (fst (probe_end r s))"
  by (simp add: probe_end_def server_ok_def)

subsection \<open>Concrete paths and reports\<close>

definition pb_md :: "int path_md" where
  "pb_md = \<lparr>md_ifaces = [(1, 1), (2, 1), (2, 2), (3, 1), (3, 2), (4, 1)], md_latency = [5, 7, 9], md_mtu = 1400, md_expiry = 0\<rparr>"

definition pb_slow :: "int path_md" where
  "pb_slow = \<lparr>md_ifaces = [(1, 3), (4, 3)], md_latency = [80], md_mtu = 1400, md_expiry = 0\<rparr>"

definition pb_segs :: seg_meta where
  "pb_segs = \<lparr>sm_len0 = 2, sm_len1 = 3, sm_len2 = 0, sm_num_inf = 2, sm_peer0 = False, sm_peer1 = False, sm_peer2 = False\<rparr>"

theorem hop_attribution_witness:
  "fwd_path_meta pb_md pb_segs (of_nat 2) = Inr 2 \<and> rev_path_meta pb_md pb_segs (of_nat 3) = Inr 2"
proof -
  have s: "segs_ok pb_segs False 2 3 0" by (simp add: segs_ok_def pb_segs_def)
  have c: "crossing [1, 2, 3, 4] (md_ifaces pb_md)"
    by (auto simp: crossing_def pb_md_def less_Suc_eq numeral_eq_Suc)
  have n: "length [1 :: int, 2, 3, 4] = num_ases False 2 3 0" by (simp add: num_ases_def)
  have "(3, 2, 0) = (if 0 < (0 :: nat) then (0, 3, 2) else if 0 < (3 :: nat) then (3, 2, 0) else (2, 0, 0 :: nat))" by simp
  note got = hop_attribution [OF s c n _ this]
  show ?thesis using got [of 2] got [of 3] by (simp add: hop_as_def)
qed

definition pb_codes :: instr_codes where
  "pb_codes = \<lparr>ic_rtt_next = 0x4A, ic_egress_tx = 0x4F, ic_ingress_ts = 0x82, ic_queue_len = 0x51\<rparr>"

definition pb_report :: int_report where
  "pb_report = \<lparr>rp_data = [\<lparr>ih_index = 0, ih_source = True, ih_ingress = False, ih_egress = True, ih_aggregated = False,
     ih_encrypted = False, ih_node_id = None, ih_igr_port = None, ih_egr_port = Some 2,
     ih_len = (\<lambda>s. if s = 3 then 0 else 4), ih_slot = (\<lambda>s. of_nat s + 900)\<rparr>],
     rp_instr = fixed_instructions pb_codes, rp_exceeded = False\<rparr>"

theorem records_by_instruction_witness:
  "\<exists>r. records pb_codes itoa pb_report (\<lambda>_. Inr 150) True = Inr [r] \<and> hr_rtt_next r = Some 900 \<and> hr_queue r = None"
proof -
  obtain r where r: "records pb_codes itoa pb_report (\<lambda>_. Inr 150) True = Inr [r]"
    by (simp add: records_def pb_report_def)
  have d: "distinct [ic_rtt_next pb_codes, ic_egress_tx pb_codes, ic_ingress_ts pb_codes, ic_queue_len pb_codes]"
    by (simp add: pb_codes_def)
  have k: "0 < length (rp_data pb_report)" by (simp add: pb_report_def)
  have "sint (900 :: 64 word) = 900" by code_simp
  then have "hr_rtt_next r = Some 900" "hr_queue r = None"
    using records_by_instruction [OF d r k refl refl]
    by (simp_all add: pb_report_def pb_codes_def fixed_instructions_def last_with_def upt_rec)
  with r show ?thesis by blast
qed

definition pb_print :: "(int \<times> 64 word) list \<Rightarrow> string" where
  "pb_print ifs = concat (map (\<lambda>(a, i). itoa a @ ''#'' @ itoa (uint i)) ifs)"

theorem sort_paths_fastest_witness:
  "mset (sort_paths pb_print [pb_slow, pb_md]) = {#pb_slow, pb_md#} \<and>
   sum_list (md_latency (hd (sort_paths pb_print [pb_slow, pb_md]))) \<le> 21"
proof -
  have "annotated pb_md" "sum_list (md_latency pb_md) = 21" "sum_list (md_latency pb_slow) = 80"
    by (simp_all add: annotated_def pb_md_def pb_slow_def)
  then show ?thesis
    using sort_paths_fastest [OF refl refl, of pb_print "[pb_slow, pb_md]"]
    by (auto simp: max_int64_def)
qed

definition pb_env :: "int probe_env" where
  "pb_env = \<lparr>pe_paths = Done [pb_slow, pb_md], pe_open = Done (), pe_udp_local = True, pe_key = Done (),
     pe_write = (\<lambda>_. Done ()), pe_deadline = Done (), pe_read = Done (), pe_rtt_ms = Fin 2, pe_has_report = True,
     pe_is_udp = True, pe_parse = Done (), pe_fwd = (\<lambda>_. Done pb_report), pe_rev = (\<lambda>_. Done pb_report)\<rparr>"

theorem probe_replies_witness:
  "(\<exists>res. snd (probe_end (probe pb_codes itoa pb_print (path_to_json itoa pb_print (\<lambda>_. '''')) (\<lambda>_. pb_segs) pb_env ''4'' '''')
     \<lparr>ps_busy = True, ps_running = 1\<rparr>) = (200, Inr res)) \<and>
   snd (probe_begin (Some (''4'', '''')) Inr \<lparr>ps_busy = True, ps_running = 1\<rparr>) = (Inl (409, ''probe in flight'') :: int \<times> string + string \<times> string)"
proof -
  have e: "pe_paths pb_env = Done [pb_slow, pb_md]" by (simp add: pb_env_def)
  have c: "chosen pb_print '''' [pb_slow, pb_md] pb_md"
  proof -
    have "sort_paths pb_print [pb_slow, pb_md] = [] @ pb_md # [pb_slow]" by code_simp
    then show ?thesis unfolding chosen_def by auto
  qed
  have st: "awaits_reply pb_env pb_md" "reply_reports pb_env pb_md pb_report pb_report"
    by (simp_all add: awaits_reply_def reply_reports_def pb_env_def)
  have "\<not> isl (records pb_codes itoa pb_report (fwd_path_meta pb_md pb_segs) True)"
    "\<not> isl (records pb_codes itoa pb_report (rev_path_meta pb_md pb_segs) True)" by code_simp+
  then obtain fs rs where r: "records pb_codes itoa pb_report (fwd_path_meta pb_md pb_segs) True = Inr fs"
    "records pb_codes itoa pb_report (rev_path_meta pb_md pb_segs) True = Inr rs"
    by (metis sum.collapse(2))
  obtain s' code body where p: "(s', code, body) =
      probe_end (probe pb_codes itoa pb_print (path_to_json itoa pb_print (\<lambda>_. '''')) (\<lambda>_. pb_segs) pb_env ''4'' '''')
        \<lparr>ps_busy = True, ps_running = 1\<rparr>"
    by (metis surj_pair)
  have b: "probe_begin (Some (''4'', '''')) Inr \<lparr>ps_busy = True, ps_running = 1\<rparr> =
      (\<lparr>ps_busy = True, ps_running = 1\<rparr>, Inl (409, ''probe in flight'') :: int \<times> string + string \<times> string)"
    by (simp add: probe_begin_def)
  note got = probe_replies [OF p b]
  have "\<exists>res. code = 200 \<and> body = Inr res" using got e c st r by blast
  then show ?thesis using b unfolding p [symmetric] by simp
qed

end
