(* ===== verification/RateLimit.thy ===== *)
theory RateLimit
  imports NetIp
begin

text \<open>
  \<open>dashboard/backend/internal/ratelimit\<close>: the sliding-window limiter in front of the join claim.
  Times are integers of nanoseconds; the injected clock's reading is an argument.  \<open>Allow\<close> runs under
  the limiter's lock.  \<open>ClientKey\<close> turns a remote address into a key: the IPv4 address, or the /64
  network of an IPv6 address.
\<close>

section \<open>The limiter\<close>

text \<open>A key without hits has a nil slice, which reads as the empty list.\<close>

record limiter =
  lim_max :: int
  lim_window :: int
  lim_hits :: "string \<Rightarrow> int list"

definition limiter_new :: "int \<Rightarrow> int \<Rightarrow> limiter" where
  "limiter_new mx window = \<lparr>lim_max = mx, lim_window = window, lim_hits = (\<lambda>_. [])\<rparr>"

text \<open>The slice is filtered in place into \<open>kept\<close>; a denial stores the filtered slice back.\<close>

definition allow :: "limiter \<Rightarrow> int \<Rightarrow> string \<Rightarrow> limiter \<times> bool" where
  "allow l now key =
     (let cutoff = now - lim_window l;
          kept = filter (\<lambda>t. cutoff < t) (lim_hits l key) in
      if lim_max l \<le> int (length kept) then (l\<lparr>lim_hits := (lim_hits l)(key := kept)\<rparr>, False)
      else (l\<lparr>lim_hits := (lim_hits l)(key := kept @ [now])\<rparr>, True))"

section \<open>A run of calls\<close>

definition limiter_run :: "limiter \<Rightarrow> (int \<times> string) list \<Rightarrow> limiter" where
  "limiter_run l evs = foldl (\<lambda>l (t, k). fst (allow l t k)) l evs"

text \<open>The times of the permitted calls for a key, oldest first.\<close>

fun granted :: "limiter \<Rightarrow> (int \<times> string) list \<Rightarrow> string \<Rightarrow> int list" where
  "granted l [] k = []"
| "granted l ((t, k') # evs) k =
     (if k' = k \<and> snd (allow l t k') then t # granted (fst (allow l t k')) evs k
      else granted (fst (allow l t k')) evs k)"

lemma allow_const [simp]: "lim_max (fst (allow l t k)) = lim_max l" "lim_window (fst (allow l t k)) = lim_window l"
  by (simp_all add: allow_def Let_def)

lemma run_const [simp]: "lim_max (limiter_run l evs) = lim_max l" "lim_window (limiter_run l evs) = lim_window l"
  by (induction evs arbitrary: l) (auto simp: limiter_run_def split_def)

lemma granted_append:
  "granted l (evs @ fs) k = granted l evs k @ granted (limiter_run l evs) fs k"
  by (induction evs arbitrary: l) (auto simp: limiter_run_def)

lemma run_append: "limiter_run l (evs @ fs) = limiter_run (limiter_run l evs) fs"
  by (simp add: limiter_run_def)

text \<open>
  What the hits forget does not matter: they agree with the permitted calls on every window that ends
  at or after the last event.
\<close>

lemma hits_granted:
  assumes "sorted (map fst evs)" "\<forall>e \<in> set evs. fst e \<le> t" "0 \<le> lim_window l" "\<And>k. lim_hits l k = []"
  shows "filter (\<lambda>s. t - lim_window l < s) (lim_hits (limiter_run l evs) k) =
         filter (\<lambda>s. t - lim_window l < s) (granted l evs k)"
  using assms(1,2)
proof (induction evs arbitrary: t k rule: rev_induct)
  case Nil
  then show ?case by (simp add: limiter_run_def assms(4))
next
  case (snoc e evs)
  obtain u k' where e: "e = (u, k')" by (cases e)
  have u: "u \<le> t" "sorted (map fst evs)" "\<forall>e \<in> set evs. fst e \<le> u" "\<forall>e \<in> set evs. fst e \<le> t"
    using snoc.prems e by (auto simp: sorted_append)
  let ?l = "limiter_run l evs"
  have run: "limiter_run l (evs @ [(u, k')]) = fst (allow ?l u k')" by (simp add: limiter_run_def)
  have sub: "filter (\<lambda>s. t - lim_window l < s) (filter (\<lambda>s. u - lim_window l < s) xs) =
      filter (\<lambda>s. t - lim_window l < s) xs" for xs
    unfolding filter_filter using u(1) by (intro filter_cong) auto
  have IH: "filter (\<lambda>s. t - lim_window l < s) (lim_hits ?l k) =
      filter (\<lambda>s. t - lim_window l < s) (granted l evs k)"
    using snoc.IH u by blast
  show ?case
    using IH sub [of "lim_hits ?l k"] unfolding e run granted_append
    by (cases "k' = k") (auto simp: allow_def Let_def)
qed

text \<open>
  The limiter decides exactly by the sliding window: with a clock that does not run backwards, a
  call is permitted if and only if fewer than \<open>max\<close> calls for its key were permitted in the window
  before it, whatever happened for other keys, and whatever was denied.
\<close>

theorem allow_exact:
  assumes "sorted (map fst evs @ [t])" "0 \<le> w"
  shows "snd (allow (limiter_run (limiter_new mx w) evs) t k) \<longleftrightarrow>
    int (length (filter (\<lambda>s. t - w < s) (granted (limiter_new mx w) evs k))) < mx"
proof -
  have "filter (\<lambda>s. t - w < s) (lim_hits (limiter_run (limiter_new mx w) evs) k) =
      filter (\<lambda>s. t - w < s) (granted (limiter_new mx w) evs k)"
    using hits_granted [of evs t "limiter_new mx w" k] assms
    by (simp add: limiter_new_def sorted_append)
  then show ?thesis by (auto simp: allow_def Let_def limiter_new_def)
qed

theorem allow_exact_witness:
  "\<not> snd (allow (limiter_run (limiter_new 2 10) [(1, ''a''), (2, ''b''), (3, ''a'')]) 8 ''a'')"
proof -
  have "granted (limiter_new 2 10) [(1, ''a''), (2, ''b''), (3, ''a'')] ''a'' = [1, 3]"
    by (simp add: allow_def limiter_new_def Let_def)
  then show ?thesis
    using allow_exact [of "[(1, ''a''), (2, ''b''), (3, ''a'')]" 8 10 2 "''a''"] by simp
qed

lemma allow_window:
  assumes "sorted (map fst evs)" "0 \<le> w" "0 \<le> mx"
  shows "int (length (filter (\<lambda>s. a < s \<and> s \<le> a + w) (granted (limiter_new mx w) evs k))) \<le> mx"
  using assms(1)
proof (induction evs rule: rev_induct)
  case (snoc e evs)
  obtain t k' where e: "e = (t, k')" by (cases e)
  let ?l = "limiter_new mx w"
  have sorted: "sorted (map fst evs @ [t])" using snoc.prems e by simp
  have IH: "int (length (filter (\<lambda>s. a < s \<and> s \<le> a + w) (granted ?l evs k))) \<le> mx"
    using snoc by (simp add: sorted_append)
  show ?case
  proof (cases "k' = k \<and> snd (allow (limiter_run ?l evs) t k') \<and> a < t \<and> t \<le> a + w")
    case True
    then have "int (length (filter (\<lambda>s. t - w < s) (granted ?l evs k))) < mx"
      using allow_exact [OF sorted assms(2)] by blast
    moreover have "length (filter (\<lambda>s. a < s \<and> s \<le> a + w) (granted ?l evs k)) \<le>
        length (filter (\<lambda>s. t - w < s) (granted ?l evs k))"
      unfolding length_filter_conv_card using True by (intro card_mono) auto
    ultimately show ?thesis using True by (simp add: granted_append e)
  qed (use IH in \<open>auto simp: granted_append e\<close>)
qed (use assms in simp)

text \<open>
  C12: No window is ever overrun: however the calls fall, at most \<open>max\<close> calls for one key are
  permitted in any half-open interval of the window's length.
\<close>

theorem allow_window_bound:
  assumes "sorted (map fst evs)" "0 \<le> w" "0 \<le> mx"
  shows "int (length (filter (\<lambda>s. a < s \<and> s \<le> a + w) (granted (limiter_new mx w) evs k))) \<le> mx"
  using assms by (rule allow_window)

theorem allow_window_bound_witness:
  "int (length (filter (\<lambda>s. 0 < s \<and> s \<le> 0 + 10)
     (granted (limiter_new 2 10) [(1, ''a''), (2, ''a''), (3, ''a''), (12, ''a'')] ''a''))) \<le> 2"
  by (rule allow_window_bound) simp_all

section \<open>Client keys\<close>

text \<open>\<open>CIDRMask(64, 128)\<close> keeps the first eight bytes.\<close>

definition mask64 :: "8 word list \<Rightarrow> 8 word list" where
  "mask64 b = take 8 b @ replicate 8 0"

definition client_key :: "string \<Rightarrow> string" where
  "client_key remote =
     (let host = (case split_host_port remote of Inl _ \<Rightarrow> remote | Inr (h, _) \<Rightarrow> h) in
      case parse_ip host of
        None \<Rightarrow> host
      | Some ip \<Rightarrow> (case ip_to4 ip of Some v4 \<Rightarrow> v4_string v4 | None \<Rightarrow> ip_string (mask64 ip)))"

definition join_groups :: "nat list \<Rightarrow> string" where
  "join_groups xs = concat (map (\<lambda>(i, g). (if i = 0 then [] else '':'') @ hex_digits g) (enumerate 0 xs))"

lemma v6_string_join: "v6_string b = (case zero_run (v6_groups b) of (zs, ze) \<Rightarrow>
    if zs = 255 then join_groups (v6_groups b)
    else join_groups (take zs (v6_groups b)) @ ''::'' @ join_groups (drop ze (v6_groups b)))"
  by (simp add: v6_string_def join_groups_def Let_def split_def)

lemma hex_char_chars: "d < 16 \<Longrightarrow> hex_char d \<noteq> CHR '':'' \<and> hex_char d \<noteq> CHR ''.'' \<and> hex_val (hex_char d) = Some d"
proof -
  have "\<forall>d \<in> set [0..<16]. hex_char d \<noteq> CHR '':'' \<and> hex_char d \<noteq> CHR ''.'' \<and> hex_val (hex_char d) = Some d"
    by code_simp
  then show "d < 16 \<Longrightarrow> ?thesis" by simp
qed

lemma hex_digits_chars: "CHR '':'' \<notin> set (hex_digits n)" "CHR ''.'' \<notin> set (hex_digits n)" "hex_digits n \<noteq> []"
proof -
  have "hex_digits n \<noteq> [] \<and> CHR '':'' \<notin> set (hex_digits n) \<and> CHR ''.'' \<notin> set (hex_digits n)"
  proof (induction n rule: hex_digits.induct)
    case (1 n)
    have "hex_char (n mod 16) \<noteq> CHR '':'' \<and> hex_char (n mod 16) \<noteq> CHR ''.''"
      using hex_char_chars [of "n mod 16"] by simp
    with 1 show ?case
      by (subst (1 2 3) hex_digits.simps) (use hex_char_chars [of n] in auto)
  qed
  then show "CHR '':'' \<notin> set (hex_digits n)" "CHR ''.'' \<notin> set (hex_digits n)" "hex_digits n \<noteq> []" by auto
qed

lemma hex_digits_value: "hex_value (hex_digits n) = int n"
proof (induction n rule: hex_digits.induct)
  case (1 n)
  have "int (n div 16) * 16 + int (n mod 16) = int n"
    by (metis div_mult_mod_eq of_nat_add of_nat_mult of_nat_numeral)
  then show ?case
    using 1 hex_char_chars [of "n mod 16"] hex_char_chars [of n]
    by (subst hex_digits.simps) (auto simp: hex_value_def)
qed

lemma hex_digits_inj: "hex_digits a = hex_digits b \<longleftrightarrow> a = b"
  by (metis hex_digits_value of_nat_eq_iff)

lemma join_groups_Cons:
  "join_groups (x # xs) = hex_digits x @ concat (map (\<lambda>g. CHR '':'' # hex_digits g) xs)"
proof -
  have "concat (map (\<lambda>(i, g). (if i = 0 then [] else '':'') @ hex_digits g) (enumerate (Suc n) ys)) =
      concat (map (\<lambda>g. CHR '':'' # hex_digits g) ys)" for n and ys :: "nat list"
    by (induction ys arbitrary: n) auto
  then show ?thesis by (simp add: join_groups_def)
qed

lemma split_join_groups: "split_on CHR '':'' (join_groups (x # xs)) = map hex_digits (x # xs)"
proof -
  have "split_on CHR '':'' (s @ concat (map (\<lambda>g. CHR '':'' # hex_digits g) xs)) = s # map hex_digits xs"
    if "CHR '':'' \<notin> set s" for s
    using that
    by (induction xs arbitrary: s) (auto simp: split_on_append split_on_no_sep hex_digits_chars)
  then show ?thesis by (simp add: join_groups_Cons hex_digits_chars)
qed

lemma join_groups_inj: "join_groups xs = join_groups ys \<longleftrightarrow> xs = ys"
proof
  assume eq: "join_groups xs = join_groups ys"
  have ne: "join_groups (x # xs) \<noteq> join_groups []" for x xs
    using hex_digits_chars(3) [of x] by (simp add: join_groups_Cons) (simp add: join_groups_def)
  have inj: "map hex_digits xs = map hex_digits ys \<Longrightarrow> xs = ys"
    by (rule map_inj_on [of hex_digits]) (auto simp: inj_on_def hex_digits_inj)
  show "xs = ys"
  proof (cases xs; cases ys)
    fix x xs' y ys' assume "xs = x # xs'" "ys = y # ys'"
    with eq inj show ?thesis by (metis split_join_groups)
  qed (use eq ne in \<open>auto dest: sym\<close>)
qed simp

text \<open>A masked address prints as its leading groups without trailing zeros, then a double colon.\<close>

definition strip_zeros :: "nat list \<Rightarrow> nat list" where
  "strip_zeros xs = rev (dropWhile (\<lambda>g. g = 0) (rev xs))"

lemma upt_8: "[0..<8] = [0, 1, 2, 3, 4, 5, 6, 7]"
  by (simp add: upt_rec)

lemma zero_run_masked:
  "zero_run [a, b, c, d, 0, 0, 0, 0] = (length (strip_zeros [a, b, c, d]), 8)"
  by (cases "a = 0"; cases "b = 0"; cases "c = 0"; cases "d = 0")
    (simp_all add: zero_run_def strip_zeros_def Let_def upt_8)

lemma take_strip: "take (length (strip_zeros [a, b, c, d])) [a, b, c, d, 0, 0, 0, 0] = strip_zeros [a, b, c, d]"
  by (cases "a = 0"; cases "b = 0"; cases "c = 0"; cases "d = 0") (simp_all add: strip_zeros_def)

lemma strip_pad: "strip_zeros xs @ replicate (length xs - length (strip_zeros xs)) 0 = xs"
proof -
  define z where "z = takeWhile (\<lambda>g. g = 0) (rev xs)"
  have "rev (rev xs) = strip_zeros xs @ rev z"
    unfolding strip_zeros_def z_def by (simp only: rev_append [symmetric] takeWhile_dropWhile_id)
  then have xs: "xs = strip_zeros xs @ rev z" by simp
  have "rev z = replicate (length z) 0"
    by (rule replicate_eqI) (auto simp: z_def dest: set_takeWhileD)
  moreover have "length xs = length (strip_zeros xs) + length z"
    using arg_cong [OF xs, of length] by simp
  ultimately show ?thesis using xs by simp
qed

lemma length_strip: "length (strip_zeros xs) \<le> length xs"
  using length_dropWhile_le [of _ "rev xs"] by (simp add: strip_zeros_def)

lemma strip_inj: "length xs = length ys \<Longrightarrow> strip_zeros xs = strip_zeros ys \<longleftrightarrow> xs = ys"
  by (metis strip_pad)

lemma byte_pair_inj: "unat a * 256 + unat b = unat a' * 256 + unat b' \<longleftrightarrow> a = a' \<and> b = (b' :: 8 word)"
proof
  assume eq: "unat a * 256 + unat b = unat a' * 256 + unat b'"
  have lt: "unat b < 256" "unat b' < 256" using unsigned_less [of b] unsigned_less [of b'] by simp_all
  have "unat a = unat a'" using arg_cong [OF eq, of "\<lambda>n. n div 256"] lt by simp
  with eq show "a = a' \<and> b = b'" by (simp add: word_unat_eq_iff)
qed simp

lemma length_8: "length xs = 8 \<longleftrightarrow> (\<exists>a b c d e f g h. xs = [a, b, c, d, e, f, g, h])"
  by (auto simp: numeral_eq_Suc length_Suc_conv)

lemma masked_groups:
  assumes "length b = 8"
  shows "v6_groups (b @ replicate 8 0) =
    [unat (b ! 0) * 256 + unat (b ! 1), unat (b ! 2) * 256 + unat (b ! 3),
     unat (b ! 4) * 256 + unat (b ! 5), unat (b ! 6) * 256 + unat (b ! 7), 0, 0, 0, 0]"
  using assms by (auto simp: length_8 v6_groups_def upt_8)

lemma masked_groups_inj:
  assumes "length a = 8" "length b = 8"
  shows "take 4 (v6_groups (a @ replicate 8 0)) = take 4 (v6_groups (b @ replicate 8 0)) \<longleftrightarrow> a = b"
  unfolding masked_groups [OF assms(1)] masked_groups [OF assms(2)]
  using assms by (auto simp: length_8 byte_pair_inj)

lemma masked_string:
  assumes "length b = 16"
  shows "ip_string (mask64 b) = join_groups (strip_zeros (take 4 (v6_groups (mask64 b)))) @ ''::''"
proof -
  have len: "length (take 8 b) = 8" using assms by simp
  have "mask64 b ! 10 = 0" using assms by (simp add: mask64_def nth_append)
  moreover have "v4_in_6 ! 10 = 0xff" by (simp add: v4_in_6_def nth_append)
  moreover have "take 12 (mask64 b) ! 10 = mask64 b ! 10" by simp
  ultimately have "take 12 (mask64 b) ! 10 \<noteq> v4_in_6 ! 10" by simp
  then have "take 12 (mask64 b) \<noteq> v4_in_6" by metis
  then have "ip_string (mask64 b) = v6_string (mask64 b)" by (simp add: ip_string_def ip_to4_def)
  also have "\<dots> = join_groups (strip_zeros (take 4 (v6_groups (mask64 b)))) @ ''::''"
    unfolding v6_string_join mask64_def masked_groups [OF len] zero_run_masked
    using length_strip [of "take 4 (v6_groups (take 8 b @ replicate 8 0))"]
    by (simp add: take_strip masked_groups [OF len] join_groups_def)
  finally show ?thesis .
qed

lemma masked_string_inj:
  assumes "length a = 16" "length b = 16"
  shows "ip_string (mask64 a) = ip_string (mask64 b) \<longleftrightarrow> take 8 a = take 8 b"
proof -
  have len: "length (take 8 a) = 8" "length (take 8 b) = 8" using assms by simp_all
  have "ip_string (mask64 a) = ip_string (mask64 b) \<longleftrightarrow>
      take 4 (v6_groups (mask64 a)) = take 4 (v6_groups (mask64 b))"
    using assms by (simp add: masked_string join_groups_inj strip_inj v6_groups_def)
  also have "\<dots> \<longleftrightarrow> take 8 a = take 8 b"
    unfolding mask64_def by (rule masked_groups_inj [OF len])
  finally show ?thesis .
qed

lemma masked_string_colons: "length b = 16 \<Longrightarrow> CHR '':'' \<in> set (ip_string (mask64 b))"
  by (simp add: masked_string)

lemma v4_string_colons: "CHR '':'' \<notin> set (v4_string b)"
  by (simp add: v4_string_def)

text \<open>
  The limiter counts clients by address for IPv4 and by /64 network for IPv6: two remote
  addresses, whatever their ports, get the same key exactly when they are the same IPv4 address,
  possibly written in its IPv6 form, or two IPv6 addresses that agree on the first 64 bits.
\<close>

theorem client_key_network:
  assumes "split_host_port r1 = Inr (h1, port1)" "split_host_port r2 = Inr (h2, port2)"
    and "parse_ip h1 = Some b1" "parse_ip h2 = Some b2"
  shows "client_key r1 = client_key r2 \<longleftrightarrow>
    (case (ip_to4 b1, ip_to4 b2) of
       (Some a, Some b) \<Rightarrow> a = b
     | (None, None) \<Rightarrow> take 8 b1 = take 8 b2
     | _ \<Rightarrow> False)"
proof -
  have len: "length b1 = 16" "length b2 = 16" using assms(3,4) by (auto dest: parse_ip_length)
  have v4: "length a = 4" if "ip_to4 b = Some a" "length b = 16" for a b
    using that by (auto simp: ip_to4_def split: if_splits)
  have mixed: "v4_string a \<noteq> ip_string (mask64 b)" if "length b = 16" for a b
    using masked_string_colons [OF that] v4_string_colons [of a] by auto
  show ?thesis
    using assms len by (auto simp: client_key_def v4_string_inj masked_string_inj mixed mixed [symmetric] v4 split: option.splits)
qed

lemma ex_clients:
  "split_host_port ''[2001:db8:1:2::5]:4711'' = Inr (''2001:db8:1:2::5'', ''4711'')"
  "split_host_port ''[2001:db8:1:2:ffff::9]:80'' = Inr (''2001:db8:1:2:ffff::9'', ''80'')"
  "parse_ip ''2001:db8:1:2::5'' = Some [0x20, 1, 0xd, 0xb8, 0, 1, 0, 2, 0, 0, 0, 0, 0, 0, 0, 5]"
  "parse_ip ''2001:db8:1:2:ffff::9'' = Some [0x20, 1, 0xd, 0xb8, 0, 1, 0, 2, 0xff, 0xff, 0, 0, 0, 0, 0, 9]"
  by code_simp+

theorem client_key_network_witness:
  "client_key ''[2001:db8:1:2::5]:4711'' = client_key ''[2001:db8:1:2:ffff::9]:80''"
  using client_key_network [OF ex_clients] by (simp add: ip_to4_def v4_in_6_def)

end
