(* ===== verification/ScitraMap.thy ===== *)
theory ScitraMap
  imports NetIp
begin

unbundle bit_operations_syntax

text \<open>
  \<open>dashboard/backend/internal/scitramap\<close>: the SCION-mapped IPv6 address of an IPv4 host.  The bytes
  are computed with the code's shifts and masks; the theorem reads them back as the bit fields of
  the scheme.
\<close>

datatype map_error = IsdRange int | AsnRange int | NotIPv4 ip_addr

text \<open>\<open>As4\<close> yields the four bytes of an IPv4 address.\<close>

definition mapped_ipv6 :: "int \<Rightarrow> int \<Rightarrow> ip_addr \<Rightarrow> map_error + ip_addr" where
  "mapped_ipv6 isd asn v4 =
     (if isd < 0 \<or> push_bit 12 1 \<le> isd then Inl (IsdRange isd)
      else if asn < 0 \<or> push_bit 19 1 \<le> asn then Inl (AsnRange asn)
      else case v4 of
        IPv4 b4 \<Rightarrow> Inr (IPv6 ([0xfc,
          go_byte (drop_bit 4 isd),
          push_bit 4 (go_byte (isd AND 0xf)) OR go_byte (drop_bit 16 asn),
          go_byte (drop_bit 8 asn),
          go_byte asn, 0, 0, 0, 0, 0, 0xff, 0xff] @ b4) '''')
      | _ \<Rightarrow> Inl (NotIPv4 v4))"

text \<open>The value of a big-endian byte string.\<close>

definition be_value :: "8 word list \<Rightarrow> int" where
  "be_value bs = foldl (\<lambda>v b. v * 256 + uint b) 0 bs"

lemma be_value_append: "be_value (xs @ ys) = be_value xs * 256 ^ length ys + be_value ys"
proof -
  have lin: "foldl (\<lambda>v b. v * 256 + uint b) a ys = a * 256 ^ length ys + foldl (\<lambda>v b. v * 256 + uint b) 0 ys" for a
  proof (induction ys arbitrary: a)
    case (Cons y ys)
    show ?case
      unfolding foldl_Cons Cons [of "a * 256 + uint y"] Cons [of "0 * 256 + uint y"]
      by (simp add: distrib_right mult.assoc)
  qed simp
  show ?thesis unfolding be_value_def foldl_append by (rule lin)
qed

lemma uint_go_byte: "uint (go_byte n) = n mod 256"
  by (simp add: uint_word_of_int)

lemma or_nibbles:
  assumes "0 \<le> x" "x < 16" "0 \<le> y" "y < 8"
  shows "uint (push_bit 4 (go_byte x) OR go_byte y) = x * 16 + y"
proof -
  have "push_bit 4 x AND y = 0"
  proof (rule bit_eqI)
    fix n
    have "take_bit 3 y = y" using assms by (simp add: take_bit_eq_mod)
    then have "bit y n \<Longrightarrow> n < 3" by (metis bit_take_bit_iff)
    then show "bit (push_bit 4 x AND y) n \<longleftrightarrow> bit 0 n" by (auto simp: bit_simps)
  qed
  then have "push_bit 4 x + y = push_bit 4 x OR y" by (rule disjunctive_add_eq_or)
  then have "push_bit 4 x OR y = x * 16 + y" by (simp add: push_bit_eq_mult)
  then show ?thesis
    using assms unfolding uint_or unsigned_push_bit_eq uint_go_byte
    by (simp add: take_bit_eq_mod push_bit_eq_mult)
qed

lemma layout_arith:
  "((((0xfc * 256 + a) * 256 + (b * 16 + c)) * 256 + d) * 256 + e) * 2 ^ 56 + 0xffff =
   (0xfc * 2 ^ 88 + (a * 16 + b) * 2 ^ 76 + (c * 65536 + d * 256 + e) * 2 ^ 56 + 0xffff :: int)"
  by (simp add: algebra_simps)

lemma asn_bytes: "n div 65536 * 65536 + n div 256 mod 256 * 256 + n mod 256 = (n :: int)"
proof -
  have "n div 65536 = n div 256 div 256" by (simp add: zdiv_zmult2_eq [symmetric])
  then show ?thesis using div_mult_mod_eq [of n 256] div_mult_mod_eq [of "n div 256" 256] by linarith
qed

text \<open>
  The mapped address has the documented layout: for every 12-bit ISD, direct-mapped ASN and IPv4
  host it is 16 bytes whose value is 0xfc in 8 bits, the ISD in 12, the ASN in 20, 24 zero bits and
  0x0000ffff before the host; so different hosts, ASNs and ISDs get different addresses.
\<close>

theorem mapped_ipv6_layout:
  assumes "0 \<le> isd" "isd < 2 ^ 12" "0 \<le> asn" "asn < 2 ^ 19" "length b4 = 4"
  shows "\<exists>b. mapped_ipv6 isd asn (IPv4 b4) = Inr (IPv6 b '''') \<and> length b = 16 \<and>
    be_value b = 0xfc * 2 ^ 120 + isd * 2 ^ 108 + asn * 2 ^ 88 + 0xffff * 2 ^ 32 + be_value b4"
proof -
  have isd: "0 \<le> isd div 16" "isd div 16 < 256" "0 \<le> isd mod 16" "isd mod 16 < 16" using assms by auto
  have asn: "0 \<le> asn div 65536" "asn div 65536 < 8" using assms by auto
  have a: "isd AND 15 = isd mod 16" 
    using take_bit_eq_mask [of 4 isd] by (simp add: take_bit_eq_mod mask_eq_exp_minus_1)
  have b2: "uint (push_bit 4 (go_byte (isd AND 15)) OR go_byte (asn div 65536)) = isd mod 16 * 16 + asn div 65536"
    using or_nibbles [of "isd mod 16" "asn div 65536"] isd asn by (simp add: a)
  let ?hd = "[0xfc, go_byte (drop_bit 4 isd), push_bit 4 (go_byte (isd AND 0xf)) OR go_byte (drop_bit 16 asn),
    go_byte (drop_bit 8 asn), go_byte asn, 0, 0, 0, 0, 0, 0xff, 0xff]"
  have "be_value ?hd = ((((0xfc * 256 + isd div 16) * 256 + (isd mod 16 * 16 + asn div 65536)) * 256 +
      asn div 256 mod 256) * 256 + asn mod 256) * 2 ^ 56 + 0xffff"
    using isd by (simp add: be_value_def b2 uint_go_byte drop_bit_eq_div)
  also have "\<dots> = 0xfc * 2 ^ 88 + (isd div 16 * 16 + isd mod 16) * 2 ^ 76 +
      (asn div 65536 * 65536 + asn div 256 mod 256 * 256 + asn mod 256) * 2 ^ 56 + 0xffff"
    by (rule layout_arith)
  also have "\<dots> = 0xfc * 2 ^ 88 + isd * 2 ^ 76 + asn * 2 ^ 56 + 0xffff"
    unfolding asn_bytes by (simp only: div_mult_mod_eq)
  finally have "be_value (?hd @ b4) = (0xfc * 2 ^ 88 + isd * 2 ^ 76 + asn * 2 ^ 56 + 0xffff) * 2 ^ 32 + be_value b4"
    using assms(5) by (simp only: be_value_append) simp
  moreover have "mapped_ipv6 isd asn (IPv4 b4) = Inr (IPv6 (?hd @ b4) '''')"
    using assms by (simp add: mapped_ipv6_def)
  ultimately show ?thesis using assms(5) by (simp add: algebra_simps)
qed

theorem mapped_ipv6_layout_witness:
  "\<exists>b. mapped_ipv6 1 150 (IPv4 [10, 150, 0, 71]) = Inr (IPv6 b '''') \<and>
    be_value b = 0xfc * 2 ^ 120 + 1 * 2 ^ 108 + 150 * 2 ^ 88 + 0xffff * 2 ^ 32 + be_value [10, 150, 0, 71]"
  using mapped_ipv6_layout [of 1 150 "[10, 150, 0, 71]"] by auto

end
