(* ===== verification/WgPool.thy ===== *)
theory WgPool
  imports Prelude
begin

text \<open>
  \<open>dashboard/backend/internal/wgpool\<close>: the pool of preconfigured WireGuard slots.  The files are
  part of the state, as the values their JSON text encodes: what a process reads at start and what the
  temp-and-rename write leaves behind, also when it fails.  Each operation runs under the store's lock.
\<close>

section \<open>Data\<close>

record wg_slot =
  sl_n :: int
  sl_ip :: string
  sl_private_key :: string
  sl_public_key :: string

record pool_file =
  pf_server_public_key :: string
  pf_listen_port :: int
  pf_slots :: "wg_slot list"

record wg_claim =
  cl_n :: int
  cl_as :: int
  cl_at :: int

record state_file =
  sf_claims :: "wg_claim list"
  sf_burned :: "int list"

record wg_store =
  wg_pool :: pool_file
  wg_state :: state_file
  wg_taken :: "int \<Rightarrow> bool"

text \<open>What \<open>os.ReadFile\<close> and \<open>json.Unmarshal\<close> make of a file.\<close>

datatype 'a disk_file = NotExist | Unreadable string | Malformed string | Contents 'a

datatype wg_error = ReadPool | ParsePool string | ReadState string | ParseState string
  | Exhausted | PersistWrite | PersistRename

text \<open>The outcome the file system gives \<open>persistLocked\<close>.\<close>

datatype fs_outcome = FsOk | FsWriteFails | FsRenameFails

section \<open>Operations\<close>

definition empty_state :: state_file where
  "empty_state = \<lparr>sf_claims = [], sf_burned = []\<rparr>"

definition wg_open :: "pool_file disk_file \<Rightarrow> state_file disk_file \<Rightarrow> wg_error + wg_store" where
  "wg_open pool disk =
     (let start = (\<lambda>p st. Inr \<lparr>wg_pool = p, wg_state = st,
        wg_taken = foldl (\<lambda>m n. m(n := True)) (foldl (\<lambda>m c. m(cl_n c := True)) (\<lambda>_. False) (sf_claims st))
          (sf_burned st)\<rparr>) in
      case pool of
        NotExist \<Rightarrow> Inl ReadPool
      | Unreadable e \<Rightarrow> Inl ReadPool
      | Malformed e \<Rightarrow> Inl (ParsePool e)
      | Contents p \<Rightarrow> (case disk of
          Contents st \<Rightarrow> start p st
        | Malformed e \<Rightarrow> Inl (ParseState e)
        | Unreadable e \<Rightarrow> Inl (ReadState e)
        | NotExist \<Rightarrow> start p empty_state))"

definition persist :: "wg_store \<Rightarrow> fs_outcome \<Rightarrow> state_file disk_file \<Rightarrow> state_file disk_file \<times> wg_error option" where
  "persist s out disk = (case out of
     FsWriteFails \<Rightarrow> (disk, Some PersistWrite)
   | FsRenameFails \<Rightarrow> (disk, Some PersistRename)
   | FsOk \<Rightarrow> (Contents (wg_state s), None))"

fun claim_loop ::
  "wg_store \<Rightarrow> int \<Rightarrow> int \<Rightarrow> fs_outcome \<Rightarrow> state_file disk_file \<Rightarrow> wg_slot list \<Rightarrow>
   wg_store \<times> state_file disk_file \<times> (wg_error + wg_slot)" where
  "claim_loop s as at out disk [] = (s, disk, Inl Exhausted)"
| "claim_loop s as at out disk (sl # sls) =
     (if wg_taken s (sl_n sl) then claim_loop s as at out disk sls
      else let s1 = s\<lparr>wg_taken := (wg_taken s)(sl_n sl := True),
             wg_state := (wg_state s)\<lparr>sf_claims := sf_claims (wg_state s) @
               [\<lparr>cl_n = sl_n sl, cl_as = as, cl_at = at\<rparr>]\<rparr>\<rparr> in
        (case persist s1 out disk of
           (disk1, Some e) \<Rightarrow> (s1, disk1, Inl e)
         | (disk1, None) \<Rightarrow> (s1, disk1, Inr sl)))"

definition wg_claim_slot ::
  "wg_store \<Rightarrow> int \<Rightarrow> int \<Rightarrow> fs_outcome \<Rightarrow> state_file disk_file \<Rightarrow> wg_store \<times> state_file disk_file \<times> (wg_error + wg_slot)" where
  "wg_claim_slot s as at out disk = claim_loop s as at out disk (pf_slots (wg_pool s))"

definition wg_stats :: "wg_store \<Rightarrow> int \<times> int \<times> int" where
  "wg_stats s = (int (length (pf_slots (wg_pool s))), int (length (sf_claims (wg_state s))),
     int (length (sf_burned (wg_state s))))"

definition server_public_key :: "wg_store \<Rightarrow> string" where
  "server_public_key s = pf_server_public_key (wg_pool s)"

section \<open>The pool across claims, failures and restarts\<close>

definition state_taken :: "state_file \<Rightarrow> int set" where
  "state_taken st = cl_n ` set (sf_claims st) \<union> set (sf_burned st)"

lemma wg_open_spec:
  assumes "wg_open pool disk = Inr s"
  shows "disk = Contents (wg_state s) \<or> disk = NotExist \<and> wg_state s = empty_state"
    and "wg_taken s n \<longleftrightarrow> n \<in> state_taken (wg_state s)"
proof -
  have upd: "foldl (\<lambda>m n. m(n := True)) f ns n \<longleftrightarrow> f n \<or> n \<in> set ns" for f :: "int \<Rightarrow> bool" and ns n
    by (induction ns arbitrary: f) auto
  have upd': "foldl (\<lambda>m c. m(cl_n c := True)) f cs n \<longleftrightarrow> f n \<or> n \<in> cl_n ` set cs" for f and cs :: "wg_claim list" and n
    by (induction cs arbitrary: f) auto
  show "disk = Contents (wg_state s) \<or> disk = NotExist \<and> wg_state s = empty_state"
    and "wg_taken s n \<longleftrightarrow> n \<in> state_taken (wg_state s)"
    using assms by (auto simp: wg_open_def Let_def upd upd' state_taken_def split: disk_file.splits)
qed

text \<open>
  A store and the disk it persists to: everything on disk is taken in memory, and the store's own
  state says the same as its \<open>taken\<close> map.
\<close>

definition disk_taken :: "state_file disk_file \<Rightarrow> int set" where
  "disk_taken disk = (case disk of Contents st \<Rightarrow> state_taken st | _ \<Rightarrow> {})"

definition wg_inv :: "wg_store \<Rightarrow> state_file disk_file \<Rightarrow> bool" where
  "wg_inv s disk \<longleftrightarrow> {n. wg_taken s n} = state_taken (wg_state s) \<and> disk_taken disk \<subseteq> state_taken (wg_state s)"

lemma wg_open_inv:
  assumes "wg_open pool disk = Inr s"
  shows "wg_inv s disk"
proof -
  have "disk_taken disk \<subseteq> state_taken (wg_state s)"
    using wg_open_spec(1) [OF assms] by (elim disjE) (simp_all add: disk_taken_def)
  then show ?thesis by (simp add: wg_inv_def wg_open_spec(2) [OF assms])
qed

lemma claim_loop_spec:
  assumes "claim_loop s as at out disk sls = (s1, disk1, r)" "wg_inv s disk"
  shows "wg_inv s1 disk1 \<and> disk_taken disk \<subseteq> disk_taken disk1 \<and> wg_pool s1 = wg_pool s \<and>
    (case r of
       Inr sl \<Rightarrow> sl \<in> set sls \<and> \<not> wg_taken s (sl_n sl) \<and> sl_n sl \<in> disk_taken disk1
     | Inl Exhausted \<Rightarrow> (\<forall>sl \<in> set sls. wg_taken s (sl_n sl)) \<and> s1 = s \<and> disk1 = disk
     | Inl e \<Rightarrow> out \<noteq> FsOk \<and> disk1 = disk)"
  using assms
proof (induction sls)
  case (Cons sl sls)
  show ?case
  proof (cases "wg_taken s (sl_n sl)")
    case True
    with Cons show ?thesis by (auto split: sum.splits wg_error.splits)
  next
    case False
    let ?s1 = "s\<lparr>wg_taken := (wg_taken s)(sl_n sl := True),
             wg_state := (wg_state s)\<lparr>sf_claims := sf_claims (wg_state s) @
               [\<lparr>cl_n = sl_n sl, cl_as = as, cl_at = at\<rparr>]\<rparr>\<rparr>"
    have st: "state_taken (wg_state ?s1) = insert (sl_n sl) (state_taken (wg_state s))"
      by (auto simp: state_taken_def)
    have taken: "{n. wg_taken ?s1 n} = insert (sl_n sl) {n. wg_taken s n}" by auto
    have inv: "wg_inv ?s1 disk" "wg_inv ?s1 (Contents (wg_state ?s1))"
      using Cons.prems(2) unfolding wg_inv_def st taken by (auto simp: disk_taken_def state_taken_def)
    have sub: "disk_taken disk \<subseteq> disk_taken (Contents (wg_state ?s1))"
      using inv(1) unfolding wg_inv_def by (simp add: disk_taken_def)
    have "sl_n sl \<in> disk_taken (Contents (wg_state ?s1))"
      unfolding disk_taken_def using st by simp
    then show ?thesis
      using Cons.prems(1) False inv sub
      by (cases out) (auto simp: persist_def Let_def)
  qed
qed auto

text \<open>What happens to the pool: claims with whatever the file system does, and restarts.\<close>

datatype wg_op = OpClaim int int fs_outcome | OpRestart

fun wg_run ::
  "pool_file disk_file \<Rightarrow> wg_store \<Rightarrow> state_file disk_file \<Rightarrow> wg_op list \<Rightarrow> wg_slot list" where
  "wg_run pool s disk [] = []"
| "wg_run pool s disk (OpClaim as at out # ops) =
     (case wg_claim_slot s as at out disk of
        (s1, disk1, Inr sl) \<Rightarrow> sl # wg_run pool s1 disk1 ops
      | (s1, disk1, Inl e) \<Rightarrow> wg_run pool s1 disk1 ops)"
| "wg_run pool s disk (OpRestart # ops) =
     (case wg_open pool disk of
        Inl e \<Rightarrow> []
      | Inr s1 \<Rightarrow> wg_run pool s1 disk ops)"

lemma wg_run_fresh:
  assumes "wg_inv s disk"
  shows "distinct (map sl_n (wg_run pool s disk ops)) \<and>
    (\<forall>sl \<in> set (wg_run pool s disk ops). sl_n sl \<notin> disk_taken disk)"
  using assms
proof (induction pool s disk ops rule: wg_run.induct)
  case (2 pool s disk as at out ops)
  obtain s1 disk1 r where r: "wg_claim_slot s as at out disk = (s1, disk1, r)"
    by (cases "wg_claim_slot s as at out disk")
  note spec = claim_loop_spec [OF r [unfolded wg_claim_slot_def] "2.prems"]
  show ?case
  proof (cases r)
    case (Inl e)
    then have IH: "wg_inv s1 disk1 \<Longrightarrow> distinct (map sl_n (wg_run pool s1 disk1 ops)) \<and>
        (\<forall>sl \<in> set (wg_run pool s1 disk1 ops). sl_n sl \<notin> disk_taken disk1)"
      using "2.IH" r by simp
    moreover have "wg_inv s1 disk1" "disk_taken disk \<subseteq> disk_taken disk1"
      using spec by blast+
    ultimately show ?thesis using Inl r by auto
  next
    case (Inr sl)
    have "sl_n sl \<notin> disk_taken disk" "sl_n sl \<in> disk_taken disk1"
      using spec Inr "2.prems" by (auto simp: wg_inv_def)
    moreover have "wg_inv s1 disk1" "disk_taken disk \<subseteq> disk_taken disk1"
      using spec by blast+
    moreover have "distinct (map sl_n (wg_run pool s1 disk1 ops)) \<and>
        (\<forall>sl \<in> set (wg_run pool s1 disk1 ops). sl_n sl \<notin> disk_taken disk1)"
      using "2.IH" r Inr calculation by simp
    ultimately show ?thesis using Inr r by auto
  qed
next
  case (3 pool s disk ops)
  then show ?case by (auto split: sum.splits dest: wg_open_inv)
qed simp

text \<open>
  C4: No slot is ever issued twice.  Over any sequence of claims and restarts, with file system
  failures at any point, the slots handed out have different numbers, and none of them is one the
  state file had recorded as claimed or burned when the process first opened it.
\<close>

theorem slots_never_reissued:
  assumes "wg_open pool (Contents st) = Inr s"
  shows "distinct (map sl_n (wg_run pool s (Contents st) ops)) \<and>
    (\<forall>sl \<in> set (wg_run pool s (Contents st) ops).
       sl_n sl \<notin> cl_n ` set (sf_claims st) \<and> sl_n sl \<notin> set (sf_burned st))"
  using wg_run_fresh [OF wg_open_inv [OF assms], of pool ops]
  by (auto simp: disk_taken_def state_taken_def)

text \<open>
  A claim hands out a slot whenever one is left and the file system works: it returns the first
  slot of the pool that is neither claimed nor burned, records it on disk with the AS it is for, and
  reports an exhausted pool only if every slot is taken.
\<close>

theorem claim_first_free:
  assumes "wg_open pool disk0 = Inr s" "wg_claim_slot s as at FsOk disk = (s1, disk1, r)"
  shows "r = (case filter (\<lambda>sl. sl_n sl \<notin> state_taken (wg_state s)) (pf_slots (wg_pool s)) of
      [] \<Rightarrow> Inl Exhausted | sl # _ \<Rightarrow> Inr sl) \<and>
    (\<forall>sl. r = Inr sl \<longrightarrow> disk1 = Contents ((wg_state s)\<lparr>sf_claims := sf_claims (wg_state s) @
       [\<lparr>cl_n = sl_n sl, cl_as = as, cl_at = at\<rparr>]\<rparr>))"
proof -
  have taken: "wg_taken s n \<longleftrightarrow> n \<in> state_taken (wg_state s)" for n
    using assms(1) by (rule wg_open_spec)
  have loop: "claim_loop s as at FsOk disk sls = (s1, disk1, r) \<Longrightarrow>
    r = (case filter (\<lambda>sl. sl_n sl \<notin> state_taken (wg_state s)) sls of
      [] \<Rightarrow> Inl Exhausted | sl # _ \<Rightarrow> Inr sl) \<and>
    (\<forall>sl. r = Inr sl \<longrightarrow> disk1 = Contents ((wg_state s)\<lparr>sf_claims := sf_claims (wg_state s) @
       [\<lparr>cl_n = sl_n sl, cl_as = as, cl_at = at\<rparr>]\<rparr>))" for sls
    by (induction sls) (auto simp: taken persist_def Let_def)
  show ?thesis
    using loop assms(2) unfolding wg_claim_slot_def by blast
qed

definition ex_pool :: "pool_file disk_file" where
  "ex_pool = Contents \<lparr>pf_server_public_key = ''K'', pf_listen_port = 51820,
     pf_slots = map (\<lambda>n. \<lparr>sl_n = n, sl_ip = ''10.0.0.2'', sl_private_key = ''p'', sl_public_key = ''q''\<rparr>) [1, 2, 3]\<rparr>"

definition ex_state :: state_file where
  "ex_state = \<lparr>sf_claims = [], sf_burned = [2]\<rparr>"

definition ex_wg :: wg_store where
  "ex_wg = (case wg_open ex_pool (Contents ex_state) of Inr s \<Rightarrow> s)"

lemma ex_wg_open: "wg_open ex_pool (Contents ex_state) = Inr ex_wg"
  by (simp add: wg_open_def ex_pool_def ex_wg_def)

lemma ex_wg_run: "map sl_n (wg_run ex_pool ex_wg (Contents ex_state)
    [OpClaim 150 1 FsOk, OpClaim 151 2 FsRenameFails, OpRestart, OpClaim 152 3 FsOk]) = [1, 3]"
  by code_simp

theorem slots_never_reissued_witness:
  "distinct (map sl_n (wg_run ex_pool ex_wg (Contents ex_state)
    [OpClaim 150 1 FsOk, OpClaim 151 2 FsRenameFails, OpRestart, OpClaim 152 3 FsOk]))"
  using slots_never_reissued [OF ex_wg_open] by blast

theorem claim_first_free_witness:
  "\<exists>s1 disk1 sl. wg_claim_slot ex_wg 150 7 FsOk NotExist = (s1, disk1, Inr sl) \<and> sl_n sl = 1"
proof -
  obtain s1 disk1 r where r: "wg_claim_slot ex_wg 150 7 FsOk NotExist = (s1, disk1, r)"
    by (cases "wg_claim_slot ex_wg 150 7 FsOk NotExist")
  have "\<exists>sl. r = Inr sl \<and> sl_n sl = 1"
    using claim_first_free [OF ex_wg_open r]
    by (simp add: ex_wg_def wg_open_def ex_pool_def ex_state_def state_taken_def)
  with r show ?thesis by blast
qed

end
