(* ===== verification/JoinApi.thy ===== *)
theory JoinApi
  imports RateLimit ScitraMap WgPool "HOL-Library.Multiset" "HOL-Library.Sublist"
begin

text \<open>
  \<open>dashboard/backend/internal/api\<close>, the attendee routes: \<open>join.go\<close> (claiming a WireGuard slot), \<open>auth.go\<close>,
  \<open>bundle.go\<close>, \<open>instructions.go\<close> and \<open>playproxy.go\<close>.  A handler returns the status and what it writes;
  files, clocks, the decoded JSON body and the dialled hub are arguments.  The claim handler is split
  where it passes from the limiter's lock to the pool's, so that handlers of different requests can
  interleave.
\<close>

section \<open>Replies\<close>

text \<open>\<open>http.Error\<close> and \<open>http.NotFound\<close>, or the handler's own reply.\<close>

datatype 'a http_out = Fails int string | Replies int 'a

definition not_found :: "'a http_out" where
  "not_found = Fails 404 ''404 page not found''"

section \<open>Configuration\<close>

record join_config =
  jc_enabled :: bool
  jc_booth_code :: string
  jc_isd :: int
  jc_joinable_ases :: "int list"
  jc_config_dir :: string
  jc_instructions_dir :: string
  jc_endpoint_v6 :: string
  jc_endpoint_v4 :: string
  jc_listen_port :: int
  jc_hub_probe_addr :: string
  jc_play_targets :: "(int, string) gomap"
  jc_rate_max :: int
  jc_rate_window :: int
  jc_bootstrap_template :: string
  jc_ca_file :: string

fun as_among :: "int \<Rightarrow> int list \<Rightarrow> bool" where
  "as_among n [] = False"
| "as_among n (a # as) = (if a = n then True else as_among n as)"

definition as_allowed :: "join_config \<Rightarrow> int \<Rightarrow> bool" where
  "as_allowed jc n = as_among n (jc_joinable_ases jc)"

lemma as_among_iff [simp]: "as_among n as \<longleftrightarrow> n \<in> set as"
  by (induction "as") auto

text \<open>\<open>New\<close> replaces a rate limit that is not positive.\<close>

definition minute :: int where "minute = 60 * 10 ^ 9"

definition with_defaults :: "join_config \<Rightarrow> join_config" where
  "with_defaults jc =
     (let jc1 = (if jc_rate_max jc \<le> 0 then jc\<lparr>jc_rate_max := 5\<rparr> else jc) in
      if jc_rate_window jc1 \<le> 0 then jc1\<lparr>jc_rate_window := minute\<rparr> else jc1)"

text \<open>
  \<open>fmt.Sprintf\<close> of a template and one integer: \<open>%d\<close> prints the argument, the first time, \<open>%%\<close> a percent
  sign; an argument left over is reported at the end.  Templates with other verbs are outside the model.
\<close>

fun sprintf_loop :: "string \<Rightarrow> int \<Rightarrow> bool \<Rightarrow> string option" where
  "sprintf_loop [] n used = Some (if used then [] else ''%!(EXTRA int='' @ itoa n @ '')'')"
| "sprintf_loop (c # cs) n used =
     (if c \<noteq> CHR ''%'' then map_option (Cons c) (sprintf_loop cs n used)
      else case cs of
          [] \<Rightarrow> Some (''%!(NOVERB)'' @ (if used then [] else ''%!(EXTRA int='' @ itoa n @ '')''))
        | v # cs1 \<Rightarrow>
            if v = CHR ''%'' then map_option (Cons CHR ''%'') (sprintf_loop cs1 n used)
            else if v = CHR ''d'' then map_option (append (if used then ''%!d(MISSING)'' else itoa n)) (sprintf_loop cs1 n True)
            else None)"

definition bootstrap_url :: "join_config \<Rightarrow> int \<Rightarrow> string option" where
  "bootstrap_url jc n = (if jc_bootstrap_template jc = '''' then Some '''' else sprintf_loop (jc_bootstrap_template jc) n False)"

section \<open>Confs\<close>

definition nl :: string where "nl = [CHR 0x0A]"

definition fabric_allowed_ips :: string where
  "fabric_allowed_ips = ''10.150.0.0/16, 10.151.0.0/16, 10.152.0.0/16, '' @
     ''10.153.0.0/16, 10.154.0.0/16, 10.155.0.0/16, 10.156.0.0/16, '' @
     ''10.157.0.0/16, 10.158.0.0/16, 10.159.0.0/16, 10.160.0.0/16, '' @
     ''10.161.0.0/16, fd00:beef::/32''"

definition slot_v6 :: "wg_slot \<Rightarrow> string" where
  "slot_v6 sl = ''fd00:beef:5::'' @ itoa (sl_n sl)"

definition render_conf :: "wg_slot \<Rightarrow> string \<Rightarrow> string \<Rightarrow> string" where
  "render_conf sl serverPub endpoint =
     ''[Interface]'' @ nl @
     ''PrivateKey = '' @ sl_private_key sl @ nl @
     ''Address = '' @ sl_ip sl @ ''/32, '' @ slot_v6 sl @ ''/128'' @ nl @
     ''DNS = 10.20.3.216'' @ nl @
     ''MTU = 1380'' @ nl @ nl @
     ''[Peer]'' @ nl @
     ''PublicKey = '' @ serverPub @ nl @
     ''AllowedIPs = 10.20.3.0/24, 10.20.5.0/24, '' @ fabric_allowed_ips @ nl @
     ''Endpoint = '' @ endpoint @ nl @
     ''PersistentKeepalive = 25'' @ nl"

definition endpoint_v6_str :: "join_config \<Rightarrow> string" where
  "endpoint_v6_str jc = (if jc_endpoint_v6 jc = '''' then ''''
     else ''['' @ jc_endpoint_v6 jc @ '']:'' @ itoa (jc_listen_port jc))"

definition endpoint_v4_str :: "join_config \<Rightarrow> string" where
  "endpoint_v4_str jc = (if jc_endpoint_v4 jc = '''' then ''''
     else jc_endpoint_v4 jc @ '':'' @ itoa (jc_listen_port jc))"

definition primary_endpoint_str :: "join_config \<Rightarrow> string" where
  "primary_endpoint_str jc = (if endpoint_v6_str jc \<noteq> '''' then endpoint_v6_str jc else endpoint_v4_str jc)"

section \<open>Claiming\<close>

text \<open>\<open>netip.Addr.String\<close> of an address without zone.\<close>

definition addr_string :: "ip_addr \<Rightarrow> string" where
  "addr_string ip = (case ip of NoAddr \<Rightarrow> ''invalid IP'' | IPv4 b \<Rightarrow> v4_string b
     | IPv6 b zone \<Rightarrow> (if take 12 b = v4_in_6 then ''::ffff:'' @ v4_string (drop 12 b) else v6_string b) @
         (if zone = '''' then '''' else CHR ''%'' # zone))"

record claim_reply =
  cr_slot :: int
  cr_ip :: string
  cr_claim_as :: int
  cr_isd_as :: string
  cr_identity :: string
  cr_identities :: "(string, string) gomap"
  cr_conf :: string
  cr_endpoint_v6 :: string
  cr_v4 :: "(string \<times> string) option"

fun identities_loop :: "int \<Rightarrow> ip_addr \<Rightarrow> (string, string) gomap \<Rightarrow> int list \<Rightarrow> map_error + (string, string) gomap" where
  "identities_loop isd ip ids [] = Inr ids"
| "identities_loop isd ip ids (a # as) = (case mapped_ipv6 isd a ip of
     Inl e \<Rightarrow> Inl e | Inr i \<Rightarrow> identities_loop isd ip (put_key (itoa a) (addr_string i) ids) as)"

text \<open>What the handler makes of the claimed slot.\<close>

definition claim_response :: "join_config \<Rightarrow> string \<Rightarrow> int \<Rightarrow> wg_slot \<Rightarrow> claim_reply http_out" where
  "claim_response jc serverPub as sl = (case parse_addr (sl_ip sl) of
     None \<Rightarrow> Fails 500 ''pool error''
   | Some ip \<Rightarrow> (case mapped_ipv6 (jc_isd jc) as ip of
       Inl _ \<Rightarrow> Fails 500 ''identity derivation failed''
     | Inr fc \<Rightarrow> (case identities_loop (jc_isd jc) ip [] (jc_joinable_ases jc) of
         Inl _ \<Rightarrow> Fails 500 ''identity derivation failed''
       | Inr ids \<Rightarrow> Replies 200 \<lparr>cr_slot = sl_n sl, cr_ip = sl_ip sl, cr_claim_as = as,
           cr_isd_as = itoa (jc_isd jc) @ ''-'' @ itoa as, cr_identity = addr_string fc, cr_identities = ids,
           cr_conf = render_conf sl serverPub (primary_endpoint_str jc),
           cr_endpoint_v6 = endpoint_v6_str jc,
           cr_v4 = (if endpoint_v4_str jc \<noteq> '''' \<and> jc_endpoint_v6 jc \<noteq> ''''
             then Some (render_conf sl serverPub (endpoint_v4_str jc), endpoint_v4_str jc) else None)\<rparr>)))"

text \<open>\<open>subtle.ConstantTimeCompare\<close> is 1 for equal byte strings and 0 otherwise.\<close>

definition constant_time_compare :: "string \<Rightarrow> string \<Rightarrow> int" where
  "constant_time_compare x y = (if x = y then 1 else 0)"

text \<open>Up to the claim: the limiter's new state, and a failure or the AS to claim for.\<close>

definition claim_check ::
  "join_config \<Rightarrow> bool \<Rightarrow> limiter \<Rightarrow> string \<Rightarrow> int \<Rightarrow> (int \<times> string) option \<Rightarrow> limiter \<times> (claim_reply http_out + int)" where
  "claim_check jc pool lim remote now body =
     (if \<not> jc_enabled jc then (lim, Inl not_found)
      else if \<not> pool then (lim, Inl (Fails 503 ''conf pool unavailable''))
      else case allow lim now (client_key remote) of (lim1, ok) \<Rightarrow>
        (lim1,
         if \<not> ok then Inl (Fails 429 ''rate limited'')
         else case body of None \<Rightarrow> Inl (Fails 400 ''bad request'')
           | Some (as0, code) \<Rightarrow>
              if constant_time_compare code (jc_booth_code jc) \<noteq> 1 then Inl (Fails 403 ''bad code'')
              else let as = (if as0 = 0 \<and> jc_joinable_ases jc \<noteq> [] then hd (jc_joinable_ases jc) else as0) in
                if \<not> as_allowed jc as then Inl not_found else Inr as))"

text \<open>The message's dash is three UTF-8 bytes.\<close>

definition exhausted_text :: string where
  "exhausted_text = ''no confs left '' @ [CHR 0xE2, CHR 0x80, CHR 0x94] @ '' ask at the booth''"

definition claim_finish ::
  "join_config \<Rightarrow> int \<Rightarrow> int \<Rightarrow> fs_outcome \<Rightarrow> wg_store \<Rightarrow> state_file disk_file \<Rightarrow>
   wg_store \<times> state_file disk_file \<times> claim_reply http_out" where
  "claim_finish jc as at out pool disk = (case wg_claim_slot pool as at out disk of
     (pool1, disk1, Inl Exhausted) \<Rightarrow> (pool1, disk1, Fails 409 exhausted_text)
   | (pool1, disk1, Inl _) \<Rightarrow> (pool1, disk1, Fails 500 ''pool error'')
   | (pool1, disk1, Inr sl) \<Rightarrow> (pool1, disk1, claim_response jc (server_public_key pool1) as sl))"

record join_state =
  js_limiter :: limiter
  js_pool :: "wg_store option"
  js_disk :: "state_file disk_file"

text \<open>The handler when nothing interleaves.\<close>

definition handle_join_claim ::
  "join_config \<Rightarrow> string \<Rightarrow> int \<Rightarrow> (int \<times> string) option \<Rightarrow> int \<Rightarrow> fs_outcome \<Rightarrow> join_state \<Rightarrow>
   join_state \<times> claim_reply http_out" where
  "handle_join_claim jc remote now body at out js =
     (case claim_check jc (js_pool js \<noteq> None) (js_limiter js) remote now body of
        (lim, Inl r) \<Rightarrow> (js\<lparr>js_limiter := lim\<rparr>, r)
      | (lim, Inr as) \<Rightarrow> (case js_pool js of None \<Rightarrow> (js\<lparr>js_limiter := lim\<rparr>, Fails 503 ''conf pool unavailable'')
          | Some pool \<Rightarrow> (case claim_finish jc as at out pool (js_disk js) of
              (pool1, disk1, r) \<Rightarrow> (\<lparr>js_limiter = lim, js_pool = Some pool1, js_disk = disk1\<rparr>, r))))"

section \<open>Requests that interleave\<close>

text \<open>
  A request arrives and passes the limiter and the guards, or is answered; one that passed claims later,
  in any order with respect to the others.  The run yields the confs sent: the client's key, the time
  of arrival and the reply.
\<close>

datatype join_event = Arrive string int "(int \<times> string) option" | Finish nat int fs_outcome

fun join_run ::
  "join_config \<Rightarrow> join_state \<Rightarrow> (string \<times> int \<times> int) list \<Rightarrow> join_event list \<Rightarrow> (string \<times> int \<times> claim_reply) list" where
  "join_run jc js pend [] = []"
| "join_run jc js pend (Arrive remote now body # evs) =
     (case claim_check jc (js_pool js \<noteq> None) (js_limiter js) remote now body of
        (lim, Inl _) \<Rightarrow> join_run jc (js\<lparr>js_limiter := lim\<rparr>) pend evs
      | (lim, Inr as) \<Rightarrow> join_run jc (js\<lparr>js_limiter := lim\<rparr>) (pend @ [(client_key remote, now, as)]) evs)"
| "join_run jc js pend (Finish i at out # evs) =
     (case js_pool js of None \<Rightarrow> join_run jc js pend evs
      | Some pool \<Rightarrow>
          if i < length pend then
            (case pend ! i of (key, t, as) \<Rightarrow>
              (case claim_finish jc as at out pool (js_disk js) of (pool1, disk1, r) \<Rightarrow>
                 (let sent = join_run jc (js\<lparr>js_pool := Some pool1, js_disk := disk1\<rparr>) (take i pend @ drop (Suc i) pend) evs in
                  case r of Replies _ reply \<Rightarrow> (key, t, reply) # sent | Fails _ _ \<Rightarrow> sent)))
          else join_run jc js pend evs)"

definition reply_of :: "string \<times> int \<times> claim_reply \<Rightarrow> claim_reply" where
  "reply_of x = snd (snd x)"

text \<open>The limiter sees every arrival.\<close>

fun arrivals :: "join_event list \<Rightarrow> (int \<times> string) list" where
  "arrivals [] = []"
| "arrivals (Arrive remote now body # evs) = (now, client_key remote) # arrivals evs"
| "arrivals (Finish i at out # evs) = arrivals evs"

text \<open>A handler that runs alone is an arrival and a finish with nothing between them.\<close>

lemma handle_is_run:
  assumes "js_pool js \<noteq> None"
  shows "map reply_of (join_run jc js [] [Arrive remote now body, Finish 0 at out]) =
    (case snd (handle_join_claim jc remote now body at out js) of Replies _ r \<Rightarrow> [r] | Fails _ _ \<Rightarrow> [])"
  using assms
  by (auto simp: handle_join_claim_def reply_of_def claim_check_def not_found_def Let_def split_def
      split: sum.splits http_out.splits option.splits)

lemma claim_response_slot: "claim_response jc pk as sl = Replies st r \<Longrightarrow> cr_slot r = sl_n sl \<and> cr_claim_as r = as"
  by (auto simp: claim_response_def split: option.splits sum.splits)

lemma claim_finish_spec:
  assumes "claim_finish jc as at out pool disk = (pool1, disk1, r)"
  shows "\<exists>res. wg_claim_slot pool as at out disk = (pool1, disk1, res) \<and>
    (case r of Fails _ _ \<Rightarrow> True | Replies st reply \<Rightarrow> \<exists>sl. res = Inr sl \<and> cr_slot reply = sl_n sl \<and> cr_claim_as reply = as)"
  using assms
  by (auto simp: claim_finish_def split: prod.splits sum.splits wg_error.splits http_out.splits dest: claim_response_slot)

text \<open>The slots sent are among those the pool hands out.\<close>

lemma join_run_slots:
  assumes "js_pool js = Some pool"
  shows "\<exists>ops. subseq (map (cr_slot \<circ> reply_of) (join_run jc js pend evs)) (map sl_n (wg_run pf pool (js_disk js) ops))"
  using assms
proof (induction jc js pend evs arbitrary: pool rule: join_run.induct)
  case (2 jc js pend remote now body evs)
  then show ?case by (auto split: prod.splits sum.splits)
next
  case (3 jc js pend i at out evs)
  show ?case
  proof (cases "i < length pend")
    case False
    with 3 show ?thesis by simp
  next
    case True
    obtain key t as' where p: "pend ! i = (key, t, as')" by (cases "pend ! i")
    obtain pool1 disk1 r where r: "claim_finish jc as' at out pool (js_disk js) = (pool1, disk1, r)"
      by (cases "claim_finish jc as' at out pool (js_disk js)")
    let ?js = "js\<lparr>js_pool := Some pool1, js_disk := disk1\<rparr>" and ?pend = "take i pend @ drop (Suc i) pend"
    obtain ops where ops: "subseq (map (cr_slot \<circ> reply_of) (join_run jc ?js ?pend evs)) (map sl_n (wg_run pf pool1 disk1 ops))"
      using "3.IH"(2) [OF "3.prems" True p [symmetric] refl r [symmetric] refl] by (auto simp: o_def)
    obtain res where res: "wg_claim_slot pool as' at out (js_disk js) = (pool1, disk1, res)"
      "case r of Fails _ _ \<Rightarrow> True | Replies st reply \<Rightarrow> \<exists>sl. res = Inr sl \<and> cr_slot reply = sl_n sl \<and> cr_claim_as reply = as'"
      using claim_finish_spec [OF r] by blast
    have "subseq (map (cr_slot \<circ> reply_of) (join_run jc js pend (Finish i at out # evs)))
        (map sl_n (wg_run pf pool (js_disk js) (OpClaim as' at out # ops)))"
      using ops res "3.prems" True p r
      by (cases r; cases res) (auto simp: reply_of_def)
    then show ?thesis by blast
  qed
qed auto


text \<open>The times at which a key occurs.\<close>

definition key_times :: "string \<Rightarrow> (string \<times> int \<times> 'a) list \<Rightarrow> int multiset" where
  "key_times k xs = mset (map (\<lambda>x. fst (snd x)) (filter (\<lambda>x. fst x = k) xs))"

lemma key_times_simps [simp]:
  "key_times k [] = {#}"
  "key_times k ((key, t, x) # xs) = (if key = k then add_mset t (key_times k xs) else key_times k xs)"
  "key_times k (xs @ ys) = key_times k xs + key_times k ys"
  by (simp_all add: key_times_def)

lemma key_times_snoc: "key_times k (xs @ [(key, t, x)]) = (if key = k then add_mset t (key_times k xs) else key_times k xs)"
  by (simp add: key_times_def)

lemma key_times_remove:
  assumes "i < length xs" "xs ! i = (key, t, x)"
  shows "key_times k xs = key_times k [(key, t, x)] + key_times k (take i xs @ drop (Suc i) xs)"
  by (subst id_take_nth_drop [OF assms(1)]) (simp add: assms(2))

text \<open>Every conf sent was permitted by the limiter at its arrival.\<close>

lemma join_run_granted:
  assumes "jc_enabled jc" "js_pool js \<noteq> None"
  shows "key_times k (join_run jc js pend evs) \<subseteq># key_times k pend + mset (granted (js_limiter js) (arrivals evs) k)"
  using assms
proof (induction jc js pend evs rule: join_run.induct)
  case (2 jc js pend remote now body evs)
  obtain lim ok where a: "allow (js_limiter js) now (client_key remote) = (lim, ok)"
    by (cases "allow (js_limiter js) now (client_key remote)")
  obtain res where c: "claim_check jc (js_pool js \<noteq> None) (js_limiter js) remote now body = (lim, res)"
    using "2.prems" by (auto simp: claim_check_def a)
  show ?case
  proof (cases res)
    case (Inl r)
    have "key_times k (join_run jc (js\<lparr>js_limiter := lim\<rparr>) pend evs) \<subseteq># key_times k pend + mset (granted lim (arrivals evs) k)"
      using "2.IH"(1) [OF c [symmetric] Inl] "2.prems" by simp
    then show ?thesis using c a Inl by (auto intro: subset_mset.order_trans)
  next
    case (Inr as)
    have ok: "ok" using c Inr "2.prems" by (auto simp: claim_check_def a split: if_splits)
    have "key_times k (join_run jc (js\<lparr>js_limiter := lim\<rparr>) (pend @ [(client_key remote, now, as)]) evs) \<subseteq>#
      key_times k (pend @ [(client_key remote, now, as)]) + mset (granted lim (arrivals evs) k)"
      using "2.IH"(2) [OF c [symmetric] Inr] "2.prems" by simp
    then show ?thesis using c a Inr ok by (auto simp: key_times_snoc simp del: key_times_simps(3) split: if_splits)
  qed
next
  case (3 jc js pend i at out evs)
  obtain pool where pool: "js_pool js = Some pool" using "3.prems" by auto
  show ?case
  proof (cases "i < length pend")
    case False
    with 3 pool show ?thesis by simp
  next
    case True
    obtain key t as' where p: "pend ! i = (key, t, as')" by (cases "pend ! i")
    obtain pool1 disk1 r where r: "claim_finish jc as' at out pool (js_disk js) = (pool1, disk1, r)"
      by (cases "claim_finish jc as' at out pool (js_disk js)")
    let ?js = "js\<lparr>js_pool := Some pool1, js_disk := disk1\<rparr>" and ?pend = "take i pend @ drop (Suc i) pend"
    have IH: "key_times k (join_run jc ?js ?pend evs) \<subseteq># key_times k ?pend + mset (granted (js_limiter js) (arrivals evs) k)"
      using "3.IH"(2) [OF pool True p [symmetric] refl r [symmetric] refl] "3.prems" by simp
    show ?thesis
      unfolding arrivals.simps key_times_remove [OF True p]
      using IH pool True p r
      by (cases r) (auto intro: subset_mset.order_trans)
  qed
qed simp


text \<open>Every conf answers an arrival that named the booth code, and is for a joinable AS.\<close>

lemma claim_check_Inr:
  assumes "claim_check jc pool lim remote now body = (lim1, Inr as)"
  shows "jc_enabled jc \<and> pool \<and> (\<exists>as0. body = Some (as0, jc_booth_code jc)) \<and> as \<in> set (jc_joinable_ases jc)"
  using assms
  by (auto simp: claim_check_def as_allowed_def constant_time_compare_def Let_def not_found_def split: if_splits option.splits prod.splits)

definition coded :: "join_config \<Rightarrow> join_event set \<Rightarrow> int \<Rightarrow> string \<Rightarrow> int \<Rightarrow> bool" where
  "coded jc E as key t \<longleftrightarrow> as \<in> set (jc_joinable_ases jc) \<and>
     (\<exists>remote as0. client_key remote = key \<and> Arrive remote t (Some (as0, jc_booth_code jc)) \<in> E)"

lemma join_run_guarded:
  assumes "\<forall>(key, t, as) \<in> set pend. coded jc E as key t"
    and "set evs \<subseteq> E"
  shows "\<forall>(key, t, r) \<in> set (join_run jc js pend evs). coded jc E (cr_claim_as r) key t"
  using assms
proof (induction jc js pend evs rule: join_run.induct)
  case (2 jc js pend remote now body evs)
  obtain lim res where c: "claim_check jc (js_pool js \<noteq> None) (js_limiter js) remote now body = (lim, res)"
    by (cases "claim_check jc (js_pool js \<noteq> None) (js_limiter js) remote now body")
  show ?case
  proof (cases res)
    case (Inl r)
    with "2.IH"(1) [OF c [symmetric] Inl] "2.prems" c show ?thesis by simp
  next
    case (Inr as)
    have E: "Arrive remote now body \<in> E" using "2.prems"(2) by simp
    have ok: "coded jc E as (client_key remote) now"
      using claim_check_Inr [OF c [unfolded Inr]] E by (auto simp: coded_def)
    show ?thesis
      using "2.IH"(2) [OF c [symmetric] Inr] "2.prems" c Inr ok by auto
  qed
next
  case (3 jc js pend i at out evs)
  show ?case
  proof (cases "js_pool js = None \<or> \<not> i < length pend")
    case True
    with 3 show ?thesis by (cases "js_pool js") auto
  next
    case False
    then obtain pool where pool: "js_pool js = Some pool" and i: "i < length pend" by auto
    obtain key t as' where p: "pend ! i = (key, t, as')" by (cases "pend ! i")
    obtain pool1 disk1 r where r: "claim_finish jc as' at out pool (js_disk js) = (pool1, disk1, r)"
      by (cases "claim_finish jc as' at out pool (js_disk js)")
    let ?js = "js\<lparr>js_pool := Some pool1, js_disk := disk1\<rparr>" and ?pend = "take i pend @ drop (Suc i) pend"
    have "set ?pend \<subseteq> set pend" by (auto dest: in_set_takeD in_set_dropD)
    then have "\<forall>(key, t, as) \<in> set ?pend. coded jc E as key t" using "3.prems"(1) by blast
    note IH = "3.IH"(2) [OF pool i p [symmetric] refl r [symmetric] refl this]
    have IH: "\<forall>(key, t, r) \<in> set (join_run jc ?js ?pend evs). coded jc E (cr_claim_as r) key t"
      using IH "3.prems"(2) by simp
    have "(key, t, as') \<in> set pend" using i p by (metis nth_mem)
    then have pend: "coded jc E as' key t"
      using "3.prems"(1) by auto
    show ?thesis
      using IH pool i p r pend claim_finish_spec [OF r] by (cases r) auto
  qed
qed simp

definition join_start :: "join_config \<Rightarrow> wg_store \<Rightarrow> state_file \<Rightarrow> join_state" where
  "join_start jc pool st = \<lparr>js_limiter = limiter_new (jc_rate_max (with_defaults jc)) (jc_rate_window (with_defaults jc)),
     js_pool = Some pool, js_disk = Contents st\<rparr>"

lemma with_defaults_pos: "0 < jc_rate_max (with_defaults jc)" "0 < jc_rate_window (with_defaults jc)"
  by (simp_all add: with_defaults_def Let_def minute_def)

text \<open>
  C5: The claim route keeps its promises however requests interleave and whatever the file system does:
  no two confs are for the same slot and none is for a slot recorded as claimed or burned at start; a
  client, that is an IPv4 address or a /64, gets at most the configured number of confs for requests
  of any one rate window; and each conf answers a request with the booth code, for a joinable AS.
\<close>

theorem join_confs:
  assumes "wg_open pf (Contents st) = Inr pool" "sorted (map fst (arrivals evs))"
    and "jc = with_defaults jc0" "confs = join_run jc (join_start jc pool st) [] evs"
  shows "distinct (map (cr_slot \<circ> reply_of) confs) \<and>
    (\<forall>(key, t, r) \<in> set confs. cr_slot r \<notin> state_taken st \<and> cr_claim_as r \<in> set (jc_joinable_ases jc) \<and>
       (\<exists>remote as0. client_key remote = key \<and> Arrive remote t (Some (as0, jc_booth_code jc)) \<in> set evs)) \<and>
    int (length (filter (\<lambda>(key, t, r). key = k \<and> a < t \<and> t \<le> a + jc_rate_window jc) confs)) \<le> jc_rate_max jc"
proof (intro conjI)
  obtain ops where ops: "subseq (map (cr_slot \<circ> reply_of) confs) (map sl_n (wg_run pf pool (Contents st) ops))"
    using join_run_slots [of "join_start jc pool st" pool jc "[]" evs pf] by (auto simp: assms(4) join_start_def)
  note fresh = wg_run_fresh [OF wg_open_inv [OF assms(1)], of pf ops]
  show "distinct (map (cr_slot \<circ> reply_of) confs)"
    using ops fresh by (auto simp: subseq_conv_nths intro: distinct_nthsI)
  have "set (map (cr_slot \<circ> reply_of) confs) \<subseteq> set (map sl_n (wg_run pf pool (Contents st) ops))"
    using ops set_nths_subset unfolding subseq_conv_nths by metis
  then have "\<forall>(key, t, r) \<in> set confs. cr_slot r \<notin> state_taken st"
    using fresh by (force simp: reply_of_def disk_taken_def)
  moreover have "\<forall>(key, t, r) \<in> set confs. cr_claim_as r \<in> set (jc_joinable_ases jc) \<and>
      (\<exists>remote as0. client_key remote = key \<and> Arrive remote t (Some (as0, jc_booth_code jc)) \<in> set evs)"
    using join_run_guarded [of "[]" jc "set evs" evs "join_start jc pool st"] by (simp add: assms(4) coded_def)
  ultimately show "\<forall>(key, t, r) \<in> set confs. cr_slot r \<notin> state_taken st \<and> cr_claim_as r \<in> set (jc_joinable_ases jc) \<and>
       (\<exists>remote as0. client_key remote = key \<and> Arrive remote t (Some (as0, jc_booth_code jc)) \<in> set evs)"
    by fastforce
  have idem: "with_defaults jc = jc"
    by (simp add: assms(3) with_defaults_def Let_def minute_def)
  show "int (length (filter (\<lambda>(key, t, r). key = k \<and> a < t \<and> t \<le> a + jc_rate_window jc) confs)) \<le> jc_rate_max jc"
  proof (cases "jc_enabled jc")
    case False
    then have "join_run jc js [] evs = []" for js
      by (induction evs arbitrary: js rule: arrivals.induct) (simp_all add: claim_check_def split: option.splits)
    then show ?thesis using with_defaults_pos(1) [of jc0] by (simp add: assms(3,4))
  next
    case True
    let ?W = "\<lambda>t. a < t \<and> t \<le> a + jc_rate_window jc"
    let ?lim = "limiter_new (jc_rate_max jc) (jc_rate_window jc)"
    have "key_times k confs \<subseteq># mset (granted ?lim (arrivals evs) k)"
      using join_run_granted [OF True, of "join_start jc pool st" k "[]" evs] by (simp add: assms(4) join_start_def idem)
    then have "size (filter_mset ?W (key_times k confs)) \<le> size (filter_mset ?W (mset (granted ?lim (arrivals evs) k)))"
      by (intro size_mset_mono multiset_filter_mono)
    moreover have "size (filter_mset ?W (key_times k confs)) = length (filter (\<lambda>(key, t, r). key = k \<and> a < t \<and> t \<le> a + jc_rate_window jc) confs)"
      by (induction confs) (auto simp: key_times_def)
    moreover have "size (filter_mset ?W (mset (granted ?lim (arrivals evs) k))) = length (filter ?W (granted ?lim (arrivals evs) k))"
      by (simp flip: mset_filter)
    ultimately show ?thesis
      using allow_window [OF assms(2), of "jc_rate_window jc" "jc_rate_max jc" a k] with_defaults_pos [of jc0] assms(3) by simp
  qed
qed


definition ex_join :: join_config where
  "ex_join = with_defaults \<lparr>jc_enabled = True, jc_booth_code = ''fish'', jc_isd = 1, jc_joinable_ases = [158, 159],
     jc_config_dir = ''/etc/fabric/config'', jc_instructions_dir = '''', jc_endpoint_v6 = '''', jc_endpoint_v4 = ''203.0.113.7'',
     jc_listen_port = 51820, jc_hub_probe_addr = '''', jc_play_targets = [], jc_rate_max = 1, jc_rate_window = 0,
     jc_bootstrap_template = ''http://10.20.3.%d:8041'', jc_ca_file = ''''\<rparr>"

definition ex_arrivals :: "join_event list" where
  "ex_arrivals = [Arrive ''192.0.2.1:4711'' 5 (Some (0, ''fish'')), Arrive ''192.0.2.9:99'' 6 (Some (159, ''fish'')),
     Arrive ''192.0.2.1:4712'' 7 (Some (159, ''fish'')), Finish 1 100 FsOk, Finish 0 101 FsOk]"

lemma ex_addr: "parse_addr ''10.0.0.2'' = Some (IPv4 [10,0,0,2])" by code_simp

lemma ex_mapped: "0 \<le> n \<Longrightarrow> n < 524288 \<Longrightarrow> \<exists>fc. mapped_ipv6 1 n (IPv4 b) = Inr fc"
  by (simp add: mapped_ipv6_def)

lemma ex_reply:
  assumes "sl_ip sl = ''10.0.0.2''" "as \<in> {158, 159}"
  shows "\<exists>r. claim_response ex_join pk as sl = Replies 200 r"
proof -
  obtain a b c where "mapped_ipv6 1 158 (IPv4 [10,0,0,2]) = Inr a" "mapped_ipv6 1 159 (IPv4 [10,0,0,2]) = Inr b"
      "mapped_ipv6 1 as (IPv4 [10,0,0,2]) = Inr c"
    using ex_mapped [of 158 "[10,0,0,2]"] ex_mapped [of 159 "[10,0,0,2]"] ex_mapped [of as "[10,0,0,2]"] assms(2) by auto
  then show ?thesis by (simp add: claim_response_def assms(1) ex_addr ex_join_def with_defaults_def Let_def)
qed

lemma ex_keys: "client_key ''192.0.2.1:4711'' = ''192.0.2.1''" "client_key ''192.0.2.9:99'' = ''192.0.2.9''" "client_key ''192.0.2.1:4712'' = ''192.0.2.1''" by code_simp+

lemma ex_join_claims: "length (join_run ex_join (join_start ex_join ex_wg ex_state) [] ex_arrivals) = 2"
proof -
  define slot where "slot = (\<lambda>n. \<lparr>sl_n = n, sl_ip = ''10.0.0.2'', sl_private_key = ''p'', sl_public_key = ''q''\<rparr>)"
  have "\<exists>r r'. claim_response ex_join ''K'' 159 (slot 1) = Replies 200 r \<and> claim_response ex_join ''K'' 158 (slot 3) = Replies 200 r'"
    using ex_reply [of "slot 1" 159 "''K''"] ex_reply [of "slot 3" 158 "''K''"] by (simp add: slot_def)
  then obtain r r' where r: "claim_response ex_join ''K'' 159 (slot 1) = Replies 200 r" "claim_response ex_join ''K'' 158 (slot 3) = Replies 200 r'" by blast
  have jc: "jc_enabled ex_join" "jc_booth_code ex_join = ''fish''" "jc_joinable_ases ex_join = [158, 159]"
      "jc_rate_max ex_join = 1" "jc_rate_window ex_join = minute" "with_defaults ex_join = ex_join"
    by (simp_all add: ex_join_def with_defaults_def Let_def minute_def)
  show ?thesis
    unfolding ex_arrivals_def
    using r by (simp add: join_start_def jc claim_check_def allow_def ex_keys limiter_new_def as_allowed_def Let_def
      constant_time_compare_def claim_finish_def wg_claim_slot_def ex_wg_def wg_open_def ex_pool_def ex_state_def persist_def server_public_key_def slot_def minute_def)
qed

theorem join_confs_witness:
  "length (join_run ex_join (join_start ex_join ex_wg ex_state) [] ex_arrivals) = 2 \<and>
   distinct (map (cr_slot \<circ> reply_of) (join_run ex_join (join_start ex_join ex_wg ex_state) [] ex_arrivals)) \<and>
   int (length (filter (\<lambda>(key, t, r). key = ''192.0.2.1'' \<and> 0 < t \<and> t \<le> 0 + jc_rate_window ex_join)
     (join_run ex_join (join_start ex_join ex_wg ex_state) [] ex_arrivals))) \<le> jc_rate_max ex_join"
proof -
  have "sorted (map fst (arrivals ex_arrivals))" by (simp add: ex_arrivals_def)
  from join_confs [OF ex_wg_open this ex_join_def refl, of "''192.0.2.1''" 0] ex_join_claims show ?thesis by blast
qed


text \<open>
  A claim that fails after the pool's turn has used its slot up: when the identity cannot be derived
  the attendee gets status 500, and the slot is recorded as claimed on disk all the same.
\<close>

lemma failed_claim_burns_slot:
  assumes "claim_finish jc as at FsOk pool disk = (pool1, disk1, r)" "jc_isd jc < 0 \<or> 4096 \<le> jc_isd jc"
    and "wg_claim_slot pool as at FsOk disk = (pool1, disk1, Inr sl)" "wg_inv pool disk"
  shows "(\<exists>text. r = Fails 500 text) \<and> sl_n sl \<in> disk_taken disk1"
proof -
  have "r = claim_response jc (server_public_key pool1) as sl" using assms(1,3) by (simp add: claim_finish_def)
  then have "\<exists>text. r = Fails 500 text"
    using assms(2) by (auto simp: claim_response_def mapped_ipv6_def split: option.splits)
  moreover have "sl_n sl \<in> disk_taken disk1"
    using claim_loop_spec [OF assms(3) [unfolded wg_claim_slot_def] assms(4)] by simp
  ultimately show ?thesis by blast
qed

section \<open>The other join routes\<close>

record joinable_info =
  ji_as :: int
  ji_isd_as :: string
  ji_bundle_url :: string
  ji_bootstrap_url :: "string option"

record join_meta =
  jm_joinable_ases :: "int list"
  jm_joinable :: "joinable_info list"
  jm_playground_ases :: "int list"
  jm_slots :: "int \<times> int \<times> int"
  jm_hub_ok :: bool
  jm_endpoint_v6 :: string
  jm_endpoint_v4 :: string
  jm_ca_url :: "string option"

text \<open>\<open>os.ReadFile\<close>'s content, if there is one.\<close>

definition ca_pem :: "join_config \<Rightarrow> (string \<Rightarrow> string option) \<Rightarrow> string option" where
  "ca_pem jc read = (if jc_ca_file jc = '''' then None else read (jc_ca_file jc))"

definition handle_join_ca :: "join_config \<Rightarrow> (string \<Rightarrow> string option) \<Rightarrow> string http_out" where
  "handle_join_ca jc read = (if \<not> jc_enabled jc then not_found
     else case ca_pem jc read of None \<Rightarrow> not_found | Some pem \<Rightarrow> Replies 200 pem)"

definition handle_join_meta ::
  "join_config \<Rightarrow> wg_store option \<Rightarrow> (string \<Rightarrow> bool) \<Rightarrow> (string \<Rightarrow> string option) \<Rightarrow> join_meta http_out" where
  "handle_join_meta jc pool dial read = (if \<not> jc_enabled jc then not_found
     else Replies 200 \<lparr>jm_joinable_ases = jc_joinable_ases jc,
       jm_joinable = map (\<lambda>a. \<lparr>ji_as = a, ji_isd_as = itoa (jc_isd jc) @ ''-'' @ itoa a,
          ji_bundle_url = ''/api/join/bundle/'' @ itoa a, ji_bootstrap_url = bootstrap_url jc a\<rparr>) (jc_joinable_ases jc),
       jm_playground_ases = sort (map fst (jc_play_targets jc)),
       jm_slots = (case pool of None \<Rightarrow> (0, 0, 0) | Some p \<Rightarrow> wg_stats p),
       jm_hub_ok = (jc_hub_probe_addr jc \<noteq> '''' \<and> dial (jc_hub_probe_addr jc)),
       jm_endpoint_v6 = endpoint_v6_str jc, jm_endpoint_v4 = endpoint_v4_str jc,
       jm_ca_url = (if ca_pem jc read \<noteq> None then Some ''/api/join/ca.pem'' else None)\<rparr>)"

text \<open>
  The gate in front of every route; the credentials are what \<open>BasicAuth\<close> finds in the request.  It lets
  the request through or answers it.
\<close>

definition require_booth_code :: "string \<Rightarrow> string \<Rightarrow> string \<Rightarrow> (string \<times> string) option \<Rightarrow> bool" where
  "require_booth_code code meth path auth =
     (if code = '''' then True
      else if meth = ''GET'' \<and> path = ''/api/health'' then True
      else let (user, pass, ok) = (case auth of None \<Rightarrow> ('''', '''', False) | Some (u, p) \<Rightarrow> (u, p, True));
             userOK = constant_time_compare user ''scion'' = 1; passOK = constant_time_compare pass code = 1 in
        \<not> (\<not> ok \<or> \<not> userOK \<or> \<not> passOK))"

lemma booth_gate:
  "require_booth_code code meth path auth \<longleftrightarrow>
     code = '''' \<or> meth = ''GET'' \<and> path = ''/api/health'' \<or> auth = Some (''scion'', code)"
  by (auto simp: require_booth_code_def constant_time_compare_def Let_def split: option.splits prod.splits)

definition play_target :: "join_config \<Rightarrow> string \<Rightarrow> string option" where
  "play_target jc as = (case atoi as of None \<Rightarrow> None | Some n \<Rightarrow> map_of (jc_play_targets jc) n)"

text \<open>\<open>handlePlayRoot\<close> redirects; \<open>handlePlayProxy\<close> forwards to a host and path over http.\<close>

definition handle_play_root :: "join_config \<Rightarrow> string \<Rightarrow> string \<Rightarrow> string http_out" where
  "handle_play_root jc as path = (case play_target jc as of None \<Rightarrow> not_found | Some _ \<Rightarrow> Replies 301 (path @ ''/''))"

definition handle_play_proxy :: "join_config \<Rightarrow> string \<Rightarrow> string \<Rightarrow> (string \<times> string) option" where
  "handle_play_proxy jc as rest = (case play_target jc as of None \<Rightarrow> None | Some target \<Rightarrow> Some (target, ''/'' @ rest))"

end
