(* ===== verification/MockRoutes.thy ===== *)
theory MockRoutes
  imports BgpPath LinkdClient
begin

text \<open>
  \<open>dashboard/backend/internal/mock/controller.go\<close>: the controller that stands in for the linkds when
  the dashboard runs on synthetic data.  Its route tables come from a breadth-first search per AS; they
  are shown to make the walk of \<open>bgppath\<close> follow a shortest path over the links that are up.
\<close>

section \<open>The controller\<close>

text \<open>\<open>Apply\<close> on the generator's shaping map; one result per endpoint of the direction.\<close>

definition set_gen_shaping :: "string \<Rightarrow> shaping option \<Rightarrow> (string \<rightharpoonup> shaping) \<Rightarrow> (string \<rightharpoonup> shaping)" where
  "set_gen_shaping linkID p shaped = shaped(linkID := p)"

definition mock_apply ::
  "link \<Rightarrow> string \<Rightarrow> shaping \<Rightarrow> bool \<Rightarrow> (string \<rightharpoonup> shaping) \<Rightarrow> (string \<rightharpoonup> shaping) \<times> client_result list" where
  "mock_apply l direction p clear shaped =
     (set_gen_shaping (l_id l) (if clear then None else Some p) shaped,
      map (\<lambda>ep. \<lparr>cr_as = e_as ep, cr_ok = True, cr_error = ''''\<rparr>)
        (if direction = ''a_to_b'' then [l_a l] else if direction = ''b_to_a'' then [l_b l]
         else if direction = ''both'' then [l_a l, l_b l] else []))"

definition mock_poll :: "(string \<rightharpoonup> shaping) \<Rightarrow> (string \<rightharpoonup> shaping) \<times> (string \<rightharpoonup> shaping) option" where
  "mock_poll shaped = (shaped, None)"

text \<open>The guard of both loops: mock loss of 100% or more.\<close>

definition torn_down :: "(string \<rightharpoonup> shaping) \<Rightarrow> link \<Rightarrow> bool" where
  "torn_down shaped l = (case shaped (l_id l) of None \<Rightarrow> False
     | Some p \<Rightarrow> (case loss_pct p of None \<Rightarrow> False | Some x \<Rightarrow> Fin 100 \<le> x))"

definition mock_sessions :: "graph \<Rightarrow> (string \<rightharpoonup> shaping) \<Rightarrow> int \<Rightarrow> string \<rightharpoonup> bgp_link" where
  "mock_sessions g shaped now = foldl (\<lambda>out l.
     (let state = (if torn_down shaped l then ''Idle'' else ''Established'');
          side = Some \<lparr>b_state = state, b_since = now - 3600\<rparr> in
      out(l_id l \<mapsto> \<lparr>bgp_a = side, bgp_b = side\<rparr>))) Map.empty (g_links g)"

definition mock_health :: "graph \<Rightarrow> int \<rightharpoonup> bool" where
  "mock_health g = foldl (\<lambda>out a. out(a_num a \<mapsto> True)) Map.empty (g_ases g)"

section \<open>Routes by breadth-first search\<close>

text \<open>An edge is the peer AS and the interface leading to it.\<close>

type_synonym adjacency = "(int, (int \<times> string) list) gomap"

definition edges_at :: "adjacency \<Rightarrow> int \<Rightarrow> (int \<times> string) list" where
  "edges_at adj a = (case map_of adj a of None \<Rightarrow> [] | Some es \<Rightarrow> es)"

definition add_edge :: "int \<Rightarrow> int \<times> string \<Rightarrow> adjacency \<Rightarrow> adjacency" where
  "add_edge a e adj = put_key a (edges_at adj a @ [e]) adj"

definition adjacency_of :: "graph \<Rightarrow> (string \<rightharpoonup> shaping) \<Rightarrow> adjacency" where
  "adjacency_of g shaped = foldl (\<lambda>adj l.
     if torn_down shaped l then adj
     else add_edge (e_as (l_b l)) (e_as (l_a l), e_ifid (l_b l))
       (add_edge (e_as (l_a l)) (e_as (l_b l), e_ifid (l_a l)) adj)) [] (g_links g)"

record bfs_state =
  bf_first :: "int \<rightharpoonup> string"
  bf_seen :: "int set"
  bf_queue :: "int list"

text \<open>The inner loop's body, with \<open>cur\<close> already taken off the queue.\<close>

definition visit :: "int \<Rightarrow> int \<Rightarrow> bfs_state \<Rightarrow> int \<times> string \<Rightarrow> bfs_state" where
  "visit src cur s e =
     (if fst e \<in> bf_seen s then s
      else \<lparr>bf_first = (bf_first s)(fst e \<mapsto> (if cur = src then snd e
              else case bf_first s cur of None \<Rightarrow> '''' | Some i \<Rightarrow> i)),
            bf_seen = insert (fst e) (bf_seen s), bf_queue = bf_queue s @ [fst e]\<rparr>)"

lemma visit_measure:
  fixes U :: "int set" and es :: "(int \<times> string) list"
  assumes "finite U" "fst ` set es \<subseteq> U"
  shows "2 * card (U - bf_seen (foldl (visit src cur) s es)) + length (bf_queue (foldl (visit src cur) s es)) \<le>
    2 * card (U - bf_seen s) + length (bf_queue s)"
  using assms(2)
proof (induction es arbitrary: s)
  case (Cons e es)
  have "2 * card (U - bf_seen (visit src cur s e)) + length (bf_queue (visit src cur s e)) \<le>
      2 * card (U - bf_seen s) + length (bf_queue s)"
  proof (cases "fst e \<in> bf_seen s")
    case False
    have e: "fst e \<in> U - bf_seen s" using Cons.prems False by simp
    have "U - insert (fst e) (bf_seen s) = (U - bf_seen s) - {fst e}" by auto
    then have "card (U - insert (fst e) (bf_seen s)) = card (U - bf_seen s) - 1" using e assms(1) by simp
    moreover have "0 < card (U - bf_seen s)" using e assms(1) by (auto simp: card_gt_0_iff)
    ultimately show ?thesis using False by (simp add: visit_def)
  qed (simp add: visit_def)
  with Cons.IH [of "visit src cur s e"] Cons.prems show ?case by simp
qed simp

definition all_peers :: "adjacency \<Rightarrow> int set" where
  "all_peers adj = fst ` set (concat (map snd adj))"

lemma edges_at_peers: "fst ` set (edges_at adj a) \<subseteq> all_peers adj"
proof (cases "map_of adj a")
  case (Some es)
  then have "es \<in> set (map snd adj)" by (force dest: map_of_SomeD)
  then have "set es \<subseteq> set (concat (map snd adj))" by auto
  then show ?thesis using Some unfolding edges_at_def all_peers_def by (auto intro: image_mono)
qed (simp add: edges_at_def)

function bfs_loop :: "adjacency \<Rightarrow> int \<Rightarrow> bfs_state \<Rightarrow> bfs_state" where
  "bfs_loop adj src s = (case bf_queue s of
     [] \<Rightarrow> s
   | cur # queue \<Rightarrow> bfs_loop adj src (foldl (visit src cur) (s\<lparr>bf_queue := queue\<rparr>) (edges_at adj cur)))"
  by pat_completeness auto

text \<open>Every turn takes one AS off the queue, and an AS enters it once.\<close>

termination bfs_loop
proof (relation "measure (\<lambda>(adj, _, s). 2 * card (all_peers adj - bf_seen s) + length (bf_queue s))")
  fix adj src and s :: bfs_state and cur queue
  assume "bf_queue s = cur # queue"
  moreover have "finite (all_peers adj)" by (simp add: all_peers_def)
  ultimately show "((adj, src, foldl (visit src cur) (s\<lparr>bf_queue := queue\<rparr>) (edges_at adj cur)), adj, src, s) \<in>
      measure (\<lambda>(adj, _, s). 2 * card (all_peers adj - bf_seen s) + length (bf_queue s))"
    using visit_measure [OF _ edges_at_peers, of adj src cur "s\<lparr>bf_queue := queue\<rparr>" cur] by simp
qed simp

declare bfs_loop.simps [simp del]

definition first_hops :: "adjacency \<Rightarrow> int \<Rightarrow> int \<rightharpoonup> string" where
  "first_hops adj src = bf_first (bfs_loop adj src \<lparr>bf_first = Map.empty, bf_seen = {src}, bf_queue = [src]\<rparr>)"

definition bgp_routes :: "graph \<Rightarrow> (string \<rightharpoonup> shaping) \<Rightarrow> routes" where
  "bgp_routes g shaped = (let adj = adjacency_of g shaped in
     foldl (\<lambda>out a. out(a_num a \<mapsto> first_hops adj (a_num a))) Map.empty (g_ases g))"

section \<open>The edges of the links that are up\<close>

definition up_pairs :: "graph \<Rightarrow> (string \<rightharpoonup> shaping) \<Rightarrow> (int \<times> int) set" where
  "up_pairs g shaped = {(a, b). \<exists>l \<in> set (g_links g). \<not> torn_down shaped l \<and>
     (a = e_as (l_a l) \<and> b = e_as (l_b l) \<or> a = e_as (l_b l) \<and> b = e_as (l_a l))}"

definition adj_pairs :: "adjacency \<Rightarrow> (int \<times> int) set" where
  "adj_pairs adj = {(a, b). b \<in> fst ` set (edges_at adj a)}"

lemma edges_at_add_edge [simp]: "edges_at (add_edge a e adj) b = (if a = b then edges_at adj b @ [e] else edges_at adj b)"
  by (simp add: edges_at_def add_edge_def split: option.splits)

lemma edges_at_adjacency:
  "(b, i) \<in> set (edges_at (adjacency_of g shaped) a) \<longleftrightarrow> (\<exists>l \<in> set (g_links g). \<not> torn_down shaped l \<and>
     (a = e_as (l_a l) \<and> b = e_as (l_b l) \<and> i = e_ifid (l_a l) \<or>
      a = e_as (l_b l) \<and> b = e_as (l_a l) \<and> i = e_ifid (l_b l)))"
proof -
  have "(b, i) \<in> set (edges_at (foldl (\<lambda>adj l. if torn_down shaped l then adj
       else add_edge (e_as (l_b l)) (e_as (l_a l), e_ifid (l_b l))
         (add_edge (e_as (l_a l)) (e_as (l_b l), e_ifid (l_a l)) adj)) [] ls) a) \<longleftrightarrow>
     (\<exists>l \<in> set ls. \<not> torn_down shaped l \<and>
       (a = e_as (l_a l) \<and> b = e_as (l_b l) \<and> i = e_ifid (l_a l) \<or>
        a = e_as (l_b l) \<and> b = e_as (l_a l) \<and> i = e_ifid (l_b l)))" for ls
  proof (induction ls rule: rev_induct)
    case Nil
    show ?case by (simp add: edges_at_def)
  next
    case (snoc l ls)
    then show ?case by (cases "torn_down shaped l") auto
  qed
  then show ?thesis by (simp add: adjacency_of_def)
qed

lemma adj_pairs_up: "adj_pairs (adjacency_of g shaped) = up_pairs g shaped"
proof -
  have "(a, b) \<in> adj_pairs (adjacency_of g shaped) \<longleftrightarrow> (\<exists>i. (b, i) \<in> set (edges_at (adjacency_of g shaped) a))" for a b
    by (force simp: adj_pairs_def)
  then show ?thesis by (auto simp: edges_at_adjacency up_pairs_def)
qed

section \<open>Distances\<close>

definition hops_to :: "('a \<times> 'a) set \<Rightarrow> 'a \<Rightarrow> 'a \<Rightarrow> nat" where
  "hops_to E a b = (LEAST n. (a, b) \<in> E ^^ n)"

lemma hops_to_path: "(a, b) \<in> E\<^sup>* \<Longrightarrow> (a, b) \<in> E ^^ hops_to E a b"
  unfolding hops_to_def by (rule LeastI_ex) (simp add: rtrancl_is_UN_relpow)

lemma hops_to_le: "(a, b) \<in> E ^^ n \<Longrightarrow> hops_to E a b \<le> n"
  unfolding hops_to_def by (rule Least_le)

lemma hops_to_self [simp]: "hops_to E a a = 0"
  using hops_to_le [of a a 0 E] by simp

lemma hops_to_step: "(a, p) \<in> E\<^sup>* \<Longrightarrow> (p, b) \<in> E \<Longrightarrow> hops_to E a b \<le> Suc (hops_to E a p)"
  using hops_to_path [of a p E] by (intro hops_to_le) auto

lemma hops_to_step_front: "(a, p) \<in> E \<Longrightarrow> (p, b) \<in> E\<^sup>* \<Longrightarrow> hops_to E a b \<le> Suc (hops_to E p b)"
  using hops_to_path [of p b E] by (intro hops_to_le relpow_Suc_I2)

lemma hops_to_pred:
  assumes "(a, b) \<in> E\<^sup>*" "b \<noteq> a"
  obtains p where "(a, p) \<in> E\<^sup>*" "(p, b) \<in> E" "hops_to E a b = Suc (hops_to E a p)"
proof (cases "hops_to E a b")
  case 0
  then show thesis using hops_to_path [OF assms(1)] assms(2) by simp
next
  case (Suc n)
  then obtain p where p: "(a, p) \<in> E ^^ n" "(p, b) \<in> E"
    using hops_to_path [OF assms(1)] by (auto elim: relcompE)
  then have "(a, p) \<in> E\<^sup>*" by (auto simp: rtrancl_is_UN_relpow)
  moreover have "hops_to E a b = Suc (hops_to E a p)"
    using hops_to_step [OF calculation p(2)] hops_to_le [OF p(1)] Suc by simp
  ultimately show thesis using p(2) that by blast
qed

section \<open>The search finds shortest paths\<close>

definition first_ok :: "adjacency \<Rightarrow> int \<Rightarrow> (int \<rightharpoonup> string) \<Rightarrow> int \<Rightarrow> bool" where
  "first_ok adj src fst_hop v \<longleftrightarrow> (\<exists>i p. fst_hop v = Some i \<and> (p, i) \<in> set (edges_at adj src) \<and>
     (p, v) \<in> adj_pairs adj ^^ (hops_to (adj_pairs adj) src v - 1))"

text \<open>\<open>q\<close> is the queue with the AS being processed still at its head.\<close>

definition bfs_inv :: "adjacency \<Rightarrow> int \<Rightarrow> int list \<Rightarrow> bfs_state \<Rightarrow> bool" where
  "bfs_inv adj src q s \<longleftrightarrow> (let E = adj_pairs adj in
     src \<in> bf_seen s \<and> set q \<subseteq> bf_seen s \<and> bf_seen s \<subseteq> E\<^sup>* `` {src} \<and>
     sorted (map (hops_to E src) q) \<and>
     (\<forall>x \<in> set q. hops_to E src x \<le> Suc (hops_to E src (hd q))) \<and>
     (\<forall>p \<in> bf_seen s - set q. E `` {p} \<subseteq> bf_seen s) \<and>
     (\<forall>v \<in> bf_seen s - {src}. first_ok adj src (bf_first s) v) \<and>
     (\<forall>v. v \<notin> bf_seen s \<longrightarrow> bf_first s v = None))"

lemma unseen_far:
  assumes "bfs_inv adj src q s" "(src, v) \<in> (adj_pairs adj)\<^sup>*" "v \<notin> bf_seen s"
  shows "q \<noteq> []" "hops_to (adj_pairs adj) src (hd q) < hops_to (adj_pairs adj) src v"
proof -
  let ?E = "adj_pairs adj" and ?d = "hops_to (adj_pairs adj) src"
  have "q \<noteq> [] \<and> ?d (hd q) < ?d v"
    using assms(2,3)
  proof (induction "?d v" arbitrary: v rule: less_induct)
    case less
    have "v \<noteq> src" using less.prems(2) assms(1) by (auto simp: bfs_inv_def Let_def)
    then obtain p where p: "(src, p) \<in> ?E\<^sup>*" "(p, v) \<in> ?E" "?d v = Suc (?d p)"
      using hops_to_pred [OF less.prems(1)] by blast
    show ?case
    proof (cases "p \<in> bf_seen s")
      case False
      with less.hyps [of p] p show ?thesis by simp
    next
      case True
      then have "p \<in> set q" using p(2) less.prems(2) assms(1) by (auto simp: bfs_inv_def Let_def)
      moreover have "sorted (map ?d q)" using assms(1) by (simp add: bfs_inv_def Let_def)
      ultimately have "q \<noteq> [] \<and> ?d (hd q) \<le> ?d p" by (cases q) auto
      with p(3) show ?thesis by simp
    qed
  qed
  then show "q \<noteq> []" "?d (hd q) < ?d v" by blast+
qed

lemma bfs_first: "bfs_inv adj src q s \<Longrightarrow> v \<in> bf_seen s \<Longrightarrow> v \<noteq> src \<Longrightarrow> first_ok adj src (bf_first s) v"
  by (simp add: bfs_inv_def Let_def)

lemma visit_inv:
  assumes inv: "bfs_inv adj src (cur # bf_queue s) s" and e: "e \<in> set (edges_at adj cur)"
  shows "bfs_inv adj src (cur # bf_queue (visit src cur s e)) (visit src cur s e)"
    "fst e \<in> bf_seen (visit src cur s e)" "bf_seen s \<subseteq> bf_seen (visit src cur s e)"
proof -
  let ?E = "adj_pairs adj" and ?d = "hops_to (adj_pairs adj) src" and ?v = "fst e"
  show "fst e \<in> bf_seen (visit src cur s e)" "bf_seen s \<subseteq> bf_seen (visit src cur s e)"
    by (auto simp: visit_def)
  show "bfs_inv adj src (cur # bf_queue (visit src cur s e)) (visit src cur s e)"
  proof (cases "?v \<in> bf_seen s")
    case True
    then show ?thesis using inv by (simp add: visit_def)
  next
    case new: False
    have cur: "cur \<in> bf_seen s" "(src, cur) \<in> ?E\<^sup>*" and edge: "(cur, ?v) \<in> ?E"
      using inv e by (auto simp: bfs_inv_def Let_def adj_pairs_def)
    have reach: "(src, ?v) \<in> ?E\<^sup>*" using cur(2) edge by (rule rtrancl.rtrancl_into_rtrancl)
    have d: "?d ?v = Suc (?d cur)"
      using unseen_far(2) [OF inv reach new] hops_to_step [OF cur(2) edge] by simp
    define fst_hop where "fst_hop = bf_first (visit src cur s e)"
    have vs: "visit src cur s e = \<lparr>bf_first = fst_hop, bf_seen = insert ?v (bf_seen s), bf_queue = bf_queue s @ [?v]\<rparr>"
      using new by (simp add: visit_def fst_hop_def)
    have same: "fst_hop w = bf_first s w" if "w \<noteq> ?v" for w
      using new that by (simp add: fst_hop_def visit_def)
    have ok: "first_ok adj src fst_hop ?v"
    proof (cases "cur = src")
      case True
      then have "fst_hop ?v = Some (snd e)" "(?v, snd e) \<in> set (edges_at adj src)"
        using new e by (simp_all add: fst_hop_def visit_def)
      then show ?thesis using d True unfolding first_ok_def by auto
    next
      case False
      then obtain i p where ip: "bf_first s cur = Some i" "(p, i) \<in> set (edges_at adj src)" "(p, cur) \<in> ?E ^^ (?d cur - 1)"
        using bfs_first [OF inv cur(1) False] by (auto simp: first_ok_def)
      have "fst_hop ?v = Some i" using new False ip(1) by (simp add: fst_hop_def visit_def)
      moreover have "?d cur \<noteq> 0"
      proof
        assume "?d cur = 0"
        then show False using hops_to_path [OF cur(2)] False by simp
      qed
      then have "(p, ?v) \<in> ?E ^^ (?d ?v - 1)"
        using ip(3) edge d by (cases "?d cur") auto
      ultimately show ?thesis using ip(2) unfolding first_ok_def by blast
    qed
    have q: "sorted (map ?d (cur # bf_queue s @ [?v]))"
      using inv d by (auto simp: bfs_inv_def Let_def sorted_append)
    have "first_ok adj src fst_hop w" if "w \<in> bf_seen s" "w \<noteq> src" for w
    proof -
      have "w \<noteq> ?v" using that new by blast
      from same [OF this] bfs_first [OF inv that] show ?thesis by (simp add: first_ok_def)
    qed
    then show ?thesis
      using inv new ok q d reach same unfolding vs bfs_inv_def Let_def by auto
  qed
qed

lemma visits_inv:
  assumes "bfs_inv adj src (cur # bf_queue s) s" "set es \<subseteq> set (edges_at adj cur)"
  defines "s' \<equiv> foldl (visit src cur) s es"
  shows "bfs_inv adj src (cur # bf_queue s') s'" "fst ` set es \<subseteq> bf_seen s'" "bf_seen s \<subseteq> bf_seen s'"
proof -
  have "bfs_inv adj src (cur # bf_queue (foldl (visit src cur) s es)) (foldl (visit src cur) s es) \<and>
      fst ` set es \<subseteq> bf_seen (foldl (visit src cur) s es) \<and> bf_seen s \<subseteq> bf_seen (foldl (visit src cur) s es)"
    using assms(1,2)
  proof (induction es arbitrary: s)
    case (Cons e es)
    then have "e \<in> set (edges_at adj cur)" by simp
    from Cons.IH [OF visit_inv(1) [OF Cons.prems(1) this]] visit_inv(2,3) [OF Cons.prems(1) this] Cons.prems(2)
    show ?case by auto
  qed simp
  then show "bfs_inv adj src (cur # bf_queue s') s'" "fst ` set es \<subseteq> bf_seen s'" "bf_seen s \<subseteq> bf_seen s'"
    by (simp_all add: s'_def)
qed

lemma dequeue_inv:
  assumes "bfs_inv adj src (cur # q) s" "fst ` set (edges_at adj cur) \<subseteq> bf_seen s"
  shows "bfs_inv adj src q s"
proof -
  let ?d = "hops_to (adj_pairs adj) src"
  have "\<forall>x \<in> set q. ?d x \<le> Suc (?d (hd q))"
  proof
    fix x assume x: "x \<in> set q"
    then have "?d cur \<le> ?d (hd q)" using assms(1) by (cases q) (auto simp: bfs_inv_def Let_def)
    moreover have "?d x \<le> Suc (?d cur)" using x assms(1) by (auto simp: bfs_inv_def Let_def)
    ultimately show "?d x \<le> Suc (?d (hd q))" by simp
  qed
  moreover have "adj_pairs adj `` {p} \<subseteq> bf_seen s" if "p \<in> bf_seen s - set q" for p
  proof (cases "p = cur")
    case True
    then show ?thesis using assms(2) by (auto simp: adj_pairs_def)
  next
    case False
    then show ?thesis using assms(1) that by (simp add: bfs_inv_def Let_def)
  qed
  ultimately show ?thesis using assms(1) by (auto simp: bfs_inv_def Let_def)
qed

lemma bfs_loop_inv:
  assumes "bfs_inv adj src (bf_queue s) s"
  shows "bfs_inv adj src [] (bfs_loop adj src s)"
  using assms
proof (induction adj src s rule: bfs_loop.induct)
  case (1 adj src s)
  show ?case
  proof (cases "bf_queue s")
    case Nil
    then show ?thesis using "1.prems" by (subst bfs_loop.simps) simp
  next
    case (Cons cur queue)
    let ?s = "foldl (visit src cur) (s\<lparr>bf_queue := queue\<rparr>) (edges_at adj cur)"
    have "bfs_inv adj src (cur # bf_queue (s\<lparr>bf_queue := queue\<rparr>)) (s\<lparr>bf_queue := queue\<rparr>)"
      using "1.prems" Cons by (simp add: bfs_inv_def)
    from dequeue_inv [OF visits_inv(1,2) [OF this order_refl]] have inv: "bfs_inv adj src (bf_queue ?s) ?s" .
    have "bfs_loop adj src s = bfs_loop adj src ?s" by (subst bfs_loop.simps) (simp add: Cons)
    with "1.IH" [OF Cons inv] show ?thesis by (simp only:)
  qed
qed

lemma first_hops_spec:
  assumes "v \<noteq> src"
  shows "(src, v) \<in> (adj_pairs adj)\<^sup>* \<Longrightarrow> first_ok adj src (first_hops adj src) v"
    "(src, v) \<notin> (adj_pairs adj)\<^sup>* \<Longrightarrow> first_hops adj src v = None"
proof -
  let ?s = "bfs_loop adj src \<lparr>bf_first = Map.empty, bf_seen = {src}, bf_queue = [src]\<rparr>"
  have "bfs_inv adj src [src] \<lparr>bf_first = Map.empty, bf_seen = {src}, bf_queue = [src]\<rparr>"
    by (simp add: bfs_inv_def)
  then have inv: "bfs_inv adj src [] ?s" by (intro bfs_loop_inv) simp
  show "first_ok adj src (first_hops adj src) v" if "(src, v) \<in> (adj_pairs adj)\<^sup>*"
    using bfs_first [OF inv _ assms] unseen_far(1) [OF inv that] by (auto simp: first_hops_def)
  show "first_hops adj src v = None" if "(src, v) \<notin> (adj_pairs adj)\<^sup>*"
    using inv that by (auto simp: first_hops_def bfs_inv_def Let_def)
qed

section \<open>The walk over the synthesized routes\<close>

lemma new_index_link:
  assumes "wf_graph g" "l \<in> set (g_links g)"
  shows "map_of (new_index g) (bgp_key (e_as (l_a l)) (e_ifid (l_a l))) = Some \<lparr>h_link = l_id l, h_peer = e_as (l_b l)\<rparr>"
    "map_of (new_index g) (bgp_key (e_as (l_b l)) (e_ifid (l_b l))) = Some \<lparr>h_link = l_id l, h_peer = e_as (l_a l)\<rparr>"
proof -
  let ?f = "\<lambda>idx l.
     put_key (bgp_key (e_as (l_b l)) (e_ifid (l_b l))) \<lparr>h_link = l_id l, h_peer = e_as (l_a l)\<rparr>
       (put_key (bgp_key (e_as (l_a l)) (e_ifid (l_a l))) \<lparr>h_link = l_id l, h_peer = e_as (l_b l)\<rparr> idx)"
  have "\<forall>l \<in> set ls. \<forall>(a, i) \<in> set (link_ends l). map_of (foldl ?f [] ls) (bgp_key a i) \<noteq> None" for ls
    by (induction ls rule: rev_induct) (auto simp: link_ends_def)
  then have some: "\<exists>h. map_of (new_index g) (bgp_key a i) = Some h" if "(a, i) \<in> set (link_ends l)" for a i
    using that assms(2) unfolding new_index_def by blast
  have dis: "distinct (link_ends l)"
    using assms by (auto simp: wf_graph_def distinct_concat_iff)
  have only: "l' = l" if "l' \<in> set (g_links g)" "(a, i) \<in> set (link_ends l')" "(a, i) \<in> set (link_ends l)" for l' a i
    using wf_graph_ends [OF assms(1) that(1) assms(2) that(2,3)] .
  obtain h where h: "map_of (new_index g) (bgp_key (e_as (l_a l)) (e_ifid (l_a l))) = Some h"
    using some by (auto simp: link_ends_def)
  have "h_link h = l_id l \<and> h_peer h = e_as (l_b l)"
    using new_index_sound [OF h] dis only by (fastforce simp: link_ends_def fmt_simps)
  with h show "map_of (new_index g) (bgp_key (e_as (l_a l)) (e_ifid (l_a l))) = Some \<lparr>h_link = l_id l, h_peer = e_as (l_b l)\<rparr>"
    by (metis hop.surjective unit.exhaust)
  obtain h where h: "map_of (new_index g) (bgp_key (e_as (l_b l)) (e_ifid (l_b l))) = Some h"
    using some by (auto simp: link_ends_def)
  have "h_link h = l_id l \<and> h_peer h = e_as (l_a l)"
    using new_index_sound [OF h] dis only by (fastforce simp: link_ends_def fmt_simps)
  with h show "map_of (new_index g) (bgp_key (e_as (l_b l)) (e_ifid (l_b l))) = Some \<lparr>h_link = l_id l, h_peer = e_as (l_a l)\<rparr>"
    by (metis hop.surjective unit.exhaust)
qed

lemma bgp_routes_at: "bgp_routes g shaped a = (if a \<in> a_num ` set (g_ases g) then Some (first_hops (adjacency_of g shaped) a) else None)"
proof -
  have "foldl (\<lambda>out a. out(a_num a \<mapsto> first_hops adj (a_num a))) m as a =
      (if a \<in> a_num ` set as then Some (first_hops adj a) else m a)" for adj and m :: routes and "as"
    by (induction "as" arbitrary: m) auto
  from this [of "adjacency_of g shaped" Map.empty "g_ases g"] show ?thesis by (simp add: bgp_routes_def Let_def)
qed

definition ends_known :: "graph \<Rightarrow> bool" where
  "ends_known g \<longleftrightarrow> (\<forall>l \<in> set (g_links g). {e_as (l_a l), e_as (l_b l)} \<subseteq> a_num ` set (g_ases g))"

lemma up_pairs_as: "ends_known g \<Longrightarrow> (a, b) \<in> up_pairs g shaped \<Longrightarrow> a \<in> a_num ` set (g_ases g) \<and> b \<in> a_num ` set (g_ases g)"
  by (auto simp: ends_known_def up_pairs_def)

lemma up_path_as: "ends_known g \<Longrightarrow> (a, b) \<in> (up_pairs g shaped)\<^sup>* \<Longrightarrow> a \<noteq> b \<Longrightarrow> a \<in> a_num ` set (g_ases g)"
  by (metis converse_rtranclE up_pairs_as)

text \<open>A route leads one hop closer over a link that is up.\<close>

lemma mock_next_hop:
  assumes "wf_graph g" "ends_known g" "a \<noteq> dst"
    and "(a, dst) \<in> (up_pairs g shaped)\<^sup>*"
  shows "\<exists>h l. next_hop (new_index g) (bgp_routes g shaped) dst a = Some h \<and> l \<in> set (g_links g) \<and>
    h_link h = l_id l \<and> \<not> torn_down shaped l \<and> (a, h_peer h) \<in> up_pairs g shaped \<and>
    (h_peer h, dst) \<in> up_pairs g shaped ^^ (hops_to (up_pairs g shaped) a dst - 1)"
proof -
  have "first_ok (adjacency_of g shaped) a (first_hops (adjacency_of g shaped) a) dst"
    using assms(3,4) by (intro first_hops_spec) (auto simp: adj_pairs_up)
  then obtain i p where ip: "first_hops (adjacency_of g shaped) a dst = Some i"
      "(p, i) \<in> set (edges_at (adjacency_of g shaped) a)"
      "(p, dst) \<in> up_pairs g shaped ^^ (hops_to (up_pairs g shaped) a dst - 1)"
    by (auto simp: first_ok_def adj_pairs_up)
  have rt: "bgp_routes g shaped a = Some (first_hops (adjacency_of g shaped) a)"
    using up_path_as [OF assms(2,4,3)] by (simp add: bgp_routes_at)
  obtain l where l: "l \<in> set (g_links g)" "\<not> torn_down shaped l"
      "a = e_as (l_a l) \<and> p = e_as (l_b l) \<and> i = e_ifid (l_a l) \<or> a = e_as (l_b l) \<and> p = e_as (l_a l) \<and> i = e_ifid (l_b l)"
    using ip(2) by (auto simp: edges_at_adjacency)
  have "next_hop (new_index g) (bgp_routes g shaped) dst a = Some \<lparr>h_link = l_id l, h_peer = p\<rparr>"
    using l(3) new_index_link [OF assms(1) l(1)] ip(1) by (auto simp: next_hop_def rt)
  moreover have "(a, p) \<in> up_pairs g shaped" using l by (auto simp: up_pairs_def)
  ultimately show ?thesis using l(1,2) ip(3) by (intro exI [of _ "\<lparr>h_link = l_id l, h_peer = p\<rparr>"] exI [of _ l]) simp
qed

lemma mock_next_hop_unreachable:
  assumes "a \<noteq> dst" "(a, dst) \<notin> (up_pairs g shaped)\<^sup>*"
  shows "next_hop (new_index g) (bgp_routes g shaped) dst a = None"
  using first_hops_spec(2) [of dst a "adjacency_of g shaped"] assms
  by (auto simp: next_hop_def bgp_routes_at adj_pairs_up split: option.splits)

lemma mock_route_step:
  assumes "wf_graph g" "ends_known g" "(a, dst) \<in> up_pairs g shaped ^^ n"
  shows "(a, dst) \<in> (route_step (new_index g) (bgp_routes g shaped) dst)\<^sup>*"
  using assms(3)
proof (induction n arbitrary: a rule: less_induct)
  case (less n)
  show ?case
  proof (cases "a = dst")
    case False
    have reach: "(a, dst) \<in> (up_pairs g shaped)\<^sup>*" using less.prems by (rule relpow_imp_rtrancl)
    obtain h where h: "next_hop (new_index g) (bgp_routes g shaped) dst a = Some h"
      "(h_peer h, dst) \<in> up_pairs g shaped ^^ (hops_to (up_pairs g shaped) a dst - 1)"
      using mock_next_hop [OF assms(1,2) False reach] by blast
    have "n \<noteq> 0" using less.prems False by (cases n) auto
    with hops_to_le [OF less.prems] have "hops_to (up_pairs g shaped) a dst - 1 < n" by simp
    from less.IH [OF this h(2)] have "(h_peer h, dst) \<in> (route_step (new_index g) (bgp_routes g shaped) dst)\<^sup>*" .
    moreover have "(a, h_peer h) \<in> route_step (new_index g) (bgp_routes g shaped) dst"
      using h(1) False by (simp add: route_step_def)
    ultimately show ?thesis by (rule converse_rtrancl_into_rtrancl [rotated])
  qed simp
qed

lemma mock_hop_down:
  assumes "wf_graph g" "ends_known g" "a \<noteq> dst"
    and "next_hop (new_index g) (bgp_routes g shaped) dst a = Some h"
  shows "\<exists>l \<in> set (g_links g). h_link h = l_id l \<and> \<not> torn_down shaped l"
    "(a, dst) \<in> (up_pairs g shaped)\<^sup>*"
    "hops_to (up_pairs g shaped) a dst = Suc (hops_to (up_pairs g shaped) (h_peer h) dst)"
proof -
  show reach: "(a, dst) \<in> (up_pairs g shaped)\<^sup>*"
    using mock_next_hop_unreachable [OF assms(3)] assms(4) by (metis option.distinct(1))
  obtain l where l: "l \<in> set (g_links g)" "h_link h = l_id l" "\<not> torn_down shaped l" "(a, h_peer h) \<in> up_pairs g shaped"
    "(h_peer h, dst) \<in> up_pairs g shaped ^^ (hops_to (up_pairs g shaped) a dst - 1)"
    using mock_next_hop [OF assms(1,2,3) reach] assms(4) by auto
  then show "\<exists>l \<in> set (g_links g). h_link h = l_id l \<and> \<not> torn_down shaped l" by blast
  have "hops_to (up_pairs g shaped) a dst \<noteq> 0"
  proof
    assume "hops_to (up_pairs g shaped) a dst = 0"
    then show False using hops_to_path [OF reach] assms(3) by simp
  qed
  then show "hops_to (up_pairs g shaped) a dst = Suc (hops_to (up_pairs g shaped) (h_peer h) dst)"
    using hops_to_le [OF l(5)] hops_to_step_front [OF l(4) relpow_imp_rtrancl [OF l(5)]] by simp
qed

lemma walk_counts_down:
  assumes "wf_graph g" "ends_known g" "hops_ok (new_index g) (bgp_routes g shaped) dst p ls" "i < length p"
  shows "hops_to (up_pairs g shaped) (hd p) dst = hops_to (up_pairs g shaped) (p ! i) dst + i"
  using assms(4)
proof (induction i)
  case 0
  then show ?case by (cases p) auto
next
  case (Suc i)
  have "p ! i \<noteq> dst" "next_hop (new_index g) (bgp_routes g shaped) dst (p ! i) = Some \<lparr>h_link = ls ! i, h_peer = p ! Suc i\<rparr>"
    using assms(3) Suc.prems by (auto simp: hops_ok_def)
  from mock_hop_down(3) [OF assms(1,2) this] Suc show ?case by simp
qed

text \<open>
  C37: On synthetic data the path overlay follows a shortest path around the links that are torn down:
  in a well-formed graph the walk over the mock controller's routes is complete exactly when the
  destination can be reached over links that are up, it crosses no torn-down link, and when complete
  it has no more links than any other way to the destination.
\<close>

theorem mock_routes_walk:
  assumes "wf_graph g" "ends_known g"
    and "vm = walk (new_index g) (bgp_routes g shaped) src dst"
  shows "(bp_complete vm \<longleftrightarrow> (src, dst) \<in> (up_pairs g shaped)\<^sup>*) \<and>
    (\<forall>i \<in> set (bp_links vm). \<exists>l \<in> set (g_links g). l_id l = i \<and> \<not> torn_down shaped l) \<and>
    (\<forall>n. bp_complete vm \<longrightarrow> (src, dst) \<in> up_pairs g shaped ^^ n \<longrightarrow> length (bp_links vm) \<le> n)"
proof (intro conjI ballI allI impI)
  note w = walk_hops(1-3) [OF assms(3) [symmetric]]
  have step_back: "a \<noteq> dst \<and> (a, dst) \<in> (up_pairs g shaped)\<^sup>*"
    if "(a, b) \<in> route_step (new_index g) (bgp_routes g shaped) dst" for a b
    using that mock_hop_down(2) [OF assms(1,2)] by (auto simp: route_step_def)
  have "(src, dst) \<in> (up_pairs g shaped)\<^sup>*" if "(src, dst) \<in> (route_step (new_index g) (bgp_routes g shaped) dst)\<^sup>*"
    using that by (cases rule: converse_rtranclE) (auto dest: step_back)
  then show "bp_complete vm \<longleftrightarrow> (src, dst) \<in> (up_pairs g shaped)\<^sup>*"
    using mock_route_step [OF assms(1,2)]
    by (auto simp: assms(3) walk_complete_iff rtrancl_is_UN_relpow [of "up_pairs g shaped"])
  fix i assume "i \<in> set (bp_links vm)"
  then obtain n where "n < length (bp_links vm)" "i = bp_links vm ! n" by (auto simp: in_set_conv_nth)
  then show "\<exists>l \<in> set (g_links g). l_id l = i \<and> \<not> torn_down shaped l"
    using w(1) mock_hop_down(1) [OF assms(1,2), of "bp_as_path vm ! n" dst shaped] by (fastforce simp: hops_ok_def)
next
  note w = walk_hops(1-3) [OF assms(3) [symmetric]]
  fix n assume "bp_complete vm" "(src, dst) \<in> up_pairs g shaped ^^ n"
  moreover have len: "length (bp_as_path vm) = Suc (length (bp_links vm))" using w(1) by (simp add: hops_ok_def)
  then have "last (bp_as_path vm) = bp_as_path vm ! length (bp_links vm)" by (subst last_conv_nth) auto
  then have "hops_to (up_pairs g shaped) src dst = hops_to (up_pairs g shaped) (last (bp_as_path vm)) dst + length (bp_links vm)"
    using walk_counts_down [OF assms(1,2) w(1), of "length (bp_links vm)"] w(2) len
    by simp
  ultimately show "length (bp_links vm) \<le> n"
    using w(3) hops_to_le by fastforce
qed

theorem mock_routes_walk_witness:
  "bp_complete (walk (new_index lc_graph) (bgp_routes lc_graph Map.empty) 150 151) \<and>
   \<not> bp_complete (walk (new_index lc_graph) (bgp_routes lc_graph [''150-151'' \<mapsto>
     \<lparr>delay_ms = None, jitter_ms = None, loss_pct = Some (Fin 100), rate_mbit = None\<rparr>]) 150 151)"
proof -
  have k: "ends_known lc_graph" by (simp add: ends_known_def lc_graph_def ex_link_def ex_end_def)
  have up: "(150, 151) \<in> up_pairs lc_graph Map.empty"
    by (simp add: up_pairs_def torn_down_def lc_graph_def ex_link_def ex_end_def)
  have down: "up_pairs lc_graph [''150-151'' \<mapsto> \<lparr>delay_ms = None, jitter_ms = None, loss_pct = Some (Fin 100), rate_mbit = None\<rparr>] = {}"
    by (simp add: up_pairs_def torn_down_def lc_graph_def ex_link_def ex_end_def)
  show ?thesis
    using mock_routes_walk [OF lc_wf(1) k refl, of Map.empty 150 151] up
      mock_routes_walk [OF lc_wf(1) k refl, of "[''150-151'' \<mapsto> \<lparr>delay_ms = None, jitter_ms = None, loss_pct = Some (Fin 100), rate_mbit = None\<rparr>]" 150 151]
    by (simp add: down r_into_rtrancl)
qed

end
