(* ===== verification/FabricApi.thy ===== *)
theory FabricApi
  imports JoinApi MockRoutes Idint
begin

text \<open>
  \<open>dashboard/backend/internal/api\<close>, the dashboard's own routes: \<open>api.go\<close> (topology, history, link
  shaping, health, the frames of the live stream) and \<open>idint.go\<close> (the trace session's routes).  The
  server works against an interface, \<open>Controller\<close>, that the linkd client and the mock controller
  both provide; the locale \<open>controller\<close> states what the handlers rely on.
\<close>

section \<open>The controller interface\<close>

text \<open>
  \<open>Apply\<close> answers one result for every endpoint of the direction, in order; \<open>'k\<close> is the state of the
  world it acts on.
\<close>

type_synonym 'k apply_op = "'k \<Rightarrow> link \<Rightarrow> string \<Rightarrow> shaping \<Rightarrow> bool \<Rightarrow> 'k \<times> client_result list"

locale controller =
  fixes apply_op :: "'k apply_op"
  assumes answers: "map cr_as (snd (apply_op k l dir p clear)) = map e_as (endpoints_of l dir)"

text \<open>The linkd client: the network's answers to the \<open>n\<close>th \<open>Apply\<close> are \<open>net n\<close>.\<close>

definition linkd_controller ::
  "client \<Rightarrow> (shaping \<Rightarrow> string + string) \<Rightarrow> (nat \<Rightarrow> nat \<Rightarrow> http_request \<Rightarrow> http_reply) \<Rightarrow> nat apply_op" where
  "linkd_controller c marshal net n l dir p clear = (Suc n, map fst (client_apply c marshal (net n) l dir p clear))"

definition mock_controller :: "(string \<rightharpoonup> shaping) apply_op" where
  "mock_controller shaped l dir p clear = mock_apply l dir p clear shaped"

interpretation linkd_ctl: controller "linkd_controller c marshal net" for c marshal net
  by unfold_locales (simp add: linkd_controller_def client_apply_def apply_one_outcome split_def o_def map_enumerate [unfolded split_def])

interpretation mock_ctl: controller mock_controller
  by unfold_locales (simp add: mock_controller_def mock_apply_def endpoints_of_def o_def)

section \<open>Link control\<close>

definition all_failed :: "client_result list \<Rightarrow> bool" where
  "all_failed rs = (if rs = [] then False else list_all (\<lambda>r. \<not> cr_ok r) rs)"

definition valid_direction :: "string \<Rightarrow> bool" where
  "valid_direction d = (d = ''a_to_b'' \<or> d = ''b_to_a'' \<or> d = ''both'')"

definition links_by_id :: "graph \<Rightarrow> string \<rightharpoonup> link" where
  "links_by_id g = foldl (\<lambda>m l. m(l_id l \<mapsto> l)) Map.empty (g_links g)"

definition no_shaping :: shaping where
  "no_shaping = \<lparr>delay_ms = None, jitter_ms = None, loss_pct = None, rate_mbit = None\<rparr>"

text \<open>\<open>PUT .../shaping\<close> and \<open>POST .../reset\<close>: the body is a direction and a shape, if it decodes.\<close>

definition apply_shaping ::
  "'k apply_op \<Rightarrow> (string \<rightharpoonup> link) \<Rightarrow> string \<Rightarrow> (string \<times> shaping) option \<Rightarrow> bool \<Rightarrow> 'k \<Rightarrow>
   'k \<times> client_result list http_out" where
  "apply_shaping ctl links lid body clear k = (case links lid of
     None \<Rightarrow> (k, Fails 404 ''unknown link'')
   | Some l \<Rightarrow> (case body of
       None \<Rightarrow> (k, Fails 400 ''invalid body'')
     | Some (direction, sh) \<Rightarrow>
        if \<not> valid_direction direction then (k, Fails 400 ''invalid direction (want a_to_b, b_to_a, or both)'')
        else (case ctl k l direction (if clear then no_shaping else sh) clear of
            (k', rs) \<Rightarrow> (k', Replies (if all_failed rs then 502 else 200) rs))))"

definition handle_shaping where "handle_shaping ctl links lid body k = apply_shaping ctl links lid body False k"
definition handle_reset where "handle_reset ctl links lid body k = apply_shaping ctl links lid body True k"

fun reset_all_loop :: "'k apply_op \<Rightarrow> 'k \<Rightarrow> client_result list \<Rightarrow> link list \<Rightarrow> 'k \<times> client_result list" where
  "reset_all_loop ctl k rs [] = (k, rs)"
| "reset_all_loop ctl k rs (l # ls) = (case ctl k l ''both'' no_shaping True of
     (k', rs') \<Rightarrow> reset_all_loop ctl k' (rs @ rs') ls)"

definition handle_reset_all :: "'k apply_op \<Rightarrow> graph \<Rightarrow> 'k \<Rightarrow> 'k \<times> client_result list http_out" where
  "handle_reset_all ctl g k = (case reset_all_loop ctl k [] (g_links g) of
     (k', rs) \<Rightarrow> (k', Replies (if all_failed rs then 502 else 200) rs))"

context controller
begin

lemma apply_shaping_outcome:
  assumes "links lid = Some l" "valid_direction dir" "ctl_sh = (if clear then no_shaping else sh)"
  shows "\<exists>st rs. apply_shaping apply_op links lid (Some (dir, sh)) clear k = (fst (apply_op k l dir ctl_sh clear), Replies st rs) \<and>
    rs = snd (apply_op k l dir ctl_sh clear) \<and> map cr_as rs = map e_as (endpoints_of l dir) \<and>
    st = (if \<exists>r \<in> set rs. cr_ok r then 200 else 502)"
proof -
  obtain k' rs where r: "apply_op k l dir ctl_sh clear = (k', rs)" by (cases "apply_op k l dir ctl_sh clear")
  have "map cr_as rs = map e_as (endpoints_of l dir)" using answers [of k l dir ctl_sh clear] by (simp add: r)
  moreover from this have "rs \<noteq> []" using assms(2) by (auto simp: endpoints_of_def valid_direction_def)
  ultimately show ?thesis
    using r by (simp add: apply_shaping_def assms(1,2) assms(3) [symmetric] all_failed_def list_all_iff)
qed

lemma reset_all_loop_ases:
  "map cr_as (snd (reset_all_loop apply_op k rs ls)) = map cr_as rs @ concat (map (\<lambda>l. [e_as (l_a l), e_as (l_b l)]) ls)"
proof (induction ls arbitrary: k rs)
  case (Cons l ls)
  obtain k' rs' where r: "apply_op k l ''both'' no_shaping True = (k', rs')" by (cases "apply_op k l ''both'' no_shaping True")
  have "map cr_as rs' = [e_as (l_a l), e_as (l_b l)]"
    using answers [of k l "''both''" no_shaping True] by (simp add: r endpoints_of_def)
  then show ?case using Cons.IH [of k' "rs @ rs'"] by (simp add: r)
qed simp

lemma reset_all_covers:
  "\<exists>st rs. snd (handle_reset_all apply_op g k) = Replies st rs \<and>
    map cr_as rs = concat (map (\<lambda>l. [e_as (l_a l), e_as (l_b l)]) (g_links g)) \<and>
    st = (if g_links g = [] \<or> (\<exists>r \<in> set rs. cr_ok r) then 200 else 502)"
proof -
  obtain k' rs where r: "reset_all_loop apply_op k [] (g_links g) = (k', rs)" by (cases "reset_all_loop apply_op k [] (g_links g)")
  have ases: "map cr_as rs = concat (map (\<lambda>l. [e_as (l_a l), e_as (l_b l)]) (g_links g))"
    using reset_all_loop_ases [of k "[]" "g_links g"] by (simp add: r)
  then have "rs = [] \<longleftrightarrow> g_links g = []" by (cases "g_links g") auto
  then show ?thesis using ases by (auto simp: handle_reset_all_def r all_failed_def list_all_iff)
qed

end


lemma links_by_id_get: "wf_graph g \<Longrightarrow> l \<in> set (g_links g) \<Longrightarrow> links_by_id g (l_id l) = Some l"
proof -
  assume g: "wf_graph g" and l: "l \<in> set (g_links g)"
  have "links_by_id g = fill_map (\<lambda>l. Some (l_id l)) (\<lambda>l. l) Map.empty (g_links g)"
    by (simp add: links_by_id_def fill_map_def)
  then show ?thesis
    using g l by (simp add: fill_map_unique wf_graph_def distinct_map inj_on_def)
qed

lemma links_by_id_unknown: "lid \<notin> l_id ` set (g_links g) \<Longrightarrow> links_by_id g lid = None"
proof -
  assume "lid \<notin> l_id ` set (g_links g)"
  then have "foldl (\<lambda>m l. m(l_id l \<mapsto> l)) Map.empty ls lid = None" if "set ls \<subseteq> set (g_links g)" for ls
    using that by (induction ls rule: rev_induct) auto
  then show ?thesis by (simp add: links_by_id_def)
qed

text \<open>
  C17: The status of a shaping or reset request tells what happened at the ASes.  An unknown link is a
  404, a body that does not decode a 400, a direction other than the three a 400, in this order and
  whatever controller is behind the API: in all three cases the controller is not called and its state is
  what it was, so nobody is contacted.  In a well-formed graph a request for a link with a valid direction calls the
  linkd controller once, is answered with one result per end the direction names, and with 200
  exactly when at least one end's linkd accepted the PUT, or the DELETE, sent to it; with 502 when none did.
\<close>

theorem shaping_status:
  assumes "wf_graph g" "l \<in> set (g_links g)"
    and "eps = (if dir = ''a_to_b'' then [l_a l] else if dir = ''b_to_a'' then [l_b l]
      else if dir = ''both'' then [l_a l, l_b l] else [])"
    and "rq = (\<lambda>i. request_for c marshal (eps ! i) (if clear then no_shaping else sh) clear)"
  shows "(\<forall>lid body. lid \<notin> l_id ` set (g_links g) \<longrightarrow>
      apply_shaping ctl (links_by_id g) lid body clear k = (k, Fails 404 ''unknown link'')) \<and>
    apply_shaping ctl (links_by_id g) (l_id l) None clear k = (k, Fails 400 ''invalid body'') \<and>
    (eps = [] \<longrightarrow> apply_shaping ctl (links_by_id g) (l_id l) (Some (dir, sh)) clear k =
      (k, Fails 400 ''invalid direction (want a_to_b, b_to_a, or both)'')) \<and>
    (eps \<noteq> [] \<longrightarrow> (\<exists>st rs. apply_shaping (linkd_controller c marshal net) (links_by_id g) (l_id l) (Some (dir, sh)) clear n =
      (Suc n, Replies st rs) \<and> map cr_as rs = map e_as eps \<and>
      st = (if \<exists>i<length eps. \<exists>r. rq i = Some r \<and> accepted (net n i r) then 200 else 502)))"
proof (intro conjI impI allI)
  have eps: "endpoints_of l dir = eps" by (simp add: assms(3) endpoints_of_def)
  have dir: "valid_direction dir \<longleftrightarrow> eps \<noteq> []" by (auto simp: assms(3) valid_direction_def)
  note get = links_by_id_get [OF assms(1,2)]
  show "apply_shaping ctl (links_by_id g) lid body clear k = (k, Fails 404 ''unknown link'')"
    if "lid \<notin> l_id ` set (g_links g)" for lid body
    using links_by_id_unknown [OF that] by (simp add: apply_shaping_def)
  show "apply_shaping ctl (links_by_id g) (l_id l) None clear k = (k, Fails 400 ''invalid body'')"
    by (simp add: apply_shaping_def get)
  show "apply_shaping ctl (links_by_id g) (l_id l) (Some (dir, sh)) clear k =
      (k, Fails 400 ''invalid direction (want a_to_b, b_to_a, or both)'')" if "eps = []"
    using that dir by (simp add: apply_shaping_def get)
  let ?sh = "if clear then no_shaping else sh"
  assume "eps \<noteq> []"
  then obtain st rs where r: "apply_shaping (linkd_controller c marshal net) (links_by_id g) (l_id l) (Some (dir, sh)) clear n =
      (fst (linkd_controller c marshal net n l dir ?sh clear), Replies st rs)"
      "rs = snd (linkd_controller c marshal net n l dir ?sh clear)" "map cr_as rs = map e_as eps"
      "st = (if \<exists>r \<in> set rs. cr_ok r then 200 else 502)"
    using linkd_ctl.apply_shaping_outcome [where links = "links_by_id g" and lid = "l_id l" and l = l and dir = dir
        and clear = clear and sh = sh and c = c and marshal = marshal and net = net and k = n, OF get _ refl] dir eps by auto
  have rs: "rs = map (\<lambda>(i, ep). fst (apply_one c marshal (net n i) ep ?sh clear)) (enumerate 0 eps)"
    using r(2) by (simp add: linkd_controller_def client_apply_def eps split_def o_def)
  have "(\<exists>r \<in> set rs. cr_ok r) \<longleftrightarrow> (\<exists>i<length eps. cr_ok (fst (apply_one c marshal (net n i) (eps ! i) ?sh clear)))"
    unfolding rs by (simp add: in_set_enumerate_eq Bex_def)
  then have "(\<exists>r \<in> set rs. cr_ok r) \<longleftrightarrow> (\<exists>i<length eps. \<exists>r. rq i = Some r \<and> accepted (net n i r))"
    by (simp add: apply_one_outcome(3) assms(4))
  with r show "\<exists>st rs. apply_shaping (linkd_controller c marshal net) (links_by_id g) (l_id l) (Some (dir, sh)) clear n =
      (Suc n, Replies st rs) \<and> map cr_as rs = map e_as eps \<and>
      st = (if \<exists>i<length eps. \<exists>r. rq i = Some r \<and> accepted (net n i r) then 200 else 502)"
    by (auto simp: r(1) linkd_controller_def)
qed

theorem shaping_status_witness:
  "\<exists>rs. apply_shaping (linkd_controller (client_new lc_graph) (\<lambda>_. Inr ''{}'') (\<lambda>n. lc_net)) (links_by_id lc_graph)
     ''150-151'' (Some (''both'', lc_shape)) False 0 = (1, Replies 200 rs) \<and> map cr_as rs = [150, 151]"
proof -
  have eps: "[l_a ex_link, l_b ex_link] = (if ''both'' = ''a_to_b'' then [l_a ex_link] else if ''both'' = ''b_to_a'' then [l_b ex_link]
      else if ''both'' = ''both'' then [l_a ex_link, l_b ex_link] else [])" by simp
  have l: "l_id ex_link = ''150-151''" "e_as (l_a ex_link) = 150" "e_as (l_b ex_link) = 151"
    by (simp_all add: ex_link_def ex_end_def)
  obtain r where "request_for (client_new lc_graph) (\<lambda>_. Inr ''{}'') (l_a ex_link) lc_shape False = Some r"
    by (simp add: request_for_def l lc_base Let_def)
  then have "\<exists>i<length [l_a ex_link, l_b ex_link]. \<exists>r. request_for (client_new lc_graph) (\<lambda>_. Inr ''{}'') ([l_a ex_link, l_b ex_link] ! i)
      (if False then no_shaping else lc_shape) False = Some r \<and> accepted (lc_net i r)"
    by (intro exI [of _ 0]) (simp add: lc_net_def accepted_def)
  with shaping_status [OF lc_wf(1,2) eps refl, where c = "client_new lc_graph" and marshal = "\<lambda>_. Inr ''{}''"
      and net = "\<lambda>n. lc_net" and n = 0 and sh = lc_shape and clear = False,
      THEN conjunct2, THEN conjunct2, THEN conjunct2]
  show ?thesis by (auto simp: l)
qed


section \<open>History and health\<close>

text \<open>The query parameter \<open>mins\<close>: 15 unless it is a positive number, and at most 60.\<close>

definition history_mins :: "string \<Rightarrow> int" where
  "history_mins v =
     (let mins = (if v = '''' then 15 else case atoi v of None \<Rightarrow> 15 | Some n \<Rightarrow> if 0 < n then n else 15) in
      if 60 < mins then 60 else mins)"

definition handle_history :: "store \<Rightarrow> int \<Rightarrow> string \<Rightarrow> string \<Rightarrow> sample list http_out" where
  "handle_history st now key mins =
     (if key = '''' then Fails 400 ''missing key''
      else Replies 200 (store_series st key (now - history_mins mins * 60000)))"

definition health_targets :: "store \<Rightarrow> (string, bool) gomap" where
  "health_targets st = foldl (\<lambda>m k. case cut_suffix k ''/_up/'' of None \<Rightarrow> m
     | Some label \<Rightarrow> (case store_last st k of None \<Rightarrow> m | Some sm \<Rightarrow> put_key label (\<not> f64_eq (s_v sm) (Fin 0)) m))
     [] (store_keys st '''')"

text \<open>The linkd part is keyed by the AS number's decimal digits.\<close>

definition handle_health :: "store \<Rightarrow> (int, bool) gomap \<Rightarrow> ((string, bool) gomap \<times> (string, bool) gomap) http_out" where
  "handle_health st linkd = Replies 200 (health_targets st, foldl (\<lambda>m (as, up). put_key (itoa as) up m) [] linkd)"

lemma health_targets_get:
  "map_of (health_targets st) label =
     (if (label @ ''/_up/'') \<in> set (store_keys st '''') then
        map_option (\<lambda>sm. \<not> f64_eq (s_v sm) (Fin 0)) (store_last st (label @ ''/_up/'')) else None)"
proof -
  let ?f = "\<lambda>m k. case cut_suffix k ''/_up/'' of None \<Rightarrow> m
     | Some label \<Rightarrow> (case store_last st k of None \<Rightarrow> m | Some sm \<Rightarrow> put_key label (\<not> f64_eq (s_v sm) (Fin 0)) m)"
  have "map_of (foldl ?f [] ks) label =
      (if (label @ ''/_up/'') \<in> set ks then map_option (\<lambda>sm. \<not> f64_eq (s_v sm) (Fin 0)) (store_last st (label @ ''/_up/'')) else None)" for ks
  proof (induction ks rule: rev_induct)
    case (snoc k ks)
    show ?case
    proof (cases "cut_suffix k ''/_up/''")
      case None
      then have "k \<noteq> label @ ''/_up/''" using cut_suffix_append [of label "''/_up/''"] by auto
      then show ?thesis using snoc None by simp
    next
      case (Some r)
      then have "k = r @ ''/_up/''" by (simp add: cut_suffix_Some)
      then show ?thesis using snoc Some by (cases "store_last st k") auto
    qed
  qed simp
  then show ?thesis by (simp add: health_targets_def)
qed

section \<open>The trace session's routes\<close>

text \<open>Each answers 404 when there is no manager; query values are strings, a body decodes or not.\<close>

definition session_text :: "idint_error \<Rightarrow> string" where
  "session_text e = (case e of
     UnknownAs a b \<Rightarrow> ''unknown AS '' @ itoa a @ ''/'' @ itoa b @ '': bad trace session''
   | SameAs a \<Rightarrow> ''src == dst ('' @ itoa a @ ''): bad trace session''
   | _ \<Rightarrow> '''')"

definition is_bad_session :: "idint_error \<Rightarrow> bool" where
  "is_bad_session e = (case e of UnknownAs _ _ \<Rightarrow> True | SameAs _ \<Rightarrow> True | _ \<Rightarrow> False)"

definition handle_idint_paths ::
  "manager option \<Rightarrow> string \<Rightarrow> string \<Rightarrow> (int \<Rightarrow> int \<Rightarrow> string + path_json list) \<Rightarrow>
   (idint_error + (string \<times> string \<times> path_option list)) http_out" where
  "handle_idint_paths tr qsrc qdst probe = (case tr of None \<Rightarrow> not_found
   | Some m \<Rightarrow> (case (atoi qsrc, atoi qdst) of
       (Some src, Some dst) \<Rightarrow> (case path_options m src dst (probe src dst) of
           Inl e \<Rightarrow> if is_bad_session e then Fails 400 (session_text e) else Replies 502 (Inl e)
         | Inr opts \<Rightarrow> Replies 200 (Inr (mgr_ia m src, mgr_ia m dst, opts)))
     | _ \<Rightarrow> Fails 400 ''bad src/dst''))"

definition handle_idint_set ::
  "manager option \<Rightarrow> (int \<times> int \<times> string) option \<Rightarrow> manager option \<times> bool http_out" where
  "handle_idint_set tr body = (case tr of None \<Rightarrow> (None, not_found)
   | Some m \<Rightarrow> (case body of None \<Rightarrow> (Some m, Fails 400 ''invalid body'')
     | Some (src, dst, fp) \<Rightarrow> (case mgr_set src dst fp m of
         Inl e \<Rightarrow> (Some m, Fails 400 (session_text e)) | Inr m' \<Rightarrow> (Some m', Replies 200 True))))"

definition handle_idint_clear :: "manager option \<Rightarrow> manager option \<times> bool http_out" where
  "handle_idint_clear tr = (case tr of None \<Rightarrow> (None, not_found) | Some m \<Rightarrow> (Some (mgr_clear m), Replies 200 True))"

definition handle_idint_get :: "manager option \<Rightarrow> (trace_vm option \<times> probe_result option) http_out" where
  "handle_idint_get tr = (case tr of None \<Rightarrow> not_found | Some m \<Rightarrow> Replies 200 (mgr_vm m, mgr_latest m))"


section \<open>Frames\<close>

record live_frame =
  lf_frame :: frame_vm
  lf_trace :: "trace_vm option"
  lf_bgp_path :: "bgp_vm option"

text \<open>\<open>n, _ := strconv.Atoi(...)\<close> after the last dash, if there is one.\<close>

definition ia_num :: "string \<Rightarrow> int" where
  "ia_num ia = fst (atoi_full (drop (case last_index_byte CHR ''-'' ia of None \<Rightarrow> 0 | Some i \<Rightarrow> i + 1) ia))"

text \<open>
  Both controllers answer a poll of routes with a map that is not nil, so the code's test of a nil map
  is that of a trace.
\<close>

definition attach_bgp_path :: "live_frame \<Rightarrow> index \<Rightarrow> routes \<Rightarrow> live_frame" where
  "attach_bgp_path f idx rt = (case lf_trace f of None \<Rightarrow> f
   | Some t \<Rightarrow> f\<lparr>lf_bgp_path := Some ((walk idx rt (ia_num (tv_src t)) (ia_num (tv_dst t)))
       \<lparr>bp_src := tv_src t, bp_dst := tv_dst t\<rparr>)\<rparr>)"

record live_server =
  ls_g :: graph
  ls_deriver :: deriver
  ls_tr :: "manager option"
  ls_idx :: index
  ls_routes :: "routes option"
  ls_last_frame :: "live_frame option"
  ls_polling :: bool

definition live_server_new :: "graph \<Rightarrow> manager option \<Rightarrow> live_server" where
  "live_server_new g tr = \<lparr>ls_g = g, ls_deriver = deriver_new g, ls_tr = tr, ls_idx = new_index g,
     ls_routes = None, ls_last_frame = None, ls_polling = False\<rparr>"

definition build_frame :: "live_server \<Rightarrow> store \<Rightarrow> int \<Rightarrow> int \<Rightarrow> live_server \<times> live_frame" where
  "build_frame s st now nowUnix = (case frame (ls_deriver s) st now nowUnix of (d, f0) \<Rightarrow>
     let f = \<lparr>lf_frame = f0, lf_trace = (case ls_tr s of None \<Rightarrow> None | Some m \<Rightarrow> mgr_vm m), lf_bgp_path = None\<rparr> in
     (s\<lparr>ls_deriver := d\<rparr>, case ls_routes s of None \<Rightarrow> f | Some rt \<Rightarrow> attach_bgp_path f (ls_idx s) rt))"

text \<open>The broadcast tick keeps its frame; a new connection shows the last one and builds one only if there is none.\<close>

definition broadcast_tick :: "live_server \<Rightarrow> store \<Rightarrow> int \<Rightarrow> int \<Rightarrow> live_server \<times> live_frame" where
  "broadcast_tick s st now nowUnix = (case build_frame s st now nowUnix of (s1, f) \<Rightarrow> (s1\<lparr>ls_last_frame := Some f\<rparr>, f))"

definition connect_frame :: "live_server \<Rightarrow> store \<Rightarrow> int \<Rightarrow> int \<Rightarrow> live_server \<times> live_frame" where
  "connect_frame s st now nowUnix = (case ls_last_frame s of Some f \<Rightarrow> (s, f) | None \<Rightarrow> build_frame s st now nowUnix)"

text \<open>
  The poll: the tick starts one only if none is in flight; the goroutine installs shaping, baselines
  and BGP state in separate steps as its requests return.
\<close>

definition poll_begin :: "live_server \<Rightarrow> live_server \<times> bool" where
  "poll_begin s = (if ls_polling s then (s, False) else (s\<lparr>ls_polling := True\<rparr>, True))"

definition poll_shaping :: "(string \<rightharpoonup> shaping) option \<Rightarrow> live_server \<Rightarrow> live_server" where
  "poll_shaping sh s = s\<lparr>ls_deriver := set_shaping sh (ls_deriver s)\<rparr>"

definition poll_baseline :: "(string \<rightharpoonup> shaping) option \<Rightarrow> live_server \<Rightarrow> live_server" where
  "poll_baseline bl s = s\<lparr>ls_deriver := set_baseline_shaping bl (ls_deriver s)\<rparr>"

definition poll_badge :: "(string \<rightharpoonup> bgp_link) option \<Rightarrow> live_server \<Rightarrow> live_server" where
  "poll_badge badge s = s\<lparr>ls_deriver := set_bgp badge (ls_deriver s)\<rparr>"

definition poll_end :: "routes \<Rightarrow> live_server \<Rightarrow> live_server" where
  "poll_end rt s = s\<lparr>ls_routes := Some rt, ls_polling := False\<rparr>"

section \<open>The overlay follows the session\<close>

text \<open>The ASes of a loaded graph are numbered by what follows the dash of their ISD-AS.\<close>

definition ias_numbered :: "graph \<Rightarrow> bool" where
  "ias_numbered g \<longleftrightarrow> (\<forall>a \<in> set (g_ases g). ia_num (a_ia a) = a_num a)"

lemma split_on_two:
  assumes "split_on c s = [a, b]"
  shows "s = a @ c # b \<and> c \<notin> set b"
proof -
  have one: "split_on c s = [a] \<Longrightarrow> s = a \<and> c \<notin> set s" for a s
    by (induction s arbitrary: a) (auto split: if_splits list.splits)
  have "split_on c s = [a, b] \<Longrightarrow> s = a @ c # b \<and> c \<notin> set b" for a
    by (induction s arbitrary: a) (auto split: if_splits list.splits dest: one)
  with assms show ?thesis by blast
qed

lemma ia_to_num_ia:
  assumes "ia_to_num ia = Inr n"
  shows "ia_num ia = n"
proof -
  obtain a b where ab: "split_on CHR ''-'' ia = [a, b]" "atoi b = Some n"
  proof -
    have len: "length (split_on CHR ''-'' ia) = 2" and n: "atoi (split_on CHR ''-'' ia ! 1) = Some n"
      using assms by (auto simp: ia_to_num_def Let_def split: if_splits option.splits)
    obtain a b where "split_on CHR ''-'' ia = [a, b]"
      using len by (auto simp: numeral_2_eq_2 length_Suc_conv)
    with n that show thesis by simp
  qed
  have "ia = a @ CHR ''-'' # b" "CHR ''-'' \<notin> set b" using split_on_two [OF ab(1)] by auto
  then have "last_index_byte CHR ''-'' ia = Some (length a)" by (simp add: last_index_byte_append)
  then show ?thesis
    using ab(2) \<open>ia = a @ CHR ''-'' # b\<close> by (auto simp: ia_num_def atoi_def split: if_splits prod.splits)
qed


lemma load_files_numbered: "load_files core files = Inr (ases, recs) \<Longrightarrow> \<forall>a \<in> set ases. ia_num (a_ia a) = a_num a"
  by (induction core files arbitrary: ases recs rule: load_files.induct)
    (auto simp: load_file_def ia_to_num_ia split: sum.splits prod.splits)

lemma topo_load_numbered:
  assumes "topo_load al files = Inr g"
  shows "ias_numbered g"
  using assms by (rule topo_load_cases) (auto simp: ias_numbered_def dest: load_files_numbered)

lemma mg_as_iff: "mg_as (manager_new g) n \<longleftrightarrow> n \<in> a_num ` set (g_ases g)"
proof -
  have "foldl (\<lambda>s a. s(a_num a := True)) f as n \<longleftrightarrow> f n \<or> n \<in> a_num ` set as" for f and as :: "as_info list"
    by (induction "as" arbitrary: f) auto
  then show ?thesis by (simp add: manager_new_def)
qed

lemma session_ia:
  assumes "ias_numbered g" "validate_pair (manager_new g) src dst = None"
  shows "ia_num (mgr_ia (manager_new g) src) = src" "ia_num (mgr_ia (manager_new g) dst) = dst"
proof -
  have ia: "ia_num (mgr_ia (manager_new g) n) = n" if n: "n \<in> a_num ` set (g_ases g)" for n
  proof -
    have fill: "mg_ia (manager_new g) = fill_map (\<lambda>a. Some (a_num a)) a_ia Map.empty (g_ases g)"
      by (simp add: manager_new_def fill_map_def)
    obtain a where a: "last_with (\<lambda>a. Some (a_num a)) n (g_ases g) = Some a"
      using n by (cases "last_with (\<lambda>a. Some (a_num a)) n (g_ases g)") (auto simp: last_with_None)
    then have "mgr_ia (manager_new g) n = a_ia a" by (simp add: mgr_ia_def fill fill_map_last)
    then show ?thesis using last_with_Some [OF a] assms(1) by (auto simp: ias_numbered_def)
  qed
  show "ia_num (mgr_ia (manager_new g) src) = src" "ia_num (mgr_ia (manager_new g) dst) = dst"
    using assms(2) ia by (auto simp: validate_pair_def mg_as_iff split: if_splits)
qed

text \<open>
  C11: The BGP overlay of every frame is the one of the trace session shown in it: on a loaded topology,
  whatever sets, clears and probes interleave, a frame has a BGP path exactly when there is a session
  and routes have been polled, and then it is the walk over those routes between the session's own two
  ASes, labelled with their ISD-AS names; it starts at the session's source and is complete exactly
  when it ends at the session's destination.
\<close>

theorem overlay_follows_session:
  assumes "topo_load al files = Inr g" "trace_reachable g t" "ls_tr s = Some (ts_mgr t)" "ls_idx s = new_index g"
    and "build_frame s st now nowUnix = (s', f)"
  shows "lf_trace f = mgr_vm (ts_mgr t) \<and>
    (case (mg_sess (ts_mgr t), ls_routes s) of
       (Some se, Some rt) \<Rightarrow> \<exists>p. lf_bgp_path f = Some p \<and>
          p = (walk (new_index g) rt (se_src se) (se_dst se))
            \<lparr>bp_src := mgr_ia (manager_new g) (se_src se), bp_dst := mgr_ia (manager_new g) (se_dst se)\<rparr> \<and>
          hd (bp_as_path p) = se_src se \<and> (bp_complete p \<longleftrightarrow> last (bp_as_path p) = se_dst se)
     | _ \<Rightarrow> lf_bgp_path f = None)"
proof -
  let ?m = "ts_mgr t"
  have ok: "trace_ok ?m (ts_probes t)" and maps: "same_maps (manager_new g) ?m"
    using assms(2) by (rule trace_reachable_ok, rule reachable_maps)
  have f: "lf_trace f = mgr_vm ?m"
    "lf_bgp_path f = (case (mgr_vm ?m, ls_routes s) of
       (Some v, Some rt) \<Rightarrow> Some ((walk (new_index g) rt (ia_num (tv_src v)) (ia_num (tv_dst v)))\<lparr>bp_src := tv_src v, bp_dst := tv_dst v\<rparr>)
     | _ \<Rightarrow> None)"
    using assms(3-5) by (auto simp: build_frame_def attach_bgp_path_def Let_def split: prod.splits option.splits)
  show ?thesis
  proof (cases "mg_sess ?m")
    case None
    then show ?thesis using ok f by (simp add: trace_ok_def mgr_vm_def)
  next
    case (Some se)
    then obtain v where v: "mg_vm ?m = Some v" "view_of ?m se v" "validate_pair ?m (se_src se) (se_dst se) = None"
      using ok by (auto simp: trace_ok_def)
    note ia = session_ia [OF topo_load_numbered [OF assms(1)], of "se_src se" "se_dst se"]
    have vm: "tv_src v = mgr_ia (manager_new g) (se_src se)" "tv_dst v = mgr_ia (manager_new g) (se_dst se)"
        "ia_num (tv_src v) = se_src se" "ia_num (tv_dst v) = se_dst se"
      using v(2,3) ia by (auto simp: view_of_def same_mapsD [OF maps])
    show ?thesis
    proof (cases "ls_routes s")
      case None
      then show ?thesis using Some f by (simp split: option.splits)
    next
      case r: (Some rt)
      note w = walk_hops(2,3) [OF refl, of "new_index g" rt "se_src se" "se_dst se"]
      show ?thesis using Some r f v(1) vm w by (simp add: mgr_vm_def)
    qed
  qed
qed


definition ex_loaded :: graph where
  "ex_loaded = projr (topo_load (Inr [''1-151'']) ex_files)"

lemma ex_loaded: "topo_load (Inr [''1-151'']) ex_files = Inr ex_loaded"
  using ex_topo_load by (auto simp: ex_loaded_def)

lemma ex_loaded_ases: "set (g_ases ex_loaded) = set ex_ases"
proof -
  from ex_loaded ex_load_files have "g_ases ex_loaded = sort_key a_num ex_ases"
    by (elim topo_load_cases) (auto dest: arg_cong [of _ _ g_ases])
  then show ?thesis by simp
qed

definition ex_trace_sys :: trace_sys where
  "ex_trace_sys = (trace_init ex_loaded)\<lparr>ts_mgr := projr (mgr_set 155 151 '''' (manager_new ex_loaded))\<rparr>"

lemma ex_trace_reach: "trace_reachable ex_loaded ex_trace_sys"
  "mg_sess (ts_mgr ex_trace_sys) = Some \<lparr>se_src = 155, se_dst = 151, se_fingerprint = ''''\<rparr>"
proof -
  have valid: "validate_pair (manager_new ex_loaded) 155 151 = None"
    by (simp add: validate_pair_def mg_as_iff ex_loaded_ases ex_ases_def image_iff)
  have set: "mgr_set 155 151 '''' (manager_new ex_loaded) = Inr (projr (mgr_set 155 151 '''' (manager_new ex_loaded)))"
    by (simp add: mgr_set_def valid Let_def)
  have "trace_step (trace_init ex_loaded) ex_trace_sys"
    unfolding ex_trace_sys_def
  proof (rule tr_set)
    have "ts_mgr (trace_init ex_loaded) = manager_new ex_loaded" by (simp add: trace_init_def)
    with set show "mgr_set 155 151 '''' (ts_mgr (trace_init ex_loaded)) = Inr (projr (mgr_set 155 151 '''' (manager_new ex_loaded)))"
      by (simp only:)
  qed
  then show "trace_reachable ex_loaded ex_trace_sys" by (rule r_into_rtranclp)
  show "mg_sess (ts_mgr ex_trace_sys) = Some \<lparr>se_src = 155, se_dst = 151, se_fingerprint = ''''\<rparr>"
    by (simp add: ex_trace_sys_def mgr_set_def valid Let_def)
qed

definition ex_live :: live_server where
  "ex_live = (live_server_new ex_loaded (Some (ts_mgr ex_trace_sys)))\<lparr>ls_routes := Some (bgp_routes ex_loaded Map.empty)\<rparr>"

theorem overlay_follows_session_witness:
  "\<exists>p. lf_bgp_path (snd (build_frame ex_live (store_new 4) 5000 5)) = Some p \<and> hd (bp_as_path p) = 155"
proof -
  obtain s' f where f: "build_frame ex_live (store_new 4) 5000 5 = (s', f)"
    by (cases "build_frame ex_live (store_new 4) 5000 5")
  have "ls_tr ex_live = Some (ts_mgr ex_trace_sys)" "ls_idx ex_live = new_index ex_loaded"
    "ls_routes ex_live = Some (bgp_routes ex_loaded Map.empty)"
    by (simp_all add: ex_live_def live_server_new_def)
  with overlay_follows_session [OF ex_loaded ex_trace_reach(1) this(1,2) f] show ?thesis
    by (auto simp: ex_trace_reach(2) f)
qed

end
