(* ===== verification/LiveHub.thy ===== *)
theory LiveHub
  imports FabricApi
begin

text \<open>
  The WebSocket side of \<open>dashboard/backend/internal/api/api.go\<close>: the hub of live connections,
  \<open>handleLive\<close> and the broadcast, as a step relation in which connecting, leaving and the writes of a
  running broadcast interleave.  The main result is what a client sees: one snapshot, then every frame
  broadcast since it registered, in order.  The last section is the static file handler.
\<close>

section \<open>The hub\<close>

text \<open>
  A connection is \<open>Fresh\<close>, has been written its snapshot, is registered, has left the hub but is not yet
  closed, or is closed.
\<close>

datatype phase = Fresh | Snapped | Live | Leaving | Gone

datatype 'f live_msg = SnapshotMsg 'f | FrameMsg 'f

text \<open>
  \<open>hs_todo\<close> are the clients the running broadcast copied and has not written to yet, \<open>hs_sent\<close> the frames
  of all broadcasts begun, and \<open>hs_joined c\<close> how many there were when \<open>c\<close> registered.
\<close>

record 'f hub_sys =
  hs_conns :: "nat set"
  hs_phase :: "nat \<Rightarrow> phase"
  hs_log :: "nat \<Rightarrow> 'f live_msg list"
  hs_todo :: "nat list"
  hs_sent :: "'f list"
  hs_joined :: "nat \<Rightarrow> nat"

definition hub_new :: "'f hub_sys" where
  "hub_new = \<lparr>hs_conns = {}, hs_phase = (\<lambda>_. Fresh), hs_log = (\<lambda>_. []), hs_todo = [], hs_sent = [], hs_joined = (\<lambda>_. 0)\<rparr>"

definition hub_add :: "nat \<Rightarrow> 'f hub_sys \<Rightarrow> 'f hub_sys" where
  "hub_add c s = s\<lparr>hs_conns := insert c (hs_conns s)\<rparr>"

definition hub_remove :: "nat \<Rightarrow> 'f hub_sys \<Rightarrow> 'f hub_sys" where
  "hub_remove c s = s\<lparr>hs_conns := hs_conns s - {c}\<rparr>"

definition conn_close :: "nat \<Rightarrow> 'f hub_sys \<Rightarrow> 'f hub_sys" where
  "conn_close c s = s\<lparr>hs_phase := (hs_phase s)(c := Gone)\<rparr>"

text \<open>A write under the client's own lock; \<open>ok\<close> is whether it met the deadline.\<close>

definition ws_write :: "nat \<Rightarrow> 'f live_msg \<Rightarrow> bool \<Rightarrow> 'f hub_sys \<Rightarrow> 'f hub_sys \<times> bool" where
  "ws_write c m ok s = (if ok then (s\<lparr>hs_log := (hs_log s)(c := hs_log s c @ [m])\<rparr>, True) else (s, False))"

text \<open>\<open>handleLive\<close> up to the snapshot, its registration, and its two steps at the end.\<close>

definition live_snapshot :: "nat \<Rightarrow> 'f \<Rightarrow> bool \<Rightarrow> 'f hub_sys \<Rightarrow> 'f hub_sys" where
  "live_snapshot c f ok s = (case ws_write c (SnapshotMsg f) ok s of
     (s1, True) \<Rightarrow> s1\<lparr>hs_phase := (hs_phase s1)(c := Snapped)\<rparr>
   | (s1, False) \<Rightarrow> conn_close c s1)"

definition live_register :: "nat \<Rightarrow> 'f hub_sys \<Rightarrow> 'f hub_sys" where
  "live_register c s = (hub_add c s)\<lparr>hs_phase := (hs_phase s)(c := Live), hs_joined := (hs_joined s)(c := length (hs_sent s))\<rparr>"

definition live_leave :: "nat \<Rightarrow> 'f hub_sys \<Rightarrow> 'f hub_sys" where
  "live_leave c s = (hub_remove c s)\<lparr>hs_phase := (hs_phase s)(c := Leaving)\<rparr>"

text \<open>A broadcast copies the set of clients in some order and then writes to each.\<close>

definition broadcast_begin :: "'f \<Rightarrow> nat list \<Rightarrow> 'f hub_sys \<Rightarrow> 'f hub_sys" where
  "broadcast_begin f order s = s\<lparr>hs_todo := order, hs_sent := hs_sent s @ [f]\<rparr>"

definition broadcast_write :: "bool \<Rightarrow> 'f hub_sys \<Rightarrow> 'f hub_sys" where
  "broadcast_write ok s = (case hs_todo s of [] \<Rightarrow> s
   | c # cs \<Rightarrow> (case ws_write c (FrameMsg (last (hs_sent s))) ok s of
       (s1, True) \<Rightarrow> s1\<lparr>hs_todo := cs\<rparr>
     | (s1, False) \<Rightarrow> conn_close c (hub_remove c (s1\<lparr>hs_todo := cs\<rparr>))))"

text \<open>
  A write to a closed connection fails, and a connection is closed once; otherwise the steps come in
  any order.
\<close>

inductive hub_step :: "'f hub_sys \<Rightarrow> 'f hub_sys \<Rightarrow> bool" where
  hub_connect: "hs_phase s c = Fresh \<Longrightarrow> hub_step s (live_snapshot c f ok s)"
| hub_register: "hs_phase s c = Snapped \<Longrightarrow> hub_step s (live_register c s)"
| hub_leave: "hs_phase s c = Live \<Longrightarrow> hub_step s (live_leave c s)"
| hub_close: "hs_phase s c = Leaving \<Longrightarrow> hub_step s (conn_close c s)"
| hub_begin: "hs_todo s = [] \<Longrightarrow> distinct order \<Longrightarrow> set order = hs_conns s \<Longrightarrow> hub_step s (broadcast_begin f order s)"
| hub_write: "hs_todo s = c # cs \<Longrightarrow> ok \<longrightarrow> hs_phase s c \<noteq> Gone \<Longrightarrow> hub_step s (broadcast_write ok s)"

inductive_cases hub_stepE: "hub_step s s'"

abbreviation hub_reachable :: "'f hub_sys \<Rightarrow> bool" where
  "hub_reachable s \<equiv> hub_step\<^sup>*\<^sup>* hub_new s"

section \<open>What a client sees\<close>

text \<open>The log holds the first \<open>k\<close> of the frames since the client joined.\<close>

definition saw :: "'f hub_sys \<Rightarrow> nat \<Rightarrow> nat \<Rightarrow> bool" where
  "saw s c k \<longleftrightarrow> (\<exists>f. hs_log s c = SnapshotMsg f # map FrameMsg (take k (drop (hs_joined s c) (hs_sent s)))) \<and>
     hs_joined s c + k \<le> length (hs_sent s)"

definition client_ok :: "'f hub_sys \<Rightarrow> nat \<Rightarrow> bool" where
  "client_ok s c \<longleftrightarrow> (case hs_phase s c of
     Fresh \<Rightarrow> hs_log s c = [] \<and> c \<notin> set (hs_todo s)
   | Snapped \<Rightarrow> (\<exists>f. hs_log s c = [SnapshotMsg f]) \<and> c \<notin> set (hs_todo s)
   | Live \<Rightarrow> (if c \<in> set (hs_todo s) then hs_joined s c < length (hs_sent s) \<and> saw s c (length (hs_sent s) - hs_joined s c - 1)
       else saw s c (length (hs_sent s) - hs_joined s c))
   | Leaving \<Rightarrow> (if c \<in> set (hs_todo s) then hs_joined s c < length (hs_sent s) \<and> saw s c (length (hs_sent s) - hs_joined s c - 1)
       else \<exists>k. saw s c k)
   | Gone \<Rightarrow> hs_log s c = [] \<or> (\<exists>k. saw s c k))"

definition hub_inv :: "'f hub_sys \<Rightarrow> bool" where
  "hub_inv s \<longleftrightarrow> distinct (hs_todo s) \<and> hs_conns s = {c. hs_phase s c = Live} \<and> (\<forall>c. client_ok s c)"

lemma saw_cong:
  "hs_log s' c = hs_log s c \<Longrightarrow> hs_joined s' c = hs_joined s c \<Longrightarrow> hs_sent s' = hs_sent s \<Longrightarrow> saw s' c k = saw s c k"
  by (simp add: saw_def)

lemma saw_grow: 
  assumes "saw s c k" "hs_log s' c = hs_log s c" "hs_joined s' c = hs_joined s c" "hs_sent s' = hs_sent s @ [f]"
  shows "saw s' c k"
  using assms by (auto simp: saw_def)

lemma saw_next:
  assumes "saw s c (length (hs_sent s) - hs_joined s c - 1)" "hs_joined s c < length (hs_sent s)"
    and "hs_log s' c = hs_log s c @ [FrameMsg (last (hs_sent s))]" "hs_joined s' c = hs_joined s c" "hs_sent s' = hs_sent s"
  shows "saw s' c (length (hs_sent s) - hs_joined s c)"
proof -
  let ?d = "drop (hs_joined s c) (hs_sent s)"
  have "?d \<noteq> []" "length ?d = length (hs_sent s) - hs_joined s c" "last ?d = last (hs_sent s)" using assms(2) by auto
  then have "take (length (hs_sent s) - hs_joined s c - 1) ?d @ [last (hs_sent s)] = ?d"
    by (metis append_butlast_last_id butlast_conv_take)
  then have "map FrameMsg (take (length (hs_sent s) - hs_joined s c - 1) ?d) @ [FrameMsg (last (hs_sent s))] = map FrameMsg ?d"
    by (metis list.simps(8,9) map_append)
  with assms show ?thesis by (auto simp: saw_def)
qed

lemma client_cong:
  assumes "hs_phase s' x = hs_phase s x" "hs_log s' x = hs_log s x" "x \<in> set (hs_todo s') \<longleftrightarrow> x \<in> set (hs_todo s)"
    "hs_sent s' = hs_sent s" "hs_joined s' x = hs_joined s x"
  shows "client_ok s' x = client_ok s x"
proof -
  have "saw s' x = saw s x" using assms(2,4,5) by (intro ext saw_cong) simp_all
  with assms show ?thesis by (cases "hs_phase s x") (simp_all add: client_ok_def)
qed

text \<open>A step changes one client: the invariant needs to be checked there only.\<close>

lemma hub_inv_step:
  assumes "hub_inv s" "client_ok s' c"
    and "\<And>x. x \<noteq> c \<Longrightarrow> hs_phase s' x = hs_phase s x \<and> hs_log s' x = hs_log s x \<and> hs_joined s' x = hs_joined s x"
    and "set (hs_todo s') - {c} = set (hs_todo s) - {c}" "hs_sent s' = hs_sent s" "distinct (hs_todo s')"
    and "hs_conns s' - {c} = hs_conns s - {c}" "c \<in> hs_conns s' \<longleftrightarrow> hs_phase s' c = Live"
  shows "hub_inv s'"
proof -
  have "client_ok s' x" for x
  proof (cases "x = c")
    case False
    then have "x \<in> set (hs_todo s') \<longleftrightarrow> x \<in> set (hs_todo s)" using assms(4) by blast
    with False show ?thesis
      using assms(1,3,5) client_cong [of s' x s] by (simp add: hub_inv_def)
  qed (use assms(2) in simp)
  moreover have "hs_conns s' = {c. hs_phase s' c = Live}"
  proof -
    have "x \<in> hs_conns s' \<longleftrightarrow> hs_phase s' x = Live" for x
    proof (cases "x = c")
      case False
      then have "x \<in> hs_conns s' \<longleftrightarrow> x \<in> hs_conns s" using assms(7) by blast
      then show ?thesis using False assms(1,3) by (simp add: hub_inv_def)
    qed (use assms(8) in simp)
    then show ?thesis by blast
  qed
  ultimately show ?thesis using assms(6) by (simp add: hub_inv_def)
qed

lemma hub_step_inv:
  assumes "hub_step s s'" "hub_inv s"
  shows "hub_inv s'"
  using assms(1)
proof cases
  case (hub_connect c f ok)
  have "client_ok s c" using assms(2) by (simp add: hub_inv_def)
  then show ?thesis
    using hub_connect assms(2)
    by (intro hub_inv_step [OF assms(2), of s' c])
      (auto simp: hub_inv_def client_ok_def live_snapshot_def ws_write_def conn_close_def)
next
  case (hub_register c)
  have "client_ok s c" using assms(2) by (simp add: hub_inv_def)
  then show ?thesis
    using hub_register assms(2)
    by (intro hub_inv_step [OF assms(2), of s' c])
      (auto simp: hub_inv_def client_ok_def live_register_def hub_add_def saw_def)
next
  case (hub_leave c)
  have "client_ok s c" using assms(2) by (simp add: hub_inv_def)
  moreover have "saw s' c = saw s c" by (rule ext, rule saw_cong) (simp_all add: hub_leave live_leave_def hub_remove_def)
  ultimately show ?thesis
    using hub_leave assms(2)
    by (intro hub_inv_step [OF assms(2), of s' c])
      (auto simp: hub_inv_def client_ok_def live_leave_def hub_remove_def)
next
  case (hub_close c)
  have "client_ok s c" using assms(2) by (simp add: hub_inv_def)
  moreover have "saw s' c = saw s c" by (rule ext, rule saw_cong) (simp_all add: hub_close conn_close_def)
  ultimately show ?thesis
    using hub_close assms(2)
    by (intro hub_inv_step [OF assms(2), of s' c])
      (auto simp: hub_inv_def client_ok_def conn_close_def split: if_splits)
next
  case (hub_begin order f)
  have ok: "client_ok s x" for x using assms(2) by (simp add: hub_inv_def)
  have same: "hs_log s' = hs_log s" "hs_todo s' = order" "hs_sent s' = hs_sent s @ [f]" "hs_joined s' = hs_joined s"
    "hs_phase s' = hs_phase s" "hs_conns s' = hs_conns s"
    using hub_begin by (auto simp: broadcast_begin_def)
  have live: "x \<in> set order \<longleftrightarrow> hs_phase s x = Live" for x using hub_begin assms(2) by (auto simp: hub_inv_def)
  have grow: "saw s x k \<Longrightarrow> saw s' x k" for x k using saw_grow [of s x k s' f] same by simp
  have le: "saw s x k \<Longrightarrow> hs_joined s x < Suc (length (hs_sent s))" for x k by (simp add: saw_def)
  have "client_ok s' x" for x
    using ok [of x] hub_begin(2) live [of x] grow [of x] le [of x] same
    by (cases "hs_phase s x") (auto simp: client_ok_def Suc_diff_le)
  then show ?thesis using assms(2) same hub_begin by (simp add: hub_inv_def)
next
  case (hub_write c cs ok)
  have cok: "client_ok s c" and cs: "distinct (c # cs)" using assms(2) hub_write by (auto simp: hub_inv_def dest: spec [of _ c])
  show ?thesis
  proof (rule hub_inv_step [OF assms(2), of s' c])
    show "client_ok s' c"
    proof (cases ok)
      case True
      have s': "hs_log s' c = hs_log s c @ [FrameMsg (last (hs_sent s))]" "hs_joined s' = hs_joined s" "hs_sent s' = hs_sent s"
        "hs_phase s' = hs_phase s" "hs_todo s' = cs"
        using True hub_write by (auto simp: broadcast_write_def ws_write_def)
      have old: "hs_phase s c \<in> {Live, Leaving}" "hs_joined s c < length (hs_sent s)"
          "saw s c (length (hs_sent s) - hs_joined s c - 1)"
        using cok hub_write True by (auto simp: client_ok_def split: phase.splits)
      have "saw s' c (length (hs_sent s') - hs_joined s' c)"
        using saw_next [OF old(3,2), of s'] s' by simp
      then show ?thesis using old(1) s' cs by (auto simp: client_ok_def)
    next
      case False
      have s': "hs_log s' c = hs_log s c" "hs_joined s' c = hs_joined s c" "hs_sent s' = hs_sent s" "hs_phase s' c = Gone"
        using False hub_write by (auto simp: broadcast_write_def ws_write_def conn_close_def hub_remove_def)
      have "hs_log s c = [] \<or> (\<exists>k. saw s c k)"
        using cok hub_write by (auto simp: client_ok_def split: phase.splits)
      moreover have "saw s' c = saw s c" using s' by (intro ext saw_cong) simp_all
      ultimately show ?thesis using s' by (simp add: client_ok_def)
    qed
    show "\<And>x. x \<noteq> c \<Longrightarrow> hs_phase s' x = hs_phase s x \<and> hs_log s' x = hs_log s x \<and> hs_joined s' x = hs_joined s x"
      "set (hs_todo s') - {c} = set (hs_todo s) - {c}" "hs_sent s' = hs_sent s" "distinct (hs_todo s')"
      "hs_conns s' - {c} = hs_conns s - {c}"
      using hub_write cs by (auto simp: broadcast_write_def ws_write_def conn_close_def hub_remove_def)
    have "hs_conns s = {c. hs_phase s c = Live}" using assms(2) by (simp add: hub_inv_def)
    then show "c \<in> hs_conns s' \<longleftrightarrow> hs_phase s' c = Live"
      using hub_write by (auto simp: broadcast_write_def ws_write_def conn_close_def hub_remove_def)
  qed
qed

lemma hub_reachable_inv: "hub_reachable s \<Longrightarrow> hub_inv s"
proof (induction rule: rtranclp_induct)
  case base
  show ?case by (simp add: hub_inv_def hub_new_def client_ok_def)
qed (rule hub_step_inv)


text \<open>
  C10: Every live client sees one snapshot and then the broadcast frames in order.  However connections,
  departures, slow clients and broadcasts interleave, what a client has received is nothing, or its
  snapshot followed by a run of consecutive frames from the first broadcast after its registration,
  none skipped, repeated or reordered; and a client registered when no broadcast is under way has
  received every one of those frames.
\<close>

theorem live_stream_ordered:
  assumes "hub_reachable s"
  shows "(hs_log s c = [] \<or> (\<exists>f k. hs_log s c = SnapshotMsg f # map FrameMsg (take k (drop (hs_joined s c) (hs_sent s))))) \<and>
    (c \<in> hs_conns s \<and> hs_todo s = [] \<longrightarrow>
      (\<exists>f. hs_log s c = SnapshotMsg f # map FrameMsg (drop (hs_joined s c) (hs_sent s))))"
proof -
  have inv: "client_ok s c" "hs_conns s = {c. hs_phase s c = Live}"
    using hub_reachable_inv [OF assms] by (simp_all add: hub_inv_def)
  have nil: "hs_log s c = [SnapshotMsg f] \<Longrightarrow>
      \<exists>f k. hs_log s c = SnapshotMsg f # map FrameMsg (take k (drop (hs_joined s c) (hs_sent s)))" for f
    by (intro exI [of _ f] exI [of _ 0]) simp
  have "saw s c k \<Longrightarrow> \<exists>f k. hs_log s c = SnapshotMsg f # map FrameMsg (take k (drop (hs_joined s c) (hs_sent s)))" for k
    by (auto simp: saw_def)
  then have "hs_log s c = [] \<or> (\<exists>f k. hs_log s c = SnapshotMsg f # map FrameMsg (take k (drop (hs_joined s c) (hs_sent s))))"
    using inv(1) nil by (cases "hs_phase s c") (auto simp: client_ok_def split: if_splits)
  moreover have "\<exists>f. hs_log s c = SnapshotMsg f # map FrameMsg (drop (hs_joined s c) (hs_sent s))"
    if "c \<in> hs_conns s" "hs_todo s = []"
    using inv that by (auto simp: client_ok_def saw_def)
  ultimately show ?thesis by blast
qed

text \<open>
  A broadcast ends: whatever the writes do, each takes one client off the list, so after as many writes
  as there were clients none is left, and exactly the clients whose write failed are out of the hub.
\<close>

fun broadcast_run :: "bool list \<Rightarrow> 'f hub_sys \<Rightarrow> 'f hub_sys" where
  "broadcast_run [] s = s"
| "broadcast_run (ok # outs) s = broadcast_run outs (broadcast_write ok s)"

lemma broadcast_run_ends:
  "length outs = length (hs_todo s) \<Longrightarrow> hs_todo (broadcast_run outs s) = [] \<and>
    hs_conns (broadcast_run outs s) = hs_conns s - {c. (c, False) \<in> set (zip (hs_todo s) outs)}"
proof (induction outs arbitrary: s)
  case (Cons ok outs)
  then obtain c cs where todo: "hs_todo s = c # cs" by (cases "hs_todo s") auto
  have step: "hs_todo (broadcast_write ok s) = cs" "hs_conns (broadcast_write ok s) = (if ok then hs_conns s else hs_conns s - {c})"
    by (simp_all add: broadcast_write_def todo ws_write_def conn_close_def hub_remove_def)
  have "length outs = length (hs_todo (broadcast_write ok s))" using Cons.prems step todo by simp
  from Cons.IH [OF this] step todo show ?case by auto
qed simp

text \<open>Two clients; the first is too slow for the second frame.\<close>

definition ex_hub_steps :: "nat hub_sys list" where
  "ex_hub_steps = (let s0 = hub_new; s1 = live_snapshot 1 6 True s0; s2 = live_register 1 s1; s3 = broadcast_begin 7 [1] s2;
      s4 = live_snapshot 2 6 True s3; s5 = broadcast_write True s4; s6 = live_register 2 s5; s7 = broadcast_begin 8 [1, 2] s6;
      s8 = broadcast_write False s7; s9 = broadcast_write True s8 in [s0, s1, s2, s3, s4, s5, s6, s7, s8, s9])"

lemmas hub_ops = hub_new_def live_snapshot_def live_register_def broadcast_begin_def broadcast_write_def
  ws_write_def hub_add_def hub_remove_def conn_close_def

lemma ex_hub_reach: "hub_reachable (last ex_hub_steps)"
proof -
  have "hub_step (ex_hub_steps ! 0) (ex_hub_steps ! 1)" "hub_step (ex_hub_steps ! 3) (ex_hub_steps ! 4)"
    unfolding ex_hub_steps_def Let_def by (simp, rule hub_connect, simp add: hub_ops)+
  moreover have "hub_step (ex_hub_steps ! 1) (ex_hub_steps ! 2)" "hub_step (ex_hub_steps ! 5) (ex_hub_steps ! 6)"
    unfolding ex_hub_steps_def Let_def by (simp, rule hub_register, simp add: hub_ops)+
  moreover have "hub_step (ex_hub_steps ! 2) (ex_hub_steps ! 3)" "hub_step (ex_hub_steps ! 6) (ex_hub_steps ! 7)"
    unfolding ex_hub_steps_def Let_def by (simp, rule hub_begin; auto simp add: hub_ops)+
  moreover have "hub_step (ex_hub_steps ! 4) (ex_hub_steps ! 5)"
    unfolding ex_hub_steps_def Let_def by (simp, rule hub_write [of _ 1 "[]"]; simp add: hub_ops)
  moreover have "hub_step (ex_hub_steps ! 7) (ex_hub_steps ! 8)"
    unfolding ex_hub_steps_def Let_def by (simp, rule hub_write [of _ 1 "[2]"]; simp add: hub_ops)
  moreover have "hub_step (ex_hub_steps ! 8) (ex_hub_steps ! 9)"
    unfolding ex_hub_steps_def Let_def by (simp, rule hub_write [of _ 2 "[]"]; simp add: hub_ops)
  moreover have "ex_hub_steps ! 0 = hub_new" "last ex_hub_steps = ex_hub_steps ! 9" by (simp_all add: ex_hub_steps_def Let_def)
  ultimately show ?thesis by (metis rtranclp.rtrancl_into_rtrancl rtranclp.rtrancl_refl)
qed

theorem live_stream_ordered_witness:
  "\<exists>f. hs_log (last ex_hub_steps) 2 = SnapshotMsg f # map FrameMsg (drop (hs_joined (last ex_hub_steps) 2) (hs_sent (last ex_hub_steps)))"
proof -
  have "2 \<in> hs_conns (last ex_hub_steps)" "hs_todo (last ex_hub_steps) = []"
    by (simp_all add: ex_hub_steps_def Let_def hub_ops)
  with live_stream_ordered [OF ex_hub_reach, of 2] show ?thesis by blast
qed

section \<open>Static files\<close>

text \<open>
  What the handler does with a path: the file server serves a file that can be opened, the index shell
  stands in for other paths, if it can be read, and paths under \<open>/api/\<close> are never served.
\<close>

datatype static_reply = StaticNotFound | StaticFile string | StaticIndex string

definition static_handler :: "(string \<Rightarrow> bool) \<Rightarrow> (string \<Rightarrow> string option) \<Rightarrow> string \<Rightarrow> static_reply" where
  "static_handler opens read path =
     (if has_prefix path ''/api/'' then StaticNotFound
      else let name0 = trim_prefix path ''/''; name = (if name0 = '''' then ''index.html'' else name0) in
        if opens name then StaticFile name
        else case read ''index.html'' of None \<Rightarrow> StaticNotFound | Some data \<Rightarrow> StaticIndex data)"

lemma static_never_api: "has_prefix path ''/api/'' \<Longrightarrow> static_handler opens read path = StaticNotFound"
  by (simp add: static_handler_def)

end
