(* ===== verification/ApiFiles.thy ===== *)
theory ApiFiles
  imports JoinApi
begin

text \<open>
  \<open>dashboard/backend/internal/api\<close>, the routes that serve files: \<open>bundle.go\<close> and \<open>instructions.go\<close>, with
  the part of Go's \<open>path/filepath\<close> they use.  The file system is the argument \<open>read\<close>, from a path to the
  content, if the file can be read.  The main result is that the instruction routes never leave their
  directory.
\<close>

section \<open>Package filepath\<close>

fun clean_loop :: "bool \<Rightarrow> string list \<Rightarrow> string list \<Rightarrow> string list" where
  "clean_loop rooted out [] = out"
| "clean_loop rooted out (c # cs) =
     (if c = '''' \<or> c = ''.'' then clean_loop rooted out cs
      else if c = ''..'' then
        (if out \<noteq> [] \<and> last out \<noteq> ''..'' then clean_loop rooted (butlast out) cs
         else if rooted then clean_loop rooted out cs
         else clean_loop rooted (out @ [c]) cs)
      else clean_loop rooted (out @ [c]) cs)"

fun slash_join :: "string list \<Rightarrow> string" where
  "slash_join [] = ''''"
| "slash_join [c] = c"
| "slash_join (c # cs) = c @ ''/'' @ slash_join cs"

definition rooted :: "string \<Rightarrow> bool" where
  "rooted p = (p \<noteq> '''' \<and> hd p = CHR ''/'')"

definition path_clean :: "string \<Rightarrow> string" where
  "path_clean p = (if p = '''' then ''.''
     else let s = (if rooted p then ''/'' else '''') @ slash_join (clean_loop (rooted p) [] (split_on CHR ''/'' p)) in
       if s = '''' then ''.'' else s)"

definition filepath_join :: "string list \<Rightarrow> string" where
  "filepath_join elems = (case dropWhile (\<lambda>e. e = '''') elems of [] \<Rightarrow> '''' | es \<Rightarrow> path_clean (slash_join es))"

section \<open>Endhost bundles\<close>

definition unlines :: "string list \<Rightarrow> string" where
  "unlines ls = concat (map (\<lambda>l. l @ nl) ls)"

definition endhost_sd_toml :: "int \<Rightarrow> string" where
  \<open>endhost_sd_toml n = unlines [
     ''[general]'', ''id = "sd1-'' @ itoa n @ ''"'', ''config_dir = "."'', '''',
     ''[trust_db]'', ''connection = "sd1-'' @ itoa n @ ''.trust.db"'', '''',
     ''[path_db]'', ''connection = "sd1-'' @ itoa n @ ''.path.db"'', '''',
     ''[sd]'', ''address = "127.0.0.1:30255"'', ''query_interval = "30s"'', '''',
     ''[drkey_level2_db]'', ''connection = "sd1-'' @ itoa n @ ''.drkey_level2.db"'', '''',
     ''[log.console]'', ''level = "info"'']\<close>

definition bundle_readme :: "int \<Rightarrow> string" where
  \<open>bundle_readme n = unlines [
     ''SCION endhost kit for AS 1-'' @ itoa n @ '' (IETF 126 attendee access)'', '''',
     ''Contents:'',
     ''  topology.json            the AS topology'',
     ''  sd.toml                  sciond config (loopback, config_dir ".")'',
     ''  certs/ISD1-B1-S1.trc     the ISD trust root (public)'', '''',
     ''Unpack into an empty directory and run sciond there with sd.toml.'',
     ''Full setup (WireGuard, SCION tools, scitra, MTU caveats) lives on the'',
     ''join page, or raw:'', '''',
     ''  /api/instructions/laptop.md'', '''',
     ''Keep tunnelled payloads under ~1200 bytes.'']\<close>

text \<open>\<open>archive\<close> stands for the tar and gzip writers: the bytes of an archive of named files, or an error.\<close>

definition handle_join_bundle ::
  "join_config \<Rightarrow> string \<Rightarrow> (string \<Rightarrow> string option) \<Rightarrow> ((string \<times> string) list \<Rightarrow> string option) \<Rightarrow> (string \<times> string) http_out" where
  "handle_join_bundle jc as read archive =
     (if \<not> jc_enabled jc then not_found
      else case atoi as of None \<Rightarrow> Fails 400 ''bad AS''
      | Some n \<Rightarrow>
        if \<not> as_allowed jc n then not_found
        else let asDir = filepath_join [jc_config_dir jc, ''AS'' @ itoa n] in
          (case read (filepath_join [asDir, ''topology.json'']) of None \<Rightarrow> Fails 404 ''topology unavailable''
           | Some topology \<Rightarrow> (case read (filepath_join [asDir, ''certs'', ''ISD1-B1-S1.trc'']) of None \<Rightarrow> Fails 404 ''trc unavailable''
             | Some trc \<Rightarrow>
                (case archive [(''topology.json'', topology), (''sd.toml'', endhost_sd_toml n),
                    (''certs/ISD1-B1-S1.trc'', trc), (''README.txt'', bundle_readme n)] of
                  None \<Rightarrow> Fails 500 ''archive error''
                | Some data \<Rightarrow> Replies 200 (''scion-endhost-AS'' @ itoa n @ ''.tar.gz'', data)))))"

section \<open>Instructions\<close>

record instr_entry =
  ie_name :: string
  ie_title :: string

text \<open>The regular expression: one or more of the class, then \<open>.md\<close>, which is in the class as well.\<close>

definition instr_char :: "char \<Rightarrow> bool" where
  "instr_char c \<longleftrightarrow> alphanumeric c \<or> c \<in> set ''._-''"

definition instr_name_ok :: "string \<Rightarrow> bool" where
  "instr_name_ok name = (case cut_suffix name ''.md'' of None \<Rightarrow> False | Some r \<Rightarrow> r \<noteq> '''' \<and> list_all instr_char r)"

fun title_loop :: "string list \<Rightarrow> string \<Rightarrow> string" where
  "title_loop [] fallback = fallback"
| "title_loop (l # ls) fallback = (let line = trim_space l in
     if has_prefix line ''# '' then trim_space (drop 2 line) else title_loop ls fallback)"

definition title_of :: "string \<Rightarrow> string \<Rightarrow> string" where
  "title_of md fallback = title_loop (split_on CHR 0x0A md) fallback"

text \<open>\<open>os.ReadDir\<close>: the entries' names and whether they are directories, or an error.\<close>

definition list_entry_of :: "join_config \<Rightarrow> (string \<Rightarrow> string option) \<Rightarrow> string \<Rightarrow> instr_entry" where
  "list_entry_of jc read name = \<lparr>ie_name = name,
     ie_title = (case read (filepath_join [jc_instructions_dir jc, name]) of None \<Rightarrow> name | Some md \<Rightarrow> title_of md name)\<rparr>"

definition handle_instructions_list ::
  "join_config \<Rightarrow> (string \<Rightarrow> (string \<times> bool) list option) \<Rightarrow> (string \<Rightarrow> string option) \<Rightarrow> instr_entry list http_out" where
  "handle_instructions_list jc readdir read = (let out =
      (if jc_instructions_dir jc = '''' then []
       else case readdir (jc_instructions_dir jc) of None \<Rightarrow> []
         | Some entries \<Rightarrow> map (list_entry_of jc read \<circ> fst)
             (filter (\<lambda>(name, is_dir). \<not> (is_dir \<or> \<not> has_suffix name ''.md'')) entries)) in
     Replies 200 (sort_key ie_name out))"

definition handle_instruction :: "join_config \<Rightarrow> string \<Rightarrow> (string \<Rightarrow> string option) \<Rightarrow> string http_out" where
  "handle_instruction jc name read =
     (if \<not> instr_name_ok name then Fails 400 ''bad name''
      else if jc_instructions_dir jc = '''' then not_found
      else case read (filepath_join [jc_instructions_dir jc, name]) of None \<Rightarrow> not_found | Some data \<Rightarrow> Replies 200 data)"

section \<open>Paths stay in their directory\<close>

lemma split_on_concat: "split_on c (s @ c # t) = split_on c s @ split_on c t"
  by (induction s) (auto split: list.splits)

lemma clean_loop_append: "clean_loop r out (xs @ ys) = clean_loop r (clean_loop r out xs) ys"
  by (induction r out xs rule: clean_loop.induct) auto

lemma slash_join_snoc: "slash_join (cs @ [c]) = (if cs = [] then c else slash_join cs @ ''/'' @ c)"
  by (induction cs rule: slash_join.induct) auto

lemma slash_join_nonempty: "slash_join cs = '''' \<longleftrightarrow> cs = [] \<or> cs = ['''']"
  by (cases cs rule: slash_join.cases) auto

lemma clean_loop_parts: "c \<in> set (clean_loop r out cs) \<Longrightarrow> c \<in> set out \<or> c \<noteq> '''' \<and> c \<noteq> ''.''"
  by (induction r out cs rule: clean_loop.induct) (auto split: if_splits dest: in_set_butlastD)

lemma clean_loop_set: "x \<in> set (clean_loop r out cs) \<Longrightarrow> x \<in> set out \<or> x \<in> set cs"
  by (induction r out cs rule: clean_loop.induct) (auto split: if_splits dest: in_set_butlastD)

lemma split_on_parts: "p \<in> set (split_on c s) \<Longrightarrow> c \<notin> set p"
  by (induction s arbitrary: p) (auto split: if_splits list.splits)

lemma slash_join_hd: "slash_join (c # cs) = x # xs \<Longrightarrow> c = '''' \<or> hd c = x"
  by (cases c; cases cs) auto

text \<open>What stands before a name in a directory.\<close>

definition dir_prefix :: "string \<Rightarrow> string" where
  "dir_prefix dir = (if path_clean dir = ''.'' then '''' else if path_clean dir = ''/'' then ''/'' else path_clean dir @ ''/'')"

lemma join_in_dir:
  assumes "dir \<noteq> ''''" "CHR ''/'' \<notin> set name" "name \<noteq> ''''" "name \<noteq> ''.''" "name \<noteq> ''..''"
  shows "filepath_join [dir, name] = dir_prefix dir @ name"
proof -
  let ?r = "rooted dir"
  let ?cs = "clean_loop ?r [] (split_on CHR ''/'' dir)"
  have root: "rooted (dir @ ''/'' @ name) = ?r" using assms(1) by (simp add: rooted_def)
  have "clean_loop ?r [] (split_on CHR ''/'' (dir @ ''/'' @ name)) = ?cs @ [name]"
    using assms by (simp add: split_on_concat clean_loop_append split_on_no_sep)
  then have j: "filepath_join [dir, name] = (if ?r then ''/'' else '''') @ slash_join (?cs @ [name])"
    using assms(1,3) root by (simp add: filepath_join_def path_clean_def Let_def slash_join_snoc)
  have parts: "c \<noteq> '''' \<and> c \<noteq> ''.''" if "c \<in> set ?cs" for c
    using clean_loop_parts [OF that] by simp
  show ?thesis
  proof (cases "?cs = []")
    case True
    then show ?thesis using assms(1) j by (simp add: dir_prefix_def path_clean_def Let_def)
  next
    case False
    then have ne: "slash_join ?cs \<noteq> ''''" using parts by (auto simp: slash_join_nonempty)
    have hd: "?cs = hd ?cs # tl ?cs" "hd ?cs \<in> set ?cs" using False by auto
    have "slash_join (c # cs) = ''.'' \<Longrightarrow> c = '''' \<or> c = ''.''" for c cs
      by (cases cs) (auto simp: append_eq_Cons_conv)
    then have "slash_join ?cs \<noteq> ''.''" using hd parts by metis
    then have pc: "path_clean dir \<noteq> ''.''" using assms(1) ne by (auto simp: path_clean_def Let_def)
    have "CHR ''/'' \<notin> set (hd ?cs)"
      using clean_loop_set [OF hd(2)] by (auto dest: split_on_parts)
    then have "slash_join ?cs \<noteq> ''/''"
      using hd parts slash_join_hd [of "hd ?cs" "tl ?cs" "CHR ''/''" "[]"] by (metis list.set_sel(1))
    then have "path_clean dir \<noteq> ''/''" using assms(1) ne by (auto simp: path_clean_def Let_def)
    then show ?thesis using False assms(1) j pc ne by (simp add: dir_prefix_def path_clean_def Let_def slash_join_snoc)
  qed
qed

lemma instr_name_parts:
  assumes "instr_name_ok name"
  shows "CHR ''/'' \<notin> set name" "name \<noteq> ''''" "name \<noteq> ''.''" "name \<noteq> ''..''" "has_suffix name ''.md''"
proof -
  obtain r where r: "name = r @ ''.md''" "list_all instr_char r"
    using assms by (auto simp: instr_name_ok_def cut_suffix_Some split: option.splits)
  have "\<not> instr_char CHR ''/''" by (simp add: instr_char_def alphanumeric_def)
  then show "CHR ''/'' \<notin> set name" using r by (auto simp: list_all_iff)
  show "name \<noteq> ''''" "name \<noteq> ''.''" "name \<noteq> ''..''" "has_suffix name ''.md''"
    using r(1) by (auto simp: append_eq_Cons_conv suffix_def)
qed

text \<open>
  C19: The instruction routes serve their directory and nothing else: whatever name is asked for, a
  reply with content is the file of that name directly in the directory, with no separator in the
  name; the list is in the order of the names; and every listed name that the file route accepts is
  served with the content the listed title was taken from.
\<close>

theorem instructions_confined:
  assumes "jc_instructions_dir jc = dir" "handle_instructions_list jc readdir read = Replies 200 entries"
  shows "(\<forall>name data. handle_instruction jc name read = Replies 200 data \<longrightarrow>
      read (dir_prefix dir @ name) = Some data \<and> CHR ''/'' \<notin> set name \<and> has_suffix name ''.md'') \<and>
    sorted (map ie_name entries) \<and>
    (\<forall>e \<in> set entries. \<forall>data. instr_name_ok (ie_name e) \<longrightarrow> read (dir_prefix dir @ ie_name e) = Some data \<longrightarrow>
      handle_instruction jc (ie_name e) read = Replies 200 data \<and> ie_title e = title_of data (ie_name e))"
proof (intro conjI allI ballI impI)
  fix name data assume "handle_instruction jc name read = Replies 200 data"
  then have ok: "instr_name_ok name" "dir \<noteq> ''''" "read (filepath_join [dir, name]) = Some data"
    using assms(1) by (auto simp: handle_instruction_def not_found_def split: if_splits option.splits)
  show "read (dir_prefix dir @ name) = Some data" "CHR ''/'' \<notin> set name" "has_suffix name ''.md''"
    using ok(3) join_in_dir [OF ok(2) instr_name_parts(1-4) [OF ok(1)]] instr_name_parts [OF ok(1)] by simp_all
next
  show "sorted (map ie_name entries)"
    using assms(2) by (auto simp: handle_instructions_list_def Let_def)
next
  fix e data
  assume e: "e \<in> set entries" "instr_name_ok (ie_name e)" "read (dir_prefix dir @ ie_name e) = Some data"
  have dir: "dir \<noteq> ''''" and el: "e = list_entry_of jc read (ie_name e)"
    using e(1) assms by (auto simp: handle_instructions_list_def list_entry_of_def split: if_splits option.splits)
  have j: "filepath_join [dir, ie_name e] = dir_prefix dir @ ie_name e"
    by (rule join_in_dir [OF dir instr_name_parts(1-4) [OF e(2)]])
  show "handle_instruction jc (ie_name e) read = Replies 200 data"
    using e dir j assms(1) by (simp add: handle_instruction_def)
  show "ie_title e = title_of data (ie_name e)"
    by (subst el) (simp add: list_entry_of_def assms(1) j e(3))
qed

definition ex_docs :: "string \<Rightarrow> string option" where
  "ex_docs = [''/srv/docs/laptop.md'' \<mapsto> ''# Laptop'' @ nl @ ''text'', ''/srv/docs/.x.md'' \<mapsto> ''no title'']"

lemma ex_docs_list:
  "handle_instructions_list (ex_join\<lparr>jc_instructions_dir := ''/srv//docs/''\<rparr>)
     [''/srv//docs/'' \<mapsto> [(''laptop.md'', False), (''sub'', True), (''.x.md'', False)]] ex_docs =
   Replies 200 [\<lparr>ie_name = ''.x.md'', ie_title = ''.x.md''\<rparr>, \<lparr>ie_name = ''laptop.md'', ie_title = ''Laptop''\<rparr>]"
  by code_simp

theorem instructions_confined_witness:
  "handle_instruction (ex_join\<lparr>jc_instructions_dir := ''/srv//docs/''\<rparr>) ''laptop.md'' ex_docs =
     Replies 200 (''# Laptop'' @ nl @ ''text'') \<and>
   (\<forall>data. handle_instruction (ex_join\<lparr>jc_instructions_dir := ''/srv//docs/''\<rparr>) ''../x.md'' ex_docs \<noteq> Replies 200 data)"
proof -
  have pre: "dir_prefix ''/srv//docs/'' = ''/srv/docs/''" "instr_name_ok ''laptop.md''" by code_simp+
  have "jc_instructions_dir (ex_join\<lparr>jc_instructions_dir := ''/srv//docs/''\<rparr>) = ''/srv//docs/''" by simp
  note got = instructions_confined [OF this ex_docs_list, unfolded pre]
  have "ex_docs ''/srv/docs/laptop.md'' = Some (''# Laptop'' @ nl @ ''text'')" by (simp add: ex_docs_def)
  with conjunct2 [OF conjunct2 [OF got]] pre(2)
  have "handle_instruction (ex_join\<lparr>jc_instructions_dir := ''/srv//docs/''\<rparr>) ''laptop.md'' ex_docs =
      Replies 200 (''# Laptop'' @ nl @ ''text'')" by simp
  moreover have "CHR ''/'' \<in> set ''../x.md''" by simp
  ultimately show ?thesis using conjunct1 [OF got] by blast
qed

end
