(* ===== verification/Scrape.thy ===== *)
theory Scrape
  imports DeriveTrace
begin

text \<open>
  \<open>dashboard/backend/internal/scrape\<close>: one pass over a target's Prometheus exposition into the
  sample store.  The HTTP round trip and \<open>expfmt\<close>'s text parser are parameters; what the scraper does
  with their results is modelled with every branch.  The theorems say which sample a pass appends
  to which series, that no NaN ever enters a store, and that what is scraped is what a frame shows.
\<close>

section \<open>Targets and rules\<close>

record target =
  tg_as :: int
  tg_service :: string
  tg_url :: string

definition port_br :: int where "port_br = 30442"
definition port_cs :: int where "port_cs = 30452"
definition port_sd :: int where "port_sd = 30455"

definition metrics_url :: "string \<Rightarrow> int \<Rightarrow> string" where
  "metrics_url host port = ''http://'' @ host @ '':'' @ itoa port @ ''/metrics''"

definition scrape_targets :: "graph \<Rightarrow> target list" where
  "scrape_targets g = concat (map (\<lambda>a.
     [\<lparr>tg_as = a_num a, tg_service = ''br'', tg_url = metrics_url (a_mgmt a) port_br\<rparr>,
      \<lparr>tg_as = a_num a, tg_service = ''cs'', tg_url = metrics_url (a_mgmt a) port_cs\<rparr>,
      \<lparr>tg_as = a_num a, tg_service = ''sd'', tg_url = metrics_url (a_mgmt a) port_sd\<rparr>]) (g_ases g))"

datatype metric_kind = KindGauge | KindCounter

record scrape_rule =
  ru_family :: string
  ru_key :: string
  ru_label :: string
  ru_kind :: metric_kind
  ru_scale :: bool

definition allowlist :: "scrape_rule list" where
  "allowlist = [
     \<lparr>ru_family = ''router_bfd_rtt_estimate_seconds'', ru_key = ''rtt'', ru_label = ''interface'', ru_kind = KindGauge, ru_scale = True\<rparr>,
     \<lparr>ru_family = ''router_input_bytes_total'', ru_key = ''input_bytes'', ru_label = ''interface'', ru_kind = KindCounter, ru_scale = False\<rparr>,
     \<lparr>ru_family = ''router_output_bytes_total'', ru_key = ''output_bytes'', ru_label = ''interface'', ru_kind = KindCounter, ru_scale = False\<rparr>,
     \<lparr>ru_family = ''router_input_pkts_total'', ru_key = ''input_pkts'', ru_label = ''interface'', ru_kind = KindCounter, ru_scale = False\<rparr>,
     \<lparr>ru_family = ''router_output_pkts_total'', ru_key = ''output_pkts'', ru_label = ''interface'', ru_kind = KindCounter, ru_scale = False\<rparr>,
     \<lparr>ru_family = ''router_dropped_pkts_total'', ru_key = ''dropped_pkts'', ru_label = ''interface'', ru_kind = KindCounter, ru_scale = False\<rparr>,
     \<lparr>ru_family = ''router_interface_up'', ru_key = ''up'', ru_label = ''interface'', ru_kind = KindGauge, ru_scale = False\<rparr>,
     \<lparr>ru_family = ''control_beaconing_received_beacons_total'', ru_key = ''beacons_recv'', ru_label = ''ingress_interface'', ru_kind = KindCounter, ru_scale = False\<rparr>,
     \<lparr>ru_family = ''control_beaconing_propagated_beacons_total'', ru_key = ''beacons_prop'', ru_label = ''egress_interface'', ru_kind = KindCounter, ru_scale = False\<rparr>]"

section \<open>Metrics\<close>

text \<open>A \<open>dto.Metric\<close>: its labels, and whichever of the two value messages it carries.\<close>

record metric =
  m_labels :: "(string \<times> string) list"
  m_gauge :: "f64 option"
  m_counter :: "f64 option"

type_synonym families = "string \<rightharpoonup> metric list"

fun label_value :: "(string \<times> string) list \<Rightarrow> string \<Rightarrow> string" where
  "label_value [] name = ''''"
| "label_value ((n, v) # lps) name = (if n = name then v else label_value lps name)"

text \<open>The generated getters return 0 when the message is absent.\<close>

fun metric_value :: "metric \<Rightarrow> metric_kind \<Rightarrow> f64" where
  "metric_value m KindGauge = (case m_gauge m of Some v \<Rightarrow> v | None \<Rightarrow> Fin 0)"
| "metric_value m KindCounter = (case m_counter m of Some v \<Rightarrow> v | None \<Rightarrow> Fin 0)"

definition non_finite :: "f64 \<Rightarrow> bool" where
  "non_finite v \<longleftrightarrow> v = NaN \<or> v = PInf \<or> v = NInf"

section \<open>One pass\<close>

definition health_key :: "target \<Rightarrow> string" where
  "health_key t = itoa (tg_as t) @ ''/'' @ tg_service t @ ''/_up/''"

definition sample_key :: "target \<Rightarrow> string \<Rightarrow> string \<Rightarrow> string" where
  "sample_key t keyPart ifID = itoa (tg_as t) @ ''/'' @ tg_service t @ ''/'' @ keyPart @ ''/'' @ ifID"

text \<open>The inner loop over a family's metrics: \<open>sums[ifID] += v\<close>.\<close>

definition add_reading :: "scrape_rule \<Rightarrow> (string, f64) gomap \<Rightarrow> metric \<Rightarrow> (string, f64) gomap" where
  "add_reading rl acc m = (let ifID = label_value (m_labels m) (ru_label rl) in
     if ifID = '''' then acc
     else let v = metric_value m (ru_kind rl) in
       if non_finite v then acc
       else put_key ifID ((case map_of acc ifID of None \<Rightarrow> Fin 0 | Some s \<Rightarrow> s) + v) acc)"

definition scaled :: "scrape_rule \<Rightarrow> f64 \<Rightarrow> f64" where
  "scaled rl v = (if ru_scale rl then v * Fin 1000 else v)"

definition scrape_family :: "target \<Rightarrow> int \<Rightarrow> families \<Rightarrow> store \<Rightarrow> scrape_rule \<Rightarrow> store" where
  "scrape_family t now fams st rl = (case fams (ru_family rl) of
     None \<Rightarrow> st
   | Some ms \<Rightarrow> foldl (\<lambda>st (ifID, v). store_put st (sample_key t (ru_key rl) ifID) now (scaled rl v))
       st (foldl (add_reading rl) [] ms))"

definition scrape_target :: "int \<Rightarrow> target \<Rightarrow> string + families \<Rightarrow> store \<Rightarrow> store" where
  "scrape_target now t fetched st = (case fetched of
     Inl err \<Rightarrow> store_put st (health_key t) now (Fin 0)
   | Inr fams \<Rightarrow> store_put (foldl (scrape_family t now fams) st allowlist) (health_key t) now (Fin 1))"

text \<open>\<open>fetch\<close> around the HTTP client's reply (an error, or a status and a body) and the parser.\<close>

definition fetch :: "(string \<Rightarrow> string + families) \<Rightarrow> string \<Rightarrow> string + (int \<times> string) \<Rightarrow> string + families" where
  "fetch parse url reply = (case reply of
     Inl err \<Rightarrow> Inl err
   | Inr (status, body) \<Rightarrow>
       if status \<noteq> 200 then Inl (''scrape '' @ url @ '': status '' @ itoa status) else parse body)"

text \<open>A run of passes, in the order their puts take the store's lock.\<close>

definition scrape_run :: "store \<Rightarrow> (int \<times> target \<times> (string + families)) list \<Rightarrow> store" where
  "scrape_run st passes = foldl (\<lambda>st (now, t, fetched). scrape_target now t fetched st) st passes"

section \<open>What a pass appends\<close>

text \<open>The finite readings of one interface, in exposition order, and the value stored for it.\<close>

definition readings :: "scrape_rule \<Rightarrow> metric list \<Rightarrow> string \<Rightarrow> f64 list" where
  "readings rl ms i = filter (\<lambda>v. \<not> non_finite v)
     (map (\<lambda>m. metric_value m (ru_kind rl)) (filter (\<lambda>m. label_value (m_labels m) (ru_label rl) = i) ms))"

definition scraped :: "scrape_rule \<Rightarrow> families \<Rightarrow> string \<Rightarrow> f64 option" where
  "scraped rl fams i = (case fams (ru_family rl) of
     None \<Rightarrow> None
   | Some ms \<Rightarrow> if i = '''' \<or> readings rl ms i = [] then None
       else Some (scaled rl (foldl (+) (Fin 0) (readings rl ms i))))"

lemma wf_family_sums: "wf_map (foldl (add_reading rl) [] ms)"
proof (induction ms rule: rev_induct)
  case (snoc m ms)
  then show ?case by (auto simp: add_reading_def Let_def)
qed simp

lemma family_sums:
  "map_of (foldl (add_reading rl) [] ms) i =
     (if i = '''' \<or> readings rl ms i = [] then None else Some (foldl (+) (Fin 0) (readings rl ms i)))"
proof (induction ms rule: rev_induct)
  case (snoc m ms)
  then show ?case by (auto simp: add_reading_def Let_def readings_def)
qed (simp add: readings_def)

text \<open>A pass as the list of its puts.\<close>

definition family_puts :: "target \<Rightarrow> int \<Rightarrow> families \<Rightarrow> scrape_rule \<Rightarrow> (string \<times> sample) list" where
  "family_puts t now fams rl = (case fams (ru_family rl) of
     None \<Rightarrow> []
   | Some ms \<Rightarrow> map (\<lambda>(i, v). (sample_key t (ru_key rl) i, \<lparr>s_t = now, s_v = scaled rl v\<rparr>))
       (foldl (add_reading rl) [] ms))"

definition pass_puts :: "int \<Rightarrow> target \<Rightarrow> string + families \<Rightarrow> (string \<times> sample) list" where
  "pass_puts now t fetched = (case fetched of
     Inl err \<Rightarrow> [(health_key t, \<lparr>s_t = now, s_v = Fin 0\<rparr>)]
   | Inr fams \<Rightarrow> concat (map (family_puts t now fams) allowlist) @ [(health_key t, \<lparr>s_t = now, s_v = Fin 1\<rparr>)])"

lemma puts_all_simps [simp]:
  "puts_all st [] = st"
  "puts_all st ((k, x) # kvs) = puts_all (store_put st k (s_t x) (s_v x)) kvs"
  "puts_all st (xs @ ys) = puts_all (puts_all st xs) ys"
  by (simp_all add: puts_all_def)

lemma scrape_family_puts: "scrape_family t now fams st rl = puts_all st (family_puts t now fams rl)"
proof -
  have "foldl (\<lambda>st (i, v). store_put st (sample_key t (ru_key rl) i) now (scaled rl v)) st ivs =
      puts_all st (map (\<lambda>(i, v). (sample_key t (ru_key rl) i, \<lparr>s_t = now, s_v = scaled rl v\<rparr>)) ivs)" for ivs
    by (induction ivs arbitrary: st) auto
  then show ?thesis
    by (simp add: scrape_family_def family_puts_def split: option.splits)
qed

lemma scrape_target_puts: "scrape_target now t fetched st = puts_all st (pass_puts now t fetched)"
proof -
  have "foldl (scrape_family t now fams) st rls = puts_all st (concat (map (family_puts t now fams) rls))" for fams rls
    by (induction rls arbitrary: st) (simp_all add: scrape_family_puts)
  then show ?thesis
    by (simp add: scrape_target_def pass_puts_def split: sum.splits)
qed

lemma scrape_run_puts:
  "scrape_run st passes = puts_all st (concat (map (\<lambda>(now, t, fetched). pass_puts now t fetched) passes))"
  by (induction passes arbitrary: st) (auto simp: scrape_run_def scrape_target_puts)

text \<open>The keys of a target's series are distinct from each other and from its health key.\<close>

lemma allowlist_key: "rl \<in> set allowlist \<Longrightarrow> CHR ''/'' \<notin> set (ru_key rl) \<and> ru_key rl \<noteq> ''_up''"
  by (auto simp: allowlist_def)

lemma allowlist_distinct: "distinct (map ru_key allowlist)"
  by (simp add: allowlist_def)

lemma allowlist_inj: "rl \<in> set allowlist \<Longrightarrow> rl' \<in> set allowlist \<Longrightarrow> ru_key rl = ru_key rl' \<Longrightarrow> rl = rl'"
  using allowlist_distinct by (simp add: distinct_map inj_on_def)

lemma sample_key_inj:
  assumes "rl \<in> set allowlist" "rl' \<in> set allowlist"
  shows "sample_key t (ru_key rl) i = sample_key t (ru_key rl') i' \<longleftrightarrow> rl = rl' \<and> i = i'"
  using append_sep_inj [of "CHR ''/''" "ru_key rl" "ru_key rl'" i i'] allowlist_key assms allowlist_inj
  by (auto simp: sample_key_def)

lemma sample_health_key:
  assumes "rl \<in> set allowlist"
  shows "sample_key t (ru_key rl) i \<noteq> health_key t"
  using append_sep_inj [of "CHR ''/''" "ru_key rl" "''_up''" i "''''"] allowlist_key [OF assms]
  by (auto simp: sample_key_def health_key_def)

lemma family_puts_filter:
  assumes "rl \<in> set allowlist" "rl' \<in> set allowlist"
  shows "map snd (filter (\<lambda>p. fst p = sample_key t (ru_key rl) i) (family_puts t now fams rl')) =
    (if rl' = rl then (case scraped rl fams i of None \<Rightarrow> [] | Some v \<Rightarrow> [\<lparr>s_t = now, s_v = v\<rparr>]) else [])"
proof (cases "fams (ru_family rl')")
  case None
  then show ?thesis by (auto simp: family_puts_def scraped_def)
next
  case (Some ms)
  let ?m = "foldl (add_reading rl') [] ms"
  have "filter (\<lambda>p. fst p = sample_key t (ru_key rl) i) (family_puts t now fams rl') =
      map (\<lambda>(i, v). (sample_key t (ru_key rl') i, \<lparr>s_t = now, s_v = scaled rl' v\<rparr>))
        (filter (\<lambda>p. rl' = rl \<and> fst p = i) ?m)"
    using Some sample_key_inj [OF assms(2,1)]
    by (auto simp: family_puts_def filter_map o_def split_def intro!: arg_cong2 [where f = map] filter_cong)
  then show ?thesis
    using Some by (auto simp: filter_wf_map [OF wf_family_sums] family_sums scraped_def)
qed

lemma concat_single:
  "distinct xs \<Longrightarrow> x \<in> set xs \<Longrightarrow> concat (map (\<lambda>y. if y = x then f y else []) xs) = f x"
  by (induction xs) (auto simp: concat_eq_Nil_conv)

lemma pass_puts_sample:
  assumes "rl \<in> set allowlist"
  shows "map snd (filter (\<lambda>p. fst p = sample_key t (ru_key rl) i) (pass_puts now t (Inr fams))) =
    (case scraped rl fams i of None \<Rightarrow> [] | Some v \<Rightarrow> [\<lparr>s_t = now, s_v = v\<rparr>])"
proof -
  let ?f = "\<lambda>rl. case scraped rl fams i of None \<Rightarrow> [] | Some v \<Rightarrow> [\<lparr>s_t = now, s_v = v\<rparr>]"
  have "map snd (filter (\<lambda>p. fst p = sample_key t (ru_key rl) i) (concat (map (family_puts t now fams) rls))) =
      concat (map (\<lambda>rl'. if rl' = rl then ?f rl' else []) rls)" if "set rls \<subseteq> set allowlist" for rls
    using that by (induction rls) (simp_all add: family_puts_filter [OF assms])
  moreover have "distinct allowlist" using allowlist_distinct by (simp add: distinct_map)
  ultimately show ?thesis
    using sample_health_key [OF assms, of t i] concat_single [OF _ assms]
    by (simp add: pass_puts_def)
qed

lemma pass_puts_keys:
  "p \<in> set (pass_puts now t fetched) \<Longrightarrow>
     fst p = health_key t \<or> (\<exists>fams. fetched = Inr fams \<and> (\<exists>rl\<in>set allowlist. \<exists>i. fst p = sample_key t (ru_key rl) i))"
  by (cases fetched) (fastforce simp: pass_puts_def family_puts_def split: option.splits)+

lemma pass_puts_health:
  "map snd (filter (\<lambda>p. fst p = health_key t) (pass_puts now t fetched)) =
     [\<lparr>s_t = now, s_v = Fin (if \<exists>fams. fetched = Inr fams then 1 else 0)\<rparr>]"
proof -
  have "filter (\<lambda>p. fst p = health_key t) (family_puts t now fams rl) = []" if "rl \<in> set allowlist" for fams rl
    using sample_health_key [OF that] by (auto simp: filter_empty_conv family_puts_def split: option.splits)
  then have "filter (\<lambda>p. fst p = health_key t) (concat (map (family_puts t now fams) allowlist)) = []" for fams
    by (simp add: filter_empty_conv)
  then show ?thesis by (simp add: pass_puts_def split: sum.splits)
qed

lemma scrape_hist:
  assumes "store_inv st"
  shows "store_hist (scrape_target now t fetched st) k = take_last (nat (st_cap st))
    (store_hist st k @ map snd (filter (\<lambda>p. fst p = k) (pass_puts now t fetched)))"
  using assms by (simp add: scrape_target_puts puts_all_eq ring_store.hist_puts)

lemma store_inv_scrape [simp, inv_intros]: "store_inv st \<Longrightarrow> store_inv (scrape_target now t fetched st)"
  by (simp add: scrape_target_puts puts_all_eq ring_store.inv_puts)

lemma scrape_last_health:
  assumes "store_inv st"
  shows "store_last (scrape_target now t fetched st) (health_key t) =
    Some \<lparr>s_t = now, s_v = Fin (if \<exists>fams. fetched = Inr fams then 1 else 0)\<rparr>"
  using assms by (simp add: store_last_hist scrape_hist pass_puts_health) (simp add: store_inv_def)

lemma scrape_last_sample:
  assumes "store_inv st" "rl \<in> set allowlist" "scraped rl fams i = Some v"
  shows "store_last (scrape_target now t (Inr fams) st) (sample_key t (ru_key rl) i) = Some \<lparr>s_t = now, s_v = v\<rparr>"
  using assms by (simp add: store_last_hist scrape_hist pass_puts_sample) (simp add: store_inv_def)

text \<open>
  C27: A scrape pass appends, per allowlisted family and interface, one sample: the sum of the finite
  readings labelled with that interface, in milliseconds for the RTT gauge, provided there is at
  least one such reading; it appends 1 to the target's health series and leaves every other series
  alone.  A pass whose fetch failed appends 0 to the health series and nothing else.
\<close>

theorem scrape_appends:
  assumes "store_inv st" "st' = scrape_target now t fetched st"
    and "app = (\<lambda>k vs. take_last (nat (st_cap st)) (store_hist st k @ map (\<lambda>v. \<lparr>s_t = now, s_v = v\<rparr>) vs))"
  shows "(\<forall>fams. fetched = Inr fams \<longrightarrow>
      (\<forall>rl\<in>set allowlist. \<forall>i. store_hist st' (sample_key t (ru_key rl) i) =
        app (sample_key t (ru_key rl) i) (case scraped rl fams i of None \<Rightarrow> [] | Some v \<Rightarrow> [v])) \<and>
      store_hist st' (health_key t) = app (health_key t) [Fin 1] \<and>
      (\<forall>k. k \<noteq> health_key t \<and> (\<forall>rl\<in>set allowlist. \<forall>i. k \<noteq> sample_key t (ru_key rl) i) \<longrightarrow>
        store_hist st' k = store_hist st k)) \<and>
    (\<forall>err. fetched = Inl err \<longrightarrow>
      (\<forall>k. store_hist st' k = (if k = health_key t then app k [Fin 0] else store_hist st k)))"
proof (intro conjI allI impI ballI)
  fix fams rl i
  assume "fetched = Inr fams" "rl \<in> set allowlist"
  then show "store_hist st' (sample_key t (ru_key rl) i) =
      app (sample_key t (ru_key rl) i) (case scraped rl fams i of None \<Rightarrow> [] | Some v \<Rightarrow> [v])"
    using assms pass_puts_sample [of rl t i now fams] by (simp add: scrape_hist split: option.splits)
next
  fix fams assume "fetched = Inr fams"
  then show "store_hist st' (health_key t) = app (health_key t) [Fin 1]"
    using assms pass_puts_health [of t now fetched] by (simp add: scrape_hist)
next
  fix fams k
  assume "fetched = Inr fams"
    and k: "k \<noteq> health_key t \<and> (\<forall>rl\<in>set allowlist. \<forall>i. k \<noteq> sample_key t (ru_key rl) i)"
  have "filter (\<lambda>p. fst p = k) (pass_puts now t fetched) = []"
    unfolding filter_empty_conv using k by (metis pass_puts_keys)
  then show "store_hist st' k = store_hist st k"
    using assms by (simp add: scrape_hist store_hist_le)
next
  fix err k
  assume f: "fetched = Inl err"
  then show "store_hist st' k = (if k = health_key t then app k [Fin 0] else store_hist st k)"
    using assms by (auto simp: scrape_hist pass_puts_def store_hist_le)
qed

section \<open>What a frame shows\<close>

lemma derive_links_reads:
  "vm \<in> set (snd (derive_links d st n ls)) \<Longrightarrow> \<exists>l\<in>set ls. v_id vm = l_id l \<and>
     v_rtt_a vm = last_val st (rtt_key (l_a l)) \<and> v_rtt_b vm = last_val st (rtt_key (l_b l)) \<and>
     v_stale vm = (\<not> service_up st (e_as (l_a l)) ''br'' \<or> \<not> service_up st (e_as (l_b l)) ''br'')"
proof (induction ls arbitrary: d)
  case (Cons l ls)
  let ?vm = "snd (derive_link d st n l)"
  have "v_id ?vm = l_id l \<and> v_rtt_a ?vm = last_val st (rtt_key (l_a l)) \<and> v_rtt_b ?vm = last_val st (rtt_key (l_b l)) \<and>
      v_stale ?vm = (\<not> service_up st (e_as (l_a l)) ''br'' \<or> \<not> service_up st (e_as (l_b l)) ''br'')"
    by (simp add: derive_link_def split_def Let_def)
  with Cons show ?case by (auto simp: split_def Let_def)
qed simp

lemma frame_reads:
  assumes "distinct (map l_id (g_links (d_g d)))" "l \<in> set (g_links (d_g d))"
    and "vm \<in> set (f_links (snd (frame d st now nu)))" "v_id vm = l_id l"
  shows "v_rtt_a vm = last_val st (rtt_key (l_a l))" "v_rtt_b vm = last_val st (rtt_key (l_b l))"
    and "v_stale vm = (\<not> service_up st (e_as (l_a l)) ''br'' \<or> \<not> service_up st (e_as (l_b l)) ''br'')"
proof -
  obtain l' where "l' \<in> set (g_links (d_g d))" "v_id vm = l_id l'"
    "v_rtt_a vm = last_val st (rtt_key (l_a l')) \<and> v_rtt_b vm = last_val st (rtt_key (l_b l')) \<and>
     v_stale vm = (\<not> service_up st (e_as (l_a l')) ''br'' \<or> \<not> service_up st (e_as (l_b l')) ''br'')"
    using assms(3) derive_links_reads [of vm d st nu "g_links (d_g d)"]
    by (auto simp: frame_def split_def Let_def)
  moreover have "l' = l"
    using calculation(1,2) assms(1,2,4) by (auto simp: distinct_map dest: inj_onD)
  ultimately show "v_rtt_a vm = last_val st (rtt_key (l_a l))" "v_rtt_b vm = last_val st (rtt_key (l_b l))"
    "v_stale vm = (\<not> service_up st (e_as (l_a l)) ''br'' \<or> \<not> service_up st (e_as (l_b l)) ''br'')" by auto
qed

definition rtt_rule :: scrape_rule where
  "rtt_rule = hd allowlist"

lemma rtt_rule: "rtt_rule \<in> set allowlist" "ru_key rtt_rule = ''rtt''"
  by (simp_all add: rtt_rule_def allowlist_def)

lemma br_keys:
  assumes "t = \<lparr>tg_as = e_as e, tg_service = ''br'', tg_url = u\<rparr>"
  shows "sample_key t (ru_key rtt_rule) (e_ifid e) = rtt_key e" "health_key t = service_key (e_as e) ''br''"
  using assms by (simp_all add: sample_key_def rtt_key_def health_key_def service_key_def rtt_rule)

text \<open>
  What the scraper writes is what the next frame shows.  For a side of a link, after a pass over
  its AS's border router: when the fetch failed the link is stale in the frame, and when the
  exposition has finite RTT readings for the side's interface the frame shows their sum in
  milliseconds as that side's RTT.
\<close>

theorem scrape_shown:
  assumes "store_inv st" "distinct (map l_id (g_links (d_g d)))" "l \<in> set (g_links (d_g d))"
    and "e = l_a l \<or> e = l_b l"
    and "t = \<lparr>tg_as = e_as e, tg_service = ''br'', tg_url = u\<rparr>"
    and "vm \<in> set (f_links (snd (frame d (scrape_target ts t fetched st) now nu)))" "v_id vm = l_id l"
  shows "(\<forall>err. fetched = Inl err \<longrightarrow> v_stale vm) \<and>
    (\<forall>fams v. fetched = Inr fams \<and> scraped rtt_rule fams (e_ifid e) = Some v \<longrightarrow>
       (if e = l_a l then v_rtt_a vm = v else v_rtt_b vm = v))"
proof (intro conjI allI impI)
  note shown = frame_reads [OF assms(2,3,6,7)]
  fix err assume "fetched = Inl err"
  then have "\<not> service_up (scrape_target ts t fetched st) (e_as e) ''br''"
    using scrape_last_health [OF assms(1), of ts t fetched] br_keys(2) [OF assms(5)]
    by (simp add: service_up_def)
  then show "v_stale vm" using shown assms(4) by auto
next
  note shown = frame_reads [OF assms(2,3,6,7)]
  fix fams v assume "fetched = Inr fams \<and> scraped rtt_rule fams (e_ifid e) = Some v"
  then have "last_val (scrape_target ts t fetched st) (rtt_key e) = v"
    using scrape_last_sample [OF assms(1) rtt_rule(1), of fams "e_ifid e" v ts t] br_keys(1) [OF assms(5)]
    by (simp add: last_val_def)
  then show "if e = l_a l then v_rtt_a vm = v else v_rtt_b vm = v"
    using shown assms(4) by auto
qed

section \<open>Finiteness\<close>

lemma finite_reading: "v \<in> set (readings rl ms i) \<Longrightarrow> \<exists>q. v = Fin q"
  by (cases v) (auto simp: readings_def non_finite_def)

lemma add_Fin_not_NaN: "x \<noteq> NaN \<Longrightarrow> x + Fin b \<noteq> NaN"
  by (cases x) (simp_all add: f64_defs)

lemma sum_not_NaN: "a \<noteq> NaN \<Longrightarrow> \<forall>v\<in>set vs. \<exists>q. v = Fin q \<Longrightarrow> foldl (+) a vs \<noteq> NaN"
  by (induction vs arbitrary: a) (auto simp: add_Fin_not_NaN)

lemma scaled_not_NaN: "v \<noteq> NaN \<Longrightarrow> scaled rl v \<noteq> NaN"
  by (cases v) (simp_all add: scaled_def f64_defs inf_of_sign_def)

lemma rnd_int_powi_le:
  assumes "\<bar>x\<bar> \<le> of_int m * 2 powi k" "0 \<le> m" "m \<le> 2 ^ 53" "- 1074 \<le> k"
  shows "\<bar>rnd x\<bar> \<le> of_int m * 2 powi k"
proof -
  have r: "rnd (of_int m * 2 powi k) = of_int m * 2 powi k" using assms by (intro rnd_repr) simp_all
  have "rnd x \<le> rnd (of_int m * 2 powi k)" "rnd (- (of_int m * 2 powi k)) \<le> rnd x"
    using assms(1) by (intro rnd_mono; linarith)+
  then show ?thesis using r by (simp add: rnd_minus)
qed

lemma Fin_le_powi:
  assumes "\<bar>x\<bar> \<le> of_int m * 2 powi k" "0 \<le> m" "m < 2 ^ 53" "- 1074 \<le> k" "k \<le> 971"
  shows "f64_of_rat x = Fin (rnd x)"
proof (rule f64_of_rat_small)
  have "(of_int m :: rat) \<le> 2 ^ 53 - 1" using assms(3)
  proof -
    have "m \<le> 2 ^ 53 - 1" using assms(3) by simp
    then have "(of_int m :: rat) \<le> of_int (2 ^ 53 - 1)" by (simp only: of_int_le_iff)
    then show ?thesis by simp
  qed
  moreover have "(2::rat) powi k \<le> 2 powi 971" using assms(5) by (simp only: powi_le_iff)
  ultimately have "of_int m * 2 powi k \<le> (2 ^ 53 - 1) * (2::rat) powi 971"
    using assms(2) by (intro mult_mono) simp_all
  then show "\<bar>x\<bar> \<le> f64_max" using assms(1) by (simp add: f64_max_powi)
qed

lemma sum_finite:
  assumes "\<forall>v\<in>set vs. \<exists>q. v = Fin q \<and> \<bar>q\<bar> \<le> 2 powi 900"
    and "\<bar>a\<bar> \<le> of_int n * 2 powi 900" "0 \<le> n" "n + int (length vs) < 2 ^ 53"
  shows "\<exists>q. foldl (+) (Fin a) vs = Fin q \<and> \<bar>q\<bar> \<le> of_int (n + int (length vs)) * 2 powi 900"
  using assms
proof (induction vs arbitrary: a n)
  case (Cons v vs)
  obtain q where q: "v = Fin q" "\<bar>q\<bar> \<le> 2 powi 900" using Cons.prems(1) by auto
  have le: "\<bar>a + q\<bar> \<le> of_int (n + 1) * 2 powi 900"
    using Cons.prems(2) q(2) by (simp add: algebra_simps)
  have small: "0 \<le> n + 1" "n + 1 < 2 ^ 53" using Cons.prems(3,4) by simp_all
  have "Fin a + v = Fin (rnd (a + q))"
    using Fin_le_powi [OF le] small q(1) by simp
  moreover have "\<bar>rnd (a + q)\<bar> \<le> of_int (n + 1) * 2 powi 900"
    using le small by (intro rnd_int_powi_le) simp_all
  ultimately show ?case
    using Cons.IH [of "rnd (a + q)" "n + 1"] Cons.prems by (simp add: algebra_simps)
qed auto

lemma scaled_finite:
  assumes "\<bar>q\<bar> \<le> of_int n * 2 powi 900" "0 \<le> n" "n < 2 ^ 43"
  shows "\<exists>q'. scaled rl (Fin q) = Fin q'"
proof -
  have le: "\<bar>q * 1000\<bar> \<le> of_int (n * 1000) * 2 powi 900"
    using mult_right_mono [OF assms(1), of 1000] by (simp only: abs_mult of_int_mult) (simp add: mult_ac)
  have "f64_of_rat (q * 1000) = Fin (rnd (q * 1000))"
    by (rule Fin_le_powi [OF le]) (use assms(2,3) in simp_all)
  then show ?thesis by (simp add: scaled_def)
qed

text \<open>
  An exposition of moderate size: fewer than \<open>2^43\<close> metrics per family, and finite readings of at most
  \<open>2^900\<close>.
\<close>

definition moderate :: "string + families \<Rightarrow> bool" where
  "moderate fetched \<longleftrightarrow> (case fetched of Inl _ \<Rightarrow> True
   | Inr fams \<Rightarrow> (\<forall>rl\<in>set allowlist. case fams (ru_family rl) of None \<Rightarrow> True
     | Some ms \<Rightarrow> int (length ms) < 2 ^ 43 \<and>
        (\<forall>m\<in>set ms. case metric_value m (ru_kind rl) of Fin q \<Rightarrow> \<bar>q\<bar> \<le> 2 ^ 900 | _ \<Rightarrow> True)))"

lemma reading_finite:
  assumes "rl \<in> set allowlist" "moderate (Inr fams)" "fams (ru_family rl) = Some ms"
  shows "\<exists>q. scaled rl (foldl (+) (Fin 0) (readings rl ms i)) = Fin q"
proof -
  have ms: "int (length ms) < 2 ^ 43"
    "\<forall>m\<in>set ms. case metric_value m (ru_kind rl) of Fin q \<Rightarrow> \<bar>q\<bar> \<le> 2 ^ 900 | _ \<Rightarrow> True"
    using assms by (auto simp: moderate_def)
  have vs: "\<forall>v\<in>set (readings rl ms i). \<exists>q. v = Fin q \<and> \<bar>q\<bar> \<le> 2 powi 900"
  proof
    fix v assume v: "v \<in> set (readings rl ms i)"
    then obtain m where m: "m \<in> set ms" "v = metric_value m (ru_kind rl)" by (auto simp: readings_def)
    obtain q where q: "v = Fin q" using finite_reading [OF v] by blast
    have "\<bar>q\<bar> \<le> 2 ^ 900" using bspec [OF ms(2) m(1)] m(2) q by (simp split: f64.splits)
    then show "\<exists>q. v = Fin q \<and> \<bar>q\<bar> \<le> 2 powi 900" using q by (simp add: power_int_def)
  qed
  have len: "int (length (readings rl ms i)) \<le> int (length ms)"
    by (auto simp: readings_def intro: order_trans [OF length_filter_le])
  obtain q where q: "foldl (+) (Fin 0) (readings rl ms i) = Fin q"
    "\<bar>q\<bar> \<le> of_int (0 + int (length (readings rl ms i))) * 2 powi 900"
    using sum_finite [OF vs, of 0 0] len ms(1) by auto
  show ?thesis
    unfolding q(1) by (rule scaled_finite [OF q(2)]) (use len ms(1) in simp_all)
qed

lemma family_put_value:
  assumes "p \<in> set (family_puts t now fams rl)"
  shows "\<exists>ms i. fams (ru_family rl) = Some ms \<and> s_v (snd p) = scaled rl (foldl (+) (Fin 0) (readings rl ms i))"
proof -
  obtain ms i v where f: "fams (ru_family rl) = Some ms" "(i, v) \<in> set (foldl (add_reading rl) [] ms)"
    "s_v (snd p) = scaled rl v"
    using assms by (cases "fams (ru_family rl)") (fastforce simp: family_puts_def)+
  have "map_of (foldl (add_reading rl) [] ms) i = Some v"
    using wf_family_sums f(2) by (rule map_of_is_SomeI)
  then have "v = foldl (+) (Fin 0) (readings rl ms i)" by (simp add: family_sums split: if_splits)
  with f(1,3) show ?thesis by blast
qed

lemma pass_puts_values:
  assumes "p \<in> set (pass_puts now t fetched)"
  shows "s_v (snd p) \<noteq> NaN" "moderate fetched \<Longrightarrow> \<exists>q. s_v (snd p) = Fin q"
proof -
  have val: "(\<exists>q. s_v (snd p) = Fin q) \<or> (\<exists>fams rl ms i. fetched = Inr fams \<and> rl \<in> set allowlist \<and>
      fams (ru_family rl) = Some ms \<and> s_v (snd p) = scaled rl (foldl (+) (Fin 0) (readings rl ms i)))"
    using assms family_put_value [of p t now]
    by (auto simp: pass_puts_def split: sum.splits)
  have nn: "scaled rl (foldl (+) (Fin 0) (readings rl ms i)) \<noteq> NaN" for rl ms i
    by (intro scaled_not_NaN sum_not_NaN ballI) (auto dest: finite_reading)
  show "s_v (snd p) \<noteq> NaN" using val nn by auto
  show "\<exists>q. s_v (snd p) = Fin q" if "moderate fetched" using val that reading_finite by fastforce
qed

text \<open>
  No NaN ever enters the store: in whatever order and with whatever results targets are scraped,
  every sample of a store that only the scraper writes is a number, and finite while the expositions
  are of moderate size (sums of up to \<open>2^43\<close> readings of up to \<open>2^900\<close>).
\<close>

theorem scrape_never_nan:
  assumes "x \<in> set (store_hist (scrape_run (store_new c) passes) k)"
  shows "s_v x \<noteq> NaN \<and> ((\<forall>(now, t, fetched)\<in>set passes. moderate fetched) \<longrightarrow> (\<exists>q. s_v x = Fin q))"
proof -
  have "x \<in> snd ` set (concat (map (\<lambda>(now, t, fetched). pass_puts now t fetched) passes))"
    using assms set_drop_subset by (fastforce simp: scrape_run_puts puts_all_hist take_last_def)
  then obtain now t fetched p where p: "(now, t, fetched) \<in> set passes" "p \<in> set (pass_puts now t fetched)" "x = snd p"
    by auto
  from pass_puts_values [OF p(2)] p(1,3) show ?thesis by auto
qed

subsection \<open>A concrete pass\<close>

definition ex_target :: target where
  "ex_target = \<lparr>tg_as = 150, tg_service = ''br'', tg_url = ''http://10.0.0.1:30442/metrics''\<rparr>"

definition ex_gauge :: "f64 \<Rightarrow> metric" where
  "ex_gauge v = \<lparr>m_labels = [(''interface'', ''1'')], m_gauge = Some v, m_counter = None\<rparr>"

definition ex_fams :: "metric list \<Rightarrow> families" where
  "ex_fams ms = [''router_bfd_rtt_estimate_seconds'' \<mapsto> ms]"

definition ex_ms :: "metric list" where
  "ex_ms = [ex_gauge NaN, ex_gauge (Fin (1/64)), ex_gauge (Fin (1/32))]"

lemma ex_scraped: "scraped rtt_rule (ex_fams ex_ms) ''1'' = Some (Fin (375/8))"
  by code_simp

theorem scrape_appends_witness:
  "store_hist (scrape_target 9 ex_target (Inr (ex_fams ex_ms)) ex_store) (sample_key ex_target ''rtt'' ''1'') =
     [\<lparr>s_t = 1, s_v = Fin 20\<rparr>, \<lparr>s_t = 9, s_v = Fin (375/8)\<rparr>]"
proof -
  have inv: "store_inv ex_store" by (simp add: ex_store_def)
  have "store_hist ex_store (sample_key ex_target ''rtt'' ''1'') = [\<lparr>s_t = 1, s_v = Fin 20\<rparr>]" "st_cap ex_store = 4"
    by code_simp+
  moreover have "\<forall>rl\<in>set allowlist. \<forall>i. store_hist (scrape_target 9 ex_target (Inr (ex_fams ex_ms)) ex_store)
      (sample_key ex_target (ru_key rl) i) = take_last (nat (st_cap ex_store)) (store_hist ex_store
      (sample_key ex_target (ru_key rl) i) @ map (\<lambda>v. \<lparr>s_t = 9, s_v = v\<rparr>)
      (case scraped rl (ex_fams ex_ms) i of None \<Rightarrow> [] | Some v \<Rightarrow> [v]))"
    using scrape_appends [OF inv refl refl, where now = 9 and t = ex_target and fetched = "Inr (ex_fams ex_ms)"]
    by blast
  note spec [OF bspec [OF this rtt_rule(1)], of "''1''"]
  ultimately show ?thesis by (simp add: rtt_rule(2) ex_scraped)
qed

lemma map_single: "map f xs = [y] \<Longrightarrow> \<exists>x. x \<in> set xs \<and> f x = y"
  by (cases xs) auto

theorem scrape_shown_witness:
  "\<exists>vm. vm \<in> set (f_links (snd (frame (deriver_new ex_graph)
      (scrape_target 9 ex_target (Inr (ex_fams ex_ms)) ex_store) 10 10))) \<and> v_rtt_a vm = Fin (375/8)"
proof -
  let ?f = "snd (frame (deriver_new ex_graph) (scrape_target 9 ex_target (Inr (ex_fams ex_ms)) ex_store) 10 10)"
  have ids: "map v_id (f_links ?f) = [l_id ex_link]"
    by (simp add: frame_def split_def Let_def deriver_new_def ex_graph_def derive_link_vm)
  obtain vm where vm: "vm \<in> set (f_links ?f)" "v_id vm = l_id ex_link"
    using map_single [OF ids] by blast
  have inv: "store_inv ex_store" by (simp add: ex_store_def)
  have g: "distinct (map l_id (g_links (d_g (deriver_new ex_graph))))" "ex_link \<in> set (g_links (d_g (deriver_new ex_graph)))"
    by (simp_all add: deriver_new_def ex_graph_def)
  have e: "ex_end 150 = l_a ex_link \<or> ex_end 150 = l_b ex_link" by (simp add: ex_link_def)
  have t: "ex_target = \<lparr>tg_as = e_as (ex_end 150), tg_service = ''br'', tg_url = ''http://10.0.0.1:30442/metrics''\<rparr>"
    by (simp add: ex_target_def ex_end_def)
  have "v_rtt_a vm = Fin (375/8)"
    using scrape_shown [OF inv g e t vm] ex_scraped by (simp add: ex_end_def ex_link_def)
  with vm(1) show ?thesis by blast
qed

theorem scrape_never_nan_witness:
  "\<exists>x. x \<in> set (store_hist (scrape_run (store_new 4) [(9, ex_target, Inr (ex_fams ex_ms))])
      (sample_key ex_target ''rtt'' ''1'')) \<and> s_v x \<noteq> NaN"
proof -
  let ?h = "store_hist (scrape_run (store_new 4) [(9, ex_target, Inr (ex_fams ex_ms))]) (sample_key ex_target ''rtt'' ''1'')"
  have x: "\<lparr>s_t = 9, s_v = Fin (375/8)\<rparr> \<in> set ?h"
    using scrape_hist [of "store_new 4" 9 ex_target "Inr (ex_fams ex_ms)"] rtt_rule ex_scraped
      pass_puts_sample [OF rtt_rule(1), of ex_target "''1''" 9 "ex_fams ex_ms"]
    by (simp add: scrape_run_def st_cap_new)
  from scrape_never_nan [OF x] x show ?thesis by blast
qed

text \<open>
  Finite readings are not enough for finite samples, whatever the comment in \<open>scrapeTarget\<close> says: the
  guard looks at each reading, but the sum and the conversion to milliseconds come after it.
\<close>

lemma scrape_overflow:
  "store_last (scrape_target 9 ex_target (Inr (ex_fams [ex_gauge (Fin (2 ^ 1020))])) (store_new 4))
     (sample_key ex_target ''rtt'' ''1'') = Some \<lparr>s_t = 9, s_v = PInf\<rparr>"
proof -
  have "scraped rtt_rule (ex_fams [ex_gauge x]) ''1'' = Some ((Fin 0 + x) * Fin 1000)" if "\<not> non_finite x" for x
    using that by (simp add: scraped_def readings_def ex_fams_def ex_gauge_def rtt_rule_def allowlist_def scaled_def)
  moreover have "Fin 0 + Fin (2 ^ 1020) = Fin (2 ^ 1020)"
    using f64_of_rat_small [of "2 ^ 1020"] pow2_le_f64_max [of 1020] by (simp only: f64_add_Fin rnd_pow2) simp
  moreover have "Fin (2 ^ 1020) * Fin 1000 = PInf"
  proof -
    have "(2::rat) ^ 1024 = 2 ^ 4 * 2 ^ 1020" unfolding power_add [symmetric] by simp
    also have "\<dots> \<le> 2 ^ 1020 * 1000" unfolding mult.commute [of _ 1000] by (intro mult_right_mono) simp_all
    finally have "rnd (2 ^ 1024) \<le> rnd (2 ^ 1020 * 1000)" by (rule rnd_mono)
    moreover have "f64_max < 2 ^ 1024"
    proof -
      have "f64_max < 2 ^ 53 * 2 ^ 971" unfolding f64_max_def by (intro mult_strict_right_mono) simp_all
      then show ?thesis unfolding power_add [symmetric] by simp
    qed
    ultimately have "f64_max < rnd (2 ^ 1020 * 1000)" unfolding rnd_pow2 by (rule less_le_trans [rotated])
    then show ?thesis unfolding f64_mul_Fin f64_of_rat_def Let_def by simp
  qed
  ultimately have "scraped rtt_rule (ex_fams [ex_gauge (Fin (2 ^ 1020))]) ''1'' = Some PInf" by (simp only: non_finite_def) simp
  then show ?thesis
    using scrape_last_sample [of "store_new 4" rtt_rule _ "''1''" PInf 9 ex_target] rtt_rule by simp
qed

end
