(* ===== verification/Fabricd.thy ===== *)
theory Fabricd
  imports ApiFiles FabricApi Scrape
begin

text \<open>
  \<open>dashboard/backend/cmd/fabricd/main.go\<close>: the configuration, what \<open>main\<close> wires together for it, and the
  persistence of the RTT baselines across restarts.  The TOML decoder, the topology and pool files and the
  JSON encoding of the baselines are arguments.
\<close>

section \<open>Configuration\<close>

record fabric_config =
  fc_listen :: string
  fc_config_dir :: string
  fc_static_dir :: string
  fc_scrape_interval_ms :: int
  fc_mock :: bool
  fc_baselines_path :: string
  fc_join_enabled :: bool
  fc_booth_code :: string
  fc_isd :: int
  fc_joinable_ases :: "int list"
  fc_wg_pool_path :: string
  fc_wg_state_path :: string
  fc_instructions_dir :: string
  fc_endpoint_v6 :: string
  fc_endpoint_v4 :: string
  fc_wg_listen_port :: int
  fc_hub_probe_addr :: string
  fc_play_proxy :: "(string, string) gomap"
  fc_claim_rate_max :: int
  fc_bootstrap_template :: string
  fc_ca_file :: string
  fc_idint_enabled :: bool
  fc_prober_port :: int
  fc_reflector_port :: int
  fc_probe_interval_ms :: int

definition default_config :: fabric_config where
  "default_config = \<lparr>fc_listen = '':8080'', fc_config_dir = ''/etc/fabric/config'', fc_static_dir = ''/usr/share/fabricd/web'',
     fc_scrape_interval_ms = 1000, fc_mock = False, fc_baselines_path = '''', fc_join_enabled = False, fc_booth_code = '''',
     fc_isd = 1, fc_joinable_ases = [], fc_wg_pool_path = ''/var/lib/fabricd/wg-pool.json'',
     fc_wg_state_path = ''/var/lib/fabricd/wg-claims.json'', fc_instructions_dir = '''', fc_endpoint_v6 = '''', fc_endpoint_v4 = '''',
     fc_wg_listen_port = 51820, fc_hub_probe_addr = ''10.20.3.201:22'', fc_play_proxy = [], fc_claim_rate_max = 0,
     fc_bootstrap_template = '''', fc_ca_file = '''', fc_idint_enabled = False, fc_prober_port = 30490,
     fc_reflector_port = 32001, fc_probe_interval_ms = 1000\<rparr>"

text \<open>The decoder overwrites the defaults with what the file sets, or fails.\<close>

definition load_config :: "(fabric_config \<Rightarrow> string + fabric_config) \<Rightarrow> string + fabric_config" where
  "load_config decode_file = decode_file default_config"

text \<open>The \<open>play_proxy\<close> table, in the order the map is walked; a key that is no number is fatal.\<close>

datatype fabric_fatal = FatalConfig string | FatalTopology topo_error | FatalPlayKey string | FatalPool wg_error

fun play_loop :: "(int, string) gomap \<Rightarrow> (string \<times> string) list \<Rightarrow> fabric_fatal + (int, string) gomap" where
  "play_loop m [] = Inr m"
| "play_loop m ((k, v) # kvs) = (case atoi k of None \<Rightarrow> Inl (FatalPlayKey k) | Some n \<Rightarrow> play_loop (put_key n v m) kvs)"

definition join_config_of :: "fabric_config \<Rightarrow> (int, string) gomap \<Rightarrow> join_config" where
  "join_config_of cfg targets = \<lparr>jc_enabled = fc_join_enabled cfg, jc_booth_code = fc_booth_code cfg, jc_isd = fc_isd cfg,
     jc_joinable_ases = fc_joinable_ases cfg, jc_config_dir = fc_config_dir cfg, jc_instructions_dir = fc_instructions_dir cfg,
     jc_endpoint_v6 = fc_endpoint_v6 cfg, jc_endpoint_v4 = fc_endpoint_v4 cfg, jc_listen_port = fc_wg_listen_port cfg,
     jc_hub_probe_addr = fc_hub_probe_addr cfg, jc_play_targets = targets, jc_rate_max = fc_claim_rate_max cfg,
     jc_rate_window = minute, jc_bootstrap_template = fc_bootstrap_template cfg, jc_ca_file = fc_ca_file cfg\<rparr>"

section \<open>Wiring\<close>

text \<open>
  What \<open>main\<close> starts: the mock generator and controller, with the link it shapes once the demonstration has
  warmed up, or scrapers and the linkd client.
\<close>

datatype telemetry = MockTelemetry "string \<times> shaping" | ScrapedTelemetry "target list" client

definition demo_shaping :: "string \<times> shaping" where
  "demo_shaping = (''155-160'', \<lparr>delay_ms = Some (Fin 12), jitter_ms = Some (Fin 2), loss_pct = None, rate_mbit = None\<rparr>)"

record fabric_wiring =
  wi_graph :: graph
  wi_store :: store
  wi_telemetry :: telemetry
  wi_join :: join_config
  wi_pool :: "wg_store option"
  wi_trace :: "manager option"
  wi_prober :: "http_prober option"
  wi_baselines :: "string option"
  wi_static :: bool

definition store_capacity :: int where "store_capacity = 3600"

definition fabric_wire ::
  "fabric_config \<Rightarrow> graph \<Rightarrow> (int, string) gomap \<Rightarrow> (string \<Rightarrow> string \<Rightarrow> wg_error + wg_store) \<Rightarrow> (string \<Rightarrow> bool) \<Rightarrow>
   fabric_fatal + fabric_wiring" where
  "fabric_wire cfg g targets open_pool is_dir =
     (let jc = join_config_of cfg targets;
          base = \<lparr>wi_graph = g, wi_store = store_new store_capacity, wi_telemetry = MockTelemetry demo_shaping, wi_join = jc,
            wi_pool = None, wi_trace = if fc_idint_enabled cfg then Some (manager_new g) else None, wi_prober = None,
            wi_baselines = if fc_baselines_path cfg \<noteq> '''' then Some (fc_baselines_path cfg) else None,
            wi_static = is_dir (fc_static_dir cfg)\<rparr> in
      if fc_mock cfg then
        Inr (base\<lparr>wi_join := jc\<lparr>jc_enabled := False, jc_play_targets := [], jc_booth_code := ''''\<rparr>\<rparr>)
      else
        let scraped = base\<lparr>wi_telemetry := ScrapedTelemetry (scrape_targets g) (client_new g),
              wi_prober := if fc_idint_enabled cfg
                then Some (http_prober_new g (fc_prober_port cfg) (fc_reflector_port cfg)) else None\<rparr> in
        if \<not> fc_join_enabled cfg then Inr scraped
        else case open_pool (fc_wg_pool_path cfg) (fc_wg_state_path cfg) of
            Inl e \<Rightarrow> Inl (FatalPool e)
          | Inr pool \<Rightarrow> Inr (scraped\<lparr>wi_pool := Some pool\<rparr>))"

definition fabric_start ::
  "(fabric_config \<Rightarrow> string + fabric_config) \<Rightarrow> (string \<Rightarrow> topo_error + graph) \<Rightarrow> (string \<Rightarrow> string \<Rightarrow> wg_error + wg_store) \<Rightarrow>
   (string \<Rightarrow> bool) \<Rightarrow> fabric_fatal + fabric_config \<times> fabric_wiring" where
  "fabric_start decode_file load open_pool is_dir = (case load_config decode_file of
     Inl e \<Rightarrow> Inl (FatalConfig e)
   | Inr cfg \<Rightarrow> (case load (fc_config_dir cfg) of
       Inl e \<Rightarrow> Inl (FatalTopology e)
     | Inr g \<Rightarrow> (case play_loop [] (fc_play_proxy cfg) of
         Inl e \<Rightarrow> Inl e
       | Inr targets \<Rightarrow> (case fabric_wire cfg g targets open_pool is_dir of Inl e \<Rightarrow> Inl e | Inr w \<Rightarrow> Inr (cfg, w)))))"

lemma fabric_wire_join:
  assumes "fabric_wire cfg g targets open_pool is_dir = Inr w"
  shows "if fc_mock cfg
    then wi_join w = (join_config_of cfg targets)\<lparr>jc_enabled := False, jc_play_targets := [], jc_booth_code := ''''\<rparr>
    else wi_join w = join_config_of cfg targets \<and> (fc_join_enabled cfg \<longrightarrow> wi_pool w \<noteq> None)"
  using assms by (auto simp: fabric_wire_def Let_def split: if_splits sum.splits)

lemma fabric_start_wire:
  assumes "fabric_start decode_file load open_pool is_dir = Inr (cfg, w)"
  obtains g targets where "fabric_wire cfg g targets open_pool is_dir = Inr w"
  using assms by (auto simp: fabric_start_def split: sum.splits)

lemma fabric_start_mock:
  assumes "fabric_start decode_file load open_pool is_dir = Inr (cfg, w)" "fc_mock cfg"
  shows "\<not> jc_enabled (wi_join w) \<and> jc_play_targets (wi_join w) = [] \<and> jc_booth_code (wi_join w) = ''''"
  using assms(2) fabric_wire_join by (rule_tac fabric_start_wire [OF assms(1)]) simp

lemma fabric_start_real:
  assumes "fabric_start decode_file load open_pool is_dir = Inr (cfg, w)" "\<not> fc_mock cfg"
  shows "jc_enabled (wi_join w) = fc_join_enabled cfg \<and> (jc_enabled (wi_join w) \<longrightarrow> wi_pool w \<noteq> None)"
  using assms(2) fabric_wire_join by (rule_tac fabric_start_wire [OF assms(1)]) (simp add: join_config_of_def)

lemma claim_check_pool: "claim_check jc True lm remote now body \<noteq> (lm1, Inl (Fails 503 text))"
  by (simp add: claim_check_def not_found_def Let_def split: prod.split option.split)

text \<open>
  A configuration never yields a half-working join surface.  In mock mode every join route, the
  playground and the booth gate are off whatever the file says; outside it the routes are on exactly as
  configured, and then the pool has been opened, so that no claim can meet a missing pool.
\<close>

theorem wiring_join_consistent:
  assumes "fabric_start decode_file load open_pool is_dir = Inr (cfg, w)"
  shows "(fc_mock cfg \<longrightarrow>
      (\<forall>pool lm remote now body. claim_check (wi_join w) pool lm remote now body = (lm, Inl not_found)) \<and>
      (\<forall>as read archive. handle_join_bundle (wi_join w) as read archive = not_found) \<and>
      (\<forall>as rest. handle_play_proxy (wi_join w) as rest = None) \<and>
      (\<forall>meth path auth. require_booth_code (jc_booth_code (wi_join w)) meth path auth)) \<and>
    (\<not> fc_mock cfg \<longrightarrow> jc_enabled (wi_join w) = fc_join_enabled cfg \<and>
      (jc_enabled (wi_join w) \<longrightarrow> wi_pool w \<noteq> None \<and>
        (\<forall>lm remote now body lm1 text.
           claim_check (wi_join w) (wi_pool w \<noteq> None) lm remote now body \<noteq> (lm1, Inl (Fails 503 text)))))"
proof (cases "fc_mock cfg")
  case True
  with fabric_start_mock [OF assms] show ?thesis
    by (simp add: claim_check_def handle_join_bundle_def handle_play_proxy_def play_target_def require_booth_code_def
        split: option.split)
next
  case False
  with fabric_start_real [OF assms] show ?thesis by (auto simp: claim_check_pool)
qed

definition ex_cfg :: fabric_config where
  "ex_cfg = default_config\<lparr>fc_mock := True, fc_join_enabled := True, fc_booth_code := ''fish'', fc_play_proxy := [(''158'', ''h:1'')]\<rparr>"

theorem wiring_join_consistent_witness:
  "\<exists>w. fabric_start (\<lambda>_. Inr ex_cfg) (\<lambda>_. Inr ex_graph) (\<lambda>_ _. Inl ReadPool) (\<lambda>_. False) = Inr (ex_cfg, w) \<and>
     (\<forall>as rest. handle_play_proxy (wi_join w) as rest = None)"
proof -
  have "play_loop [] (fc_play_proxy ex_cfg) = Inr [(158, ''h:1'')]" by code_simp
  moreover have "fc_mock ex_cfg" by (simp add: ex_cfg_def)
  then obtain w where "fabric_wire ex_cfg ex_graph [(158, ''h:1'')] (\<lambda>_ _. Inl ReadPool) (\<lambda>_. False) = Inr w"
    by (simp add: fabric_wire_def Let_def)
  ultimately have w: "fabric_start (\<lambda>_. Inr ex_cfg) (\<lambda>_. Inr ex_graph) (\<lambda>_ _. Inl ReadPool) (\<lambda>_. False) = Inr (ex_cfg, w)"
    by (simp add: fabric_start_def load_config_def)
  have "fc_mock ex_cfg" by (simp add: ex_cfg_def)
  with wiring_join_consistent [OF w] w show ?thesis by blast
qed

section \<open>Baselines across restarts\<close>

text \<open>
  The file \<open>baselines_path\<close> names and its temporary sibling.  A save writes the sibling and renames it; it
  can stop at the encoding (a value that is no number), in the write, which leaves what the failure left in
  the sibling, or at the rename.  A crash of the machine in between leaves the same disks.
\<close>

record 'c base_disk =
  bd_file :: "'c option"
  bd_tmp :: "'c option"

datatype 'c save_outcome = Saved | WriteStops "'c option" | RenameStops

definition json_number :: "f64 \<Rightarrow> bool" where
  "json_number v = (case v of Fin _ \<Rightarrow> True | _ \<Rightarrow> False)"

definition save_baselines ::
  "((string, f64) gomap \<Rightarrow> 'c) \<Rightarrow> (string, f64) gomap \<Rightarrow> 'c save_outcome \<Rightarrow> 'c base_disk \<Rightarrow> 'c base_disk \<times> bool" where
  "save_baselines encode m out disk =
     (if \<not> list_all (\<lambda>(_, v). json_number v) m then (disk, False)
      else case out of
        WriteStops partial \<Rightarrow> (disk\<lparr>bd_tmp := partial\<rparr>, False)
      | RenameStops \<Rightarrow> (disk\<lparr>bd_tmp := Some (encode m)\<rparr>, False)
      | Saved \<Rightarrow> (disk\<lparr>bd_file := Some (encode m), bd_tmp := None\<rparr>, True))"

text \<open>A missing file is no seeds and no error; \<open>None\<close> is an error.\<close>

definition load_baselines :: "('c \<Rightarrow> (string, f64) gomap option) \<Rightarrow> bool \<Rightarrow> 'c base_disk \<Rightarrow> (string, f64) gomap option" where
  "load_baselines decode readable disk = (case bd_file disk of
     None \<Rightarrow> Some []
   | Some b \<Rightarrow> if \<not> readable then None else decode b)"

definition seed_at_start ::
  "('c \<Rightarrow> (string, f64) gomap option) \<Rightarrow> bool \<Rightarrow> 'c base_disk \<Rightarrow> deriver \<Rightarrow> deriver" where
  "seed_at_start decode readable disk d = (case load_baselines decode readable disk of
     None \<Rightarrow> d
   | Some m \<Rightarrow> if m \<noteq> [] then seed_baselines m d else d)"

text \<open>
  What happens to the deriver and the disk over the life of several processes: events of the running
  process, the periodic save and the one on a signal, and a new process after an exit or a crash.  The
  seeds are read by a goroutine, so the broadcaster and the poller of the new process may already have reached
  the deriver; saves come from the same goroutine and so only later.  A process that ends before it is
  seeded leaves no trace and needs no step.
\<close>

datatype 'c base_op = BaseEvent event | BaseSave "'c save_outcome" | BaseRestart "event list" bool

fun base_step ::
  "((string, f64) gomap \<Rightarrow> 'c) \<Rightarrow> ('c \<Rightarrow> (string, f64) gomap option) \<Rightarrow> graph \<Rightarrow>
   deriver \<times> 'c base_disk \<Rightarrow> 'c base_op \<Rightarrow> deriver \<times> 'c base_disk" where
  "base_step encode decode g (d, disk) (BaseEvent e) = (deriver_step d e, disk)"
| "base_step encode decode g (d, disk) (BaseSave out) = (d, fst (save_baselines encode (baselines d) out disk))"
| "base_step encode decode g (d, disk) (BaseRestart early readable) =
     (seed_at_start decode readable disk (deriver_run (deriver_new g) early), disk)"

definition base_run ::
  "((string, f64) gomap \<Rightarrow> 'c) \<Rightarrow> ('c \<Rightarrow> (string, f64) gomap option) \<Rightarrow> graph \<Rightarrow>
   deriver \<times> 'c base_disk \<Rightarrow> 'c base_op list \<Rightarrow> deriver \<times> 'c base_disk" where
  "base_run encode decode g = foldl (base_step encode decode g)"

text \<open>Seeds come from the file only; the file stays readable.\<close>

definition unseeded :: "event \<Rightarrow> bool" where
  "unseeded e \<longleftrightarrow> (case e of EvSeed _ \<Rightarrow> False | _ \<Rightarrow> True)"

fun base_op_ok :: "'c base_op \<Rightarrow> bool" where
  "base_op_ok (BaseEvent e) = unseeded e"
| "base_op_ok (BaseRestart early readable) = (readable \<and> list_all unseeded early)"
| "base_op_ok (BaseSave _) = True"

subsection \<open>Stored minima are positive numbers\<close>

definition number_map :: "(string, f64) gomap \<Rightarrow> bool" where
  "number_map m \<longleftrightarrow> wf_map m \<and> list_all (\<lambda>(_, v). json_number v) m"

definition base_ok :: "deriver \<Rightarrow> bool" where
  "base_ok d \<longleftrightarrow> wf_map (d_base_min d) \<and> (\<forall>(k, v) \<in> set (d_base_min d). Fin 0 < v \<and> json_number v)"

lemma set_put_key: "set (put_key k v m) \<subseteq> insert (k, v) (set m)"
  by (induction m) auto

lemma json_number_simps [simp]:
  "json_number (Fin x)" "\<not> json_number NaN" "\<not> json_number PInf"
  by (simp_all add: json_number_def)

lemma base_ok_put:
  assumes "base_ok d" "Fin 0 < v" "json_number v"
  shows "base_ok (d\<lparr>d_base_min := put_key k v (d_base_min d)\<rparr>)"
  using assms set_put_key [of k v "d_base_min d"] by (auto simp: base_ok_def)

lemma base_ok_numbers: "base_ok d \<Longrightarrow> number_map (baselines d)"
  by (auto simp: base_ok_def number_map_def baselines_def list_all_iff)

lemma base_ok_new [simp]: "base_ok (deriver_new g)"
  by (simp add: base_ok_def deriver_new_def)

lemma base_ok_baseline: "base_ok d \<Longrightarrow> base_ok (fst (baseline d st k))"
  using base_ok_put [of d "baseline_min d st k" k] baseline_min_pos [of d st k]
  by (cases "baseline_min d st k") (auto simp: baseline_def Let_def)

lemma base_ok_cong: "d_base_min d = d_base_min d' \<Longrightarrow> base_ok d = base_ok d'"
  by (simp add: base_ok_def)


lemma base_ok_link: "base_ok d \<Longrightarrow> base_ok (fst (derive_link d st n l))"
proof -
  assume a: "base_ok d"
  have "d_base_min (fst (derive_link d st n l)) =
      d_base_min (fst (baseline (fst (baseline d st (rtt_key (l_a l)))) st (rtt_key (l_b l))))"
    by (simp add: derive_link_def commit_def link_bases_def split_def Let_def split: option.splits)
  then show ?thesis using base_ok_baseline [OF base_ok_baseline [OF a]] by (simp add: base_ok_def)
qed

lemma base_ok_links: "base_ok d \<Longrightarrow> base_ok (fst (derive_links d st n ls))"
  by (induction ls arbitrary: d) (simp_all add: split_def Let_def base_ok_link)

lemma base_ok_event: "base_ok d \<Longrightarrow> unseeded e \<Longrightarrow> base_ok (deriver_step d e)"
  by (cases e) (simp_all add: frame_def split_def Let_def base_ok_links unseeded_def,
    simp_all add: base_ok_def set_shaping_def set_baseline_shaping_def set_bgp_def)

lemma base_ok_events: "base_ok d \<Longrightarrow> list_all unseeded es \<Longrightarrow> base_ok (deriver_run d es)"
  by (induction es arbitrary: d) (simp_all add: deriver_run_def base_ok_event)

lemma base_ok_seed:
  "base_ok d \<Longrightarrow> list_all (\<lambda>(_, v). json_number v) m \<Longrightarrow> base_ok (seed_baselines m d)"
proof (induction m d rule: seed_baselines.induct)
  case (2 k v m d)
  show ?case
  proof (cases "v \<le> Fin 0")
    case False
    with "2.prems"(2) have "Fin 0 < v" "json_number v" by (cases v; simp)+
    note put = base_ok_put [OF "2.prems"(1) this, of k]
    show ?thesis using 2 put False by (auto split: option.splits)
  qed (use 2 in simp)
qed simp

lemma seed_reaches:
  assumes "(k, w) \<in> set m" "Fin 0 < w" "base_ok d" "list_all (\<lambda>(_, v). json_number v) m"
  shows "min_at_most (seed_baselines m d) k w"
  using assms
proof (induction m d rule: seed_baselines.induct)
  case (2 k' v m d)
  show ?case
  proof (cases "v \<le> Fin 0")
    case True
    with "2.prems"(1,2) have "(k, w) \<in> set m" by (cases w) auto
    with 2 True show ?thesis by simp
  next
    case False
    with "2.prems"(4) have v: "Fin 0 < v" "json_number v" by (cases v; simp)+
    let ?d = "case map_of (d_base_min d) k' of None \<Rightarrow> d\<lparr>d_base_min := put_key k' v (d_base_min d)\<rparr>
      | Some cur \<Rightarrow> if v < cur then d\<lparr>d_base_min := put_key k' v (d_base_min d)\<rparr> else d"
    have step: "seed_baselines ((k', v) # m) d = seed_baselines m ?d"
      using False by (simp split: option.split)
    have ok: "base_ok ?d"
      using "2.prems"(3) base_ok_put [OF "2.prems"(3) v, of k'] by (simp split: option.split)
    show ?thesis
    proof (cases "(k, w) = (k', v)")
      case True
      have "min_at_most ?d k w"
      proof (cases "map_of (d_base_min d) k'")
        case None
        with True "2.prems"(2) show ?thesis by (simp add: min_at_most_def f64_le_refl f64_pos_not_NaN)
      next
        case (Some cur)
        then have "Fin 0 < cur" "json_number cur"
          using "2.prems"(3) by (auto simp: base_ok_def dest: map_of_SomeD)
        with True "2.prems"(2) Some show ?thesis
          by (auto simp: min_at_most_def f64_le_refl f64_pos_not_NaN f64_not_less)
      qed
      then show ?thesis unfolding step by (rule min_at_most_seed)
    next
      case other: False
      then have mem: "(k, w) \<in> set m" using "2.prems"(1) by auto
      have num: "list_all (\<lambda>(_, v). json_number v) m" using "2.prems"(4) by simp
      show ?thesis
        using "2.IH" mem "2.prems"(2) ok num False unfolding step
        by (cases "map_of (d_base_min d) k'") (auto split: if_splits)
    qed
  qed
qed simp

subsection \<open>A saved minimum is never lost\<close>

text \<open>
  What the JSON package promises of maps of numbers: decoding an encoded map gives the map back, and a
  decoded map holds numbers under distinct keys.
\<close>

definition json_maps :: "((string, f64) gomap \<Rightarrow> 'c) \<Rightarrow> ('c \<Rightarrow> (string, f64) gomap option) \<Rightarrow> bool" where
  "json_maps encode decode \<longleftrightarrow>
     (\<forall>m. number_map m \<longrightarrow> (\<exists>m'. decode (encode m) = Some m' \<and> map_of m' = map_of m)) \<and>
     (\<forall>b m. decode b = Some m \<longrightarrow> number_map m)"

fun kept_min :: "('c \<Rightarrow> (string, f64) gomap option) \<Rightarrow> string \<Rightarrow> f64 \<Rightarrow> deriver \<times> 'c base_disk \<Rightarrow> bool" where
  "kept_min decode k v (d, disk) \<longleftrightarrow> base_ok d \<and> min_at_most d k v \<and>
     (\<exists>b m w. bd_file disk = Some b \<and> decode b = Some m \<and> map_of m k = Some w \<and> Fin 0 < w \<and> w \<le> v)"

lemma load_numbers:
  "json_maps encode decode \<Longrightarrow> load_baselines decode r disk = Some m \<Longrightarrow> number_map m"
  by (auto simp: load_baselines_def json_maps_def number_map_def split: option.splits if_splits)

lemma base_ok_start: "json_maps encode decode \<Longrightarrow> base_ok d \<Longrightarrow> base_ok (seed_at_start decode r disk d)"
  using load_numbers [of encode decode r disk]
  by (auto simp: seed_at_start_def number_map_def intro!: base_ok_seed split: option.splits)

lemma base_ok_step:
  "json_maps encode decode \<Longrightarrow> base_op_ok op \<Longrightarrow> base_ok (fst s) \<Longrightarrow> base_ok (fst (base_step encode decode g s op))"
  by (cases s; cases op) (auto intro!: base_ok_event base_ok_start base_ok_events)

lemma base_ok_run:
  "json_maps encode decode \<Longrightarrow> list_all base_op_ok ops \<Longrightarrow> base_ok (fst s) \<Longrightarrow>
   base_ok (fst (base_run encode decode g s ops))"
  by (induction ops arbitrary: s) (simp_all add: base_run_def base_ok_step)

lemma save_never_unsupported:
  "base_ok d \<Longrightarrow> snd (save_baselines encode (baselines d) out disk) \<longleftrightarrow> out = Saved"
  using base_ok_numbers [of d] by (auto simp: save_baselines_def number_map_def split: save_outcome.split)

lemma kept_min_saved:
  assumes "json_maps encode decode" "base_ok d" "min_at_most d k v"
  shows "kept_min decode k v (base_step encode decode g (d, disk) (BaseSave Saved))"
proof -
  have num: "number_map (baselines d)" using assms(2) by (rule base_ok_numbers)
  then obtain m' where "decode (encode (baselines d)) = Some m'" "map_of m' = map_of (d_base_min d)"
    using assms(1) by (auto simp: json_maps_def baselines_def)
  with assms num show ?thesis by (auto simp: save_baselines_def number_map_def min_at_most_def)
qed

lemma kept_min_step:
  assumes "json_maps encode decode" "base_op_ok op" "kept_min decode k v s"
  shows "kept_min decode k v (base_step encode decode g s op)"
proof -
  obtain d disk where s: "s = (d, disk)" by (cases s)
  obtain b m w where ok: "base_ok d" "min_at_most d k v"
    and disk: "bd_file disk = Some b" "decode b = Some m" "map_of m k = Some w" "Fin 0 < w" "w \<le> v"
    using assms(3) s by auto
  show ?thesis
  proof (cases op)
    case (BaseEvent e)
    with assms(2) ok disk show ?thesis by (auto simp: s intro: base_ok_event min_at_most_step)
  next
    case (BaseSave out)
    show ?thesis
    proof (cases "out = Saved")
      case True
      with BaseSave show ?thesis using kept_min_saved [OF assms(1) ok] by (simp add: s)
    next
      case False
      with ok disk show ?thesis
        by (auto simp: s BaseSave save_baselines_def split: save_outcome.split)
    qed
  next
    case (BaseRestart early r)
    then have r: r and early: "list_all unseeded early" using assms(2) by simp_all
    let ?d = "deriver_run (deriver_new g) early"
    have new: "base_ok ?d" using early by (simp add: base_ok_events)
    have num: "number_map m" using assms(1) disk(2) by (auto simp: json_maps_def)
    have "(k, w) \<in> set m" using disk(3) by (rule map_of_SomeD)
    from seed_reaches [OF this disk(4) new] num
    have "min_at_most (seed_baselines m ?d) k w" by (simp add: number_map_def)
    then have "min_at_most (seed_baselines m ?d) k v"
      using disk(5) by (auto simp: min_at_most_def intro: f64_cmp_trans)
    moreover have "m \<noteq> []" using disk(3) by auto
    then have "seed_at_start decode r disk ?d = seed_baselines m ?d"
      using disk(1,2) r by (simp add: seed_at_start_def load_baselines_def)
    ultimately show ?thesis
      using disk base_ok_start [OF assms(1) new, of r disk] by (simp add: s BaseRestart)
  qed
qed

lemma kept_min_run:
  "json_maps encode decode \<Longrightarrow> list_all base_op_ok ops \<Longrightarrow> kept_min decode k v s \<Longrightarrow>
   kept_min decode k v (base_run encode decode g s ops)"
  by (induction ops arbitrary: s) (simp_all add: base_run_def kept_min_step)

text \<open>
  C18: A saved RTT minimum is never lost.  Once a save has succeeded, the minimum of every interface stays
  at most what was saved, through any later frames, saves that stop in the write or at the rename, crashes
  and restarts from the file, also when frames are derived before a new process has read its seeds; and no minimum the process ever derives makes the encoding of a save fail.
\<close>

theorem baselines_survive:
  assumes "json_maps encode decode" "list_all base_op_ok ops0" "list_all base_op_ok ops"
    and "(d, disk) = base_run encode decode g (deriver_new g, disk0) ops0"
    and "map_of (baselines d) k = Some v"
    and "(d', disk') = base_run encode decode g (d, disk) (BaseSave Saved # ops)"
  shows "(\<exists>v'. map_of (baselines d') k = Some v' \<and> Fin 0 < v' \<and> v' \<le> v) \<and>
    (\<forall>out. snd (save_baselines encode (baselines d') out disk') \<longleftrightarrow> out = Saved)"
proof -
  have "base_ok (fst (base_run encode decode g (deriver_new g, disk0) ops0))"
    using assms(1,2) by (intro base_ok_run) simp_all
  then have ok: "base_ok d" using assms(4) by (metis fst_conv)
  then have "Fin 0 < v" using assms(5) by (auto simp: base_ok_def baselines_def dest: map_of_SomeD)
  then have "min_at_most d k v"
    using assms(5) by (simp add: min_at_most_def baselines_def f64_le_refl f64_pos_not_NaN)
  from kept_min_saved [OF assms(1) ok this, of g disk]
  have "kept_min decode k v (base_run encode decode g (d, disk) (BaseSave Saved # ops))"
    using kept_min_run [OF assms(1,3)] by (simp add: base_run_def)
  then have "kept_min decode k v (d', disk')" using assms(6) by simp
  then have "base_ok d'" "min_at_most d' k v" by auto
  then show ?thesis
    by (simp add: save_never_unsupported) (auto simp: min_at_most_def baselines_def)
qed

definition ex_decode :: "(string, f64) gomap \<Rightarrow> (string, f64) gomap option" where
  "ex_decode m = (if number_map m then Some m else None)"

lemma ex_json: "json_maps (\<lambda>m. m) ex_decode"
  by (simp add: json_maps_def ex_decode_def)

definition ex_saved where
  "ex_saved = base_run (\<lambda>m. m) ex_decode ex_graph (deriver_new ex_graph, \<lparr>bd_file = None, bd_tmp = None\<rparr>)
     [BaseRestart [] True, BaseEvent (EvFrame ex_store 1 1)]"

theorem baselines_survive_witness:
  "map_of (baselines (fst ex_saved)) (rtt_key (ex_end 150)) = Some (Fin 20) \<and>
   (\<exists>v. map_of (baselines (fst (base_run (\<lambda>m. m) ex_decode ex_graph ex_saved
      [BaseSave Saved, BaseSave (WriteStops None), BaseRestart [EvBgp None] True]))) (rtt_key (ex_end 150)) = Some v \<and> v \<le> Fin 20)"
proof -
  have v: "map_of (baselines (fst ex_saved)) (rtt_key (ex_end 150)) = Some (Fin 20)" by code_simp
  obtain d disk where s: "ex_saved = (d, disk)" by (cases ex_saved)
  obtain d' disk' where t: "(d', disk') = base_run (\<lambda>m. m) ex_decode ex_graph (d, disk)
      (BaseSave Saved # [BaseSave (WriteStops None), BaseRestart [EvBgp None] True])"
    by (metis surj_pair)
  have "list_all base_op_ok [BaseRestart [] True, BaseEvent (EvFrame ex_store 1 1)]"
    "list_all base_op_ok [BaseSave (WriteStops None), BaseRestart [EvBgp None] True]"
    by (simp_all add: unseeded_def)
  note survive = baselines_survive [OF ex_json this s [unfolded ex_saved_def, symmetric] _ t]
  from survive [OF v [unfolded s fst_conv]]
  have "\<exists>v. map_of (baselines d') (rtt_key (ex_end 150)) = Some v \<and> v \<le> Fin 20" by auto
  with v show ?thesis by (simp only: s fst_conv flip: t)
qed

end
