(* ===== verification/ScrapeRun.thy ===== *)
theory ScrapeRun
  imports Scrape
begin

text \<open>
  \<open>dashboard/backend/internal/scrape\<close>, \<open>Run\<close> and \<open>ScrapeOnce\<close>: one goroutine per target, whose passes interleave
  put by put.  Since a target writes only keys under its own AS and service, every series ends up with the samples
  of its own target's passes in their order, as if the targets had been scraped one after the other.
\<close>

section \<open>Goroutines\<close>

text \<open>What one target's goroutine puts over the passes it makes; \<open>ScrapeOnce\<close> makes one.\<close>

type_synonym passes = "(int \<times> (string + families)) list"

fun target_puts :: "target \<times> passes \<Rightarrow> (string \<times> sample) list" where
  "target_puts (t, ps) = concat (map (\<lambda>(now, fetched). pass_puts now t fetched) ps)"

text \<open>A state is the store and what each goroutine has still to put; any of them may be next.\<close>

inductive scrape_step ::
  "store \<times> (string \<times> sample) list list \<Rightarrow> store \<times> (string \<times> sample) list list \<Rightarrow> bool" where
  "scrape_step (st, before @ ((k, x) # rest) # behind) (store_put st k (s_t x) (s_v x), before @ rest # behind)"

inductive_cases scrape_stepE: "scrape_step s s'"

definition scrape_start :: "store \<Rightarrow> (target \<times> passes) list \<Rightarrow> store \<times> (string \<times> sample) list list" where
  "scrape_start st runs = (st, map target_puts runs)"

text \<open>The reference: the targets one after the other.\<close>

definition scrape_serial :: "store \<Rightarrow> (target \<times> passes) list \<Rightarrow> store" where
  "scrape_serial st runs = foldl (\<lambda>st (t, ps). scrape_run st (map (\<lambda>(now, fetched). (now, t, fetched)) ps)) st runs"

lemma scrape_serial_puts: "scrape_serial st runs = puts_all st (concat (map target_puts runs))"
proof -
  have one: "scrape_run st (map (\<lambda>(now, fetched). (now, t, fetched)) ps) = puts_all st (target_puts (t, ps))" for st t ps
    by (simp add: scrape_run_puts) (simp add: o_def split_def)
  show ?thesis
    by (induction runs arbitrary: st) (auto simp: scrape_serial_def one puts_all_def)
qed

section \<open>Interleavings\<close>

abbreviation key_samples :: "string \<Rightarrow> (string \<times> sample) list \<Rightarrow> sample list" where
  "key_samples k kvs \<equiv> map snd (filter (\<lambda>p. fst p = k) kvs)"

text \<open>The history a key will have when all is put, and that at most one goroutine has the key.\<close>

definition due :: "store \<times> (string \<times> sample) list list \<Rightarrow> string \<Rightarrow> sample list" where
  "due s k = take_last (nat (st_cap (fst s))) (store_hist (fst s) k @ concat (map (key_samples k) (snd s)))"

definition writers :: "string \<Rightarrow> (string \<times> sample) list list \<Rightarrow> nat" where
  "writers k pend = length (filter (\<lambda>kvs. k \<in> fst ` set kvs) pend)"

definition scrape_inv :: "store \<times> (string \<times> sample) list list \<Rightarrow> bool" where
  "scrape_inv s \<longleftrightarrow> store_inv (fst s) \<and> (\<forall>k. writers k (snd s) \<le> 1)"

lemma no_key_samples: "k \<notin> fst ` set kvs \<Longrightarrow> key_samples k kvs = []"
  by (force simp: filter_empty_conv)

lemma writers_sole:
  assumes "writers k (before @ kvs # behind) \<le> 1" "k \<in> fst ` set kvs"
  shows "concat (map (key_samples k) before) = []" "concat (map (key_samples k) behind) = []"
proof -
  have "\<forall>l\<in>set before. k \<notin> fst ` set l" "\<forall>l\<in>set behind. k \<notin> fst ` set l"
    using assms by (auto simp: writers_def filter_empty_conv)
  then show "concat (map (key_samples k) before) = []" "concat (map (key_samples k) behind) = []"
    unfolding concat_eq_Nil_conv by (auto simp: no_key_samples simp del: map_is_Nil_conv)
qed

lemma scrape_step_due:
  assumes "scrape_step s s'" "scrape_inv s"
  shows "scrape_inv s' \<and> due s' k = due s k"
proof -
  obtain st before k' x rest behind where 1: "s = (st, before @ ((k', x) # rest) # behind)"
    "s' = (store_put st k' (s_t x) (s_v x), before @ rest # behind)"
    using assms(1) by (elim scrape_stepE) blast
  have inv: "store_inv st" "writers k (before @ ((k', x) # rest) # behind) \<le> 1" for k
    using assms(2) 1(1) by (simp_all add: scrape_inv_def)
  have hist: "store_hist (store_put st k' (s_t x) (s_v x)) k =
      (if k = k' then take_last (nat (st_cap st)) (store_hist st k @ [x]) else store_hist st k)"
    using store_hist_put [OF inv(1), of k' "s_t x" "s_v x" k] by simp
  have "writers k (before @ rest # behind) \<le> writers k (before @ ((k', x) # rest) # behind)" for k
    by (simp add: writers_def)
  then have "scrape_inv s'"
    using inv(2) le_trans store_inv_put [OF inv(1)] unfolding 1(2) scrape_inv_def fst_conv snd_conv by blast
  moreover have "due s' k = due s k"
  proof (cases "k = k'")
    case True
    then have sole: "concat (map (key_samples k) before) = []" "concat (map (key_samples k) behind) = []"
      using writers_sole [OF inv(2), of k] by simp_all
    show ?thesis using hist unfolding due_def 1 fst_conv snd_conv map_append concat_append list.map concat.simps sole
      by (simp add: True st_cap_put take_last_append)
  qed (use 1 hist in \<open>simp add: due_def st_cap_put\<close>)
  ultimately show ?thesis ..
qed

lemma scrape_steps_due: "scrape_step\<^sup>*\<^sup>* s s' \<Longrightarrow> scrape_inv s \<Longrightarrow> scrape_inv s' \<and> due s' k = due s k"
proof (induction rule: rtranclp_induct)
  case (step s1 s2)
  with scrape_step_due [of s1 s2 k] show ?case by simp
qed simp

section \<open>Targets have keys of their own\<close>

definition targets_apart :: "(target \<times> passes) list \<Rightarrow> bool" where
  "targets_apart runs \<longleftrightarrow> distinct (map (\<lambda>(t, _). (tg_as t, tg_service t)) runs) \<and> (\<forall>(t, _)\<in>set runs. CHR ''/'' \<notin> set (tg_service t))"

definition own_prefix :: "target \<Rightarrow> string" where
  "own_prefix t = itoa (tg_as t) @ ''/'' @ tg_service t @ ''/''"

lemma target_puts_prefix:
  assumes "k \<in> fst ` set (target_puts (t, ps))"
  shows "\<exists>r. k = own_prefix t @ r"
proof -
  obtain p now fetched where "p \<in> set (pass_puts now t fetched)" "k = fst p" using assms by auto
  from pass_puts_keys [OF this(1)] this(2) show ?thesis
    by (auto simp: own_prefix_def health_key_def sample_key_def)
qed

lemma own_prefix_inj:
  assumes "CHR ''/'' \<notin> set (tg_service t)" "CHR ''/'' \<notin> set (tg_service u)" "own_prefix t @ r = own_prefix u @ q"
  shows "(tg_as t, tg_service t) = (tg_as u, tg_service u)"
  using assms by (simp add: own_prefix_def itoa_sep_inj append_sep_inj)

lemma writers_apart: "targets_apart runs \<Longrightarrow> writers k (map target_puts runs) \<le> 1"
proof (induction runs)
  case (Cons run runs)
  obtain t ps where run: "run = (t, ps)" by (cases run)
  show ?case
  proof (cases "k \<in> fst ` set (target_puts run)")
    case True
    have "k \<notin> fst ` set (target_puts (u, qs))" if "(u, qs) \<in> set runs" for u qs
    proof
      assume "k \<in> fst ` set (target_puts (u, qs))"
      then obtain r q where "own_prefix t @ r = own_prefix u @ q"
        using target_puts_prefix True run by metis
      moreover have "CHR ''/'' \<notin> set (tg_service t)" "CHR ''/'' \<notin> set (tg_service u)"
        using Cons.prems that run by (auto simp: targets_apart_def)
      ultimately have "(tg_as t, tg_service t) = (tg_as u, tg_service u)" using own_prefix_inj by blast
      then show False using Cons.prems that run by (force simp: targets_apart_def)
    qed
    then have "filter (\<lambda>kvs. k \<in> fst ` set kvs) (map target_puts runs) = []"
      unfolding filter_empty_conv by (force simp del: target_puts.simps)
    then show ?thesis by (simp add: writers_def)
  next
    case False
    then show ?thesis using Cons by (auto simp: writers_def targets_apart_def)
  qed
qed (simp add: writers_def)

text \<open>
  C28: Scraping does not depend on how its goroutines are scheduled.  However the puts of the targets' goroutines
  interleave, and however many passes each makes, once all are done every series holds the samples it would hold
  had the targets been scraped one after the other; and every step brings the end nearer, so the goroutines of a
  pass do finish.
\<close>

theorem scrape_any_order:
  assumes "store_inv st" "targets_apart runs" "scrape_step\<^sup>*\<^sup>* (scrape_start st runs) (st', pend)"
  shows "((\<forall>kvs\<in>set pend. kvs = []) \<longrightarrow> (\<forall>k. store_hist st' k = store_hist (scrape_serial st runs) k)) \<and>
    ((\<exists>kvs\<in>set pend. kvs \<noteq> []) \<longrightarrow> (\<exists>s. scrape_step (st', pend) s)) \<and>
    (\<forall>st2 pend2. scrape_step (st', pend) (st2, pend2) \<longrightarrow> sum_list (map length pend2) < sum_list (map length pend))"
proof (intro conjI impI allI)
  fix k assume finished: "\<forall>kvs\<in>set pend. kvs = []"
  have "scrape_inv (scrape_start st runs)"
    using assms(1) writers_apart [OF assms(2)] by (simp add: scrape_inv_def scrape_start_def)
  from scrape_steps_due [OF assms(3) this] have inv: "store_inv st'" and eq: "due (st', pend) k = due (scrape_start st runs) k"
    by (simp_all add: scrape_inv_def)
  have "concat (map (key_samples k) pend) = []"
    using finished unfolding concat_eq_Nil_conv by auto
  then have "due (st', pend) k = store_hist st' k"
    using store_hist_le [OF inv, of k] unfolding due_def fst_conv snd_conv by (simp only: append_Nil2 take_last_all)
  moreover have "due (scrape_start st runs) k = store_hist (scrape_serial st runs) k"
    using assms(1)
    by (simp add: due_def scrape_start_def scrape_serial_puts puts_all_eq ring_store.hist_puts filter_concat map_concat o_def)
  ultimately show "store_hist st' k = store_hist (scrape_serial st runs) k" using eq by simp
next
  assume "\<exists>kvs\<in>set pend. kvs \<noteq> []"
  then obtain before k x rest behind where "pend = before @ ((k, x) # rest) # behind"
    by (metis split_list neq_Nil_conv surj_pair)
  then show "\<exists>s. scrape_step (st', pend) s" using scrape_step.intros by blast
next
  fix st2 pend2 assume "scrape_step (st', pend) (st2, pend2)"
  then show "sum_list (map length pend2) < sum_list (map length pend)"
    by (elim scrape_stepE) simp
qed

section \<open>Two targets\<close>

definition ex_runs :: "(target \<times> passes) list" where
  "ex_runs = [(\<lparr>tg_as = 150, tg_service = ''br'', tg_url = ''''\<rparr>, [(1, Inl ''refused'')]),
     (\<lparr>tg_as = 150, tg_service = ''cs'', tg_url = ''''\<rparr>, [(2, Inl ''refused''), (3, Inr Map.empty)])]"

definition ex_puts :: "(string \<times> sample) list list" where
  "ex_puts = [[(''150/br/_up/'', \<lparr>s_t = 1, s_v = Fin 0\<rparr>)],
     [(''150/cs/_up/'', \<lparr>s_t = 2, s_v = Fin 0\<rparr>), (''150/cs/_up/'', \<lparr>s_t = 3, s_v = Fin 1\<rparr>)]]"

lemma ex_start: "scrape_start st ex_runs = (st, ex_puts)"
proof -
  have "itoa 150 = ''150''" by code_simp
  then show ?thesis
    by (simp add: scrape_start_def ex_runs_def ex_puts_def pass_puts_def health_key_def family_puts_def concat_eq_Nil_conv)
qed

theorem scrape_any_order_witness:
  "\<exists>st'. scrape_step\<^sup>*\<^sup>* (scrape_start (store_new 4) ex_runs) (st', [[], []]) \<and>
     store_hist st' ''150/cs/_up/'' = store_hist (scrape_serial (store_new 4) ex_runs) ''150/cs/_up/''"
proof -
  let ?a = "(''150/br/_up/'', \<lparr>s_t = 1, s_v = Fin 0\<rparr>)" and ?b = "(''150/cs/_up/'', \<lparr>s_t = 2, s_v = Fin 0\<rparr>)"
    and ?c = "(''150/cs/_up/'', \<lparr>s_t = 3, s_v = Fin 1\<rparr>)"
  have "scrape_step (st, [[?a], [?b, ?c]]) (store_put st ''150/cs/_up/'' 2 (Fin 0), [[?a], [?c]])" for st
    using scrape_step.intros [of st "[[?a]]" "fst ?b" "snd ?b" "[?c]" "[]"] by simp
  moreover have "scrape_step (st, [[?a], [?c]]) (store_put st ''150/br/_up/'' 1 (Fin 0), [[], [?c]])" for st
    using scrape_step.intros [of st "[]" "fst ?a" "snd ?a" "[]" "[[?c]]"] by simp
  moreover have "scrape_step (st, [[], [?c]]) (store_put st ''150/cs/_up/'' 3 (Fin 1), [[], []])" for st
    using scrape_step.intros [of st "[[]]" "fst ?c" "snd ?c" "[]" "[]"] by simp
  ultimately have "\<exists>st'. scrape_step\<^sup>*\<^sup>* (scrape_start (store_new 4) ex_runs) (st', [[], []])"
    unfolding ex_start ex_puts_def by (meson converse_rtranclp_into_rtranclp rtranclp.rtrancl_refl)
  then obtain st' where st': "scrape_step\<^sup>*\<^sup>* (scrape_start (store_new 4) ex_runs) (st', [[], []])" by blast
  have "targets_apart ex_runs" by (simp add: targets_apart_def ex_runs_def)
  from scrape_any_order [OF store_inv_new this st'] st' show ?thesis by auto
qed

end
