(* ===== verification/IdintRun.thy ===== *)
theory IdintRun
  imports Idint
begin

text \<open>
  \<open>dashboard/backend/internal/idint/idint.go\<close>, \<open>Manager.Run\<close>: the loop that starts a probe at every tick of the
  timer unless the previous one is still running.  The loop, the goroutines it starts and the handlers that set and
  clear the session interleave; between the loop's look at the session and its swap of the flag anything may happen.
  The theorem: probes never overlap, the flag tells whether one runs, and every run of the loop is one of the
  interleavings of theory Idint, so that what is shown there holds of it.
\<close>

section \<open>The loop and its goroutines\<close>

text \<open>A goroutine has been started, waits for its probe, or has returned from \<open>TickOnce\<close> and has the flag to clear.\<close>

datatype tick_stage = Started | Probing trace_session | Returned

record run_sys =
  rs_sys :: trace_sys
  rs_seen_active :: bool
  rs_in_flight :: bool
  rs_ticks :: "tick_stage list"

definition run_init :: "graph \<Rightarrow> run_sys" where
  "run_init g = \<lparr>rs_sys = trace_init g, rs_seen_active = False, rs_in_flight = False, rs_ticks = []\<rparr>"

text \<open>The loop after a tick: the look at the session, then the swap.\<close>

definition run_look :: "run_sys \<Rightarrow> run_sys" where
  "run_look s = s\<lparr>rs_seen_active := mg_sess (ts_mgr (rs_sys s)) \<noteq> None\<rparr>"

definition run_swap :: "run_sys \<Rightarrow> run_sys" where
  "run_swap s = (let s1 = s\<lparr>rs_seen_active := False\<rparr> in
     if rs_in_flight s then s1 else s1\<lparr>rs_in_flight := True, rs_ticks := rs_ticks s @ [Started]\<rparr>)"

text \<open>The steps of the goroutine \<open>i\<close>: the session it takes, its probe's result, the flag.\<close>

definition go_begin :: "nat \<Rightarrow> run_sys \<Rightarrow> run_sys" where
  "go_begin i s = (case tick_begin (ts_mgr (rs_sys s)) of
     None \<Rightarrow> s\<lparr>rs_ticks := (rs_ticks s)[i := Returned]\<rparr>
   | Some se \<Rightarrow> s\<lparr>rs_sys := (rs_sys s)\<lparr>ts_flight := se # ts_flight (rs_sys s)\<rparr>, rs_ticks := (rs_ticks s)[i := Probing se]\<rparr>)"

definition go_end :: "int \<Rightarrow> string + probe_result \<Rightarrow> nat \<Rightarrow> trace_session \<Rightarrow> run_sys \<Rightarrow> run_sys" where
  "go_end now probed i se s = s\<lparr>
     rs_sys := (rs_sys s)\<lparr>ts_mgr := tick_end now se probed (ts_mgr (rs_sys s)), ts_flight := remove1 se (ts_flight (rs_sys s)),
       ts_probes := (case probed of Inl _ \<Rightarrow> ts_probes (rs_sys s) | Inr res \<Rightarrow> (se, res) # ts_probes (rs_sys s))\<rparr>,
     rs_ticks := (rs_ticks s)[i := Returned]\<rparr>"

definition go_clear :: "nat \<Rightarrow> run_sys \<Rightarrow> run_sys" where
  "go_clear i s = s\<lparr>rs_in_flight := False, rs_ticks := take i (rs_ticks s) @ drop (Suc i) (rs_ticks s)\<rparr>"

inductive run_step :: "run_sys \<Rightarrow> run_sys \<Rightarrow> bool" where
  run_set: "mgr_set src dst fp (ts_mgr (rs_sys s)) = Inr m \<Longrightarrow> run_step s (s\<lparr>rs_sys := (rs_sys s)\<lparr>ts_mgr := m\<rparr>\<rparr>)"
| run_clear: "run_step s (s\<lparr>rs_sys := (rs_sys s)\<lparr>ts_mgr := mgr_clear (ts_mgr (rs_sys s))\<rparr>\<rparr>)"
| run_tick: "\<not> rs_seen_active s \<Longrightarrow> run_step s (run_look s)"
| run_try: "rs_seen_active s \<Longrightarrow> run_step s (run_swap s)"
| run_begin: "i < length (rs_ticks s) \<Longrightarrow> rs_ticks s ! i = Started \<Longrightarrow> run_step s (go_begin i s)"
| run_end: "i < length (rs_ticks s) \<Longrightarrow> rs_ticks s ! i = Probing se \<Longrightarrow> run_step s (go_end now probed i se s)"
| run_return: "i < length (rs_ticks s) \<Longrightarrow> rs_ticks s ! i = Returned \<Longrightarrow> run_step s (go_clear i s)"

inductive_cases run_stepE: "run_step s s'"

section \<open>At most one probe\<close>

definition sessions_of :: "tick_stage list \<Rightarrow> trace_session list" where
  "sessions_of ts = concat (map (\<lambda>t. case t of Probing se \<Rightarrow> [se] | _ \<Rightarrow> []) ts)"

definition run_inv :: "graph \<Rightarrow> run_sys \<Rightarrow> bool" where
  "run_inv g s \<longleftrightarrow> trace_reachable g (rs_sys s) \<and> length (rs_ticks s) = (if rs_in_flight s then 1 else 0)
     \<and> ts_flight (rs_sys s) = sessions_of (rs_ticks s)"

lemma run_inv_one:
  assumes "run_inv g s" "i < length (rs_ticks s)" "rs_ticks s ! i = t"
  shows "i = 0 \<and> rs_ticks s = [t] \<and> rs_in_flight s"
  using assms by (auto simp: run_inv_def length_Suc_conv split: if_splits)

lemma run_step_inv:
  assumes "run_step s s'" "run_inv g s"
  shows "run_inv g s'"
  using assms
proof (induction rule: run_step.induct)
  case (run_set src dst fp s m)
  have "trace_step (rs_sys s) ((rs_sys s)\<lparr>ts_mgr := m\<rparr>)" using run_set.hyps by (rule tr_set)
  then show ?case using run_set.prems by (auto simp: run_inv_def intro: rtranclp.rtrancl_into_rtrancl)
next
  case (run_clear s)
  show ?case using run_clear tr_clear [of "rs_sys s"] by (auto simp: run_inv_def intro: rtranclp.rtrancl_into_rtrancl)
next
  case (run_begin i s)
  note one = run_inv_one [OF run_begin.prems run_begin.hyps]
  show ?case
  proof (cases "tick_begin (ts_mgr (rs_sys s))")
    case None
    then show ?thesis using run_begin.prems one by (auto simp: go_begin_def run_inv_def sessions_of_def)
  next
    case (Some se)
    have "trace_step (rs_sys s) ((rs_sys s)\<lparr>ts_flight := se # ts_flight (rs_sys s)\<rparr>)" using Some by (rule tr_begin)
    then show ?thesis using run_begin.prems one Some
      by (auto simp: go_begin_def run_inv_def sessions_of_def intro: rtranclp.rtrancl_into_rtrancl)
  qed
next
  case (run_end i s se now probed)
  note one = run_inv_one [OF run_end.prems run_end.hyps]
  have fl: "ts_flight (rs_sys s) = [se]" using run_end.prems one by (simp add: run_inv_def sessions_of_def)
  then have "trace_step (rs_sys s) (rs_sys (go_end now probed i se s))" using tr_end [of se "rs_sys s" probed now] fl by (simp add: go_end_def)
  then show ?case using run_end.prems one fl
    by (auto simp: go_end_def run_inv_def sessions_of_def intro: rtranclp.rtrancl_into_rtrancl)
next
  case (run_return i s)
  then show ?case using run_inv_one [OF run_return.prems run_return.hyps] by (auto simp: go_clear_def run_inv_def sessions_of_def)
qed (auto simp: run_inv_def run_look_def run_swap_def sessions_of_def Let_def)

section \<open>Properties\<close>

definition probing :: "run_sys \<Rightarrow> nat" where
  "probing s = length (filter (\<lambda>t. \<exists>se. t = Probing se) (rs_ticks s))"

text \<open>The goroutine's remaining steps, for the answer its probe gets.\<close>

definition go_finish :: "int \<Rightarrow> string + probe_result \<Rightarrow> run_sys \<Rightarrow> run_sys" where
  "go_finish now probed s = (case rs_ticks s of
     [Started] \<Rightarrow> (let s1 = go_begin 0 s in
        case rs_ticks s1 of [Probing se] \<Rightarrow> go_clear 0 (go_end now probed 0 se s1) | _ \<Rightarrow> go_clear 0 s1)
   | [Probing se] \<Rightarrow> go_clear 0 (go_end now probed 0 se s)
   | [Returned] \<Rightarrow> go_clear 0 s
   | _ \<Rightarrow> s)"

lemma go_finish_returned:
  assumes "rs_ticks s = [Returned]"
  shows "run_step\<^sup>*\<^sup>* s (go_clear 0 s) \<and> \<not> rs_in_flight (go_clear 0 s)"
  using run_return [of 0 s] assms by (auto simp: go_clear_def)

lemma go_finish_probing:
  assumes "rs_ticks s = [Probing se]"
  shows "run_step\<^sup>*\<^sup>* s (go_clear 0 (go_end now probed 0 se s)) \<and> \<not> rs_in_flight (go_clear 0 (go_end now probed 0 se s))"
proof -
  have "run_step s (go_end now probed 0 se s)" "rs_ticks (go_end now probed 0 se s) = [Returned]"
    using run_end [of 0 s se now probed] assms by (simp_all add: go_end_def)
  then show ?thesis using go_finish_returned by (meson converse_rtranclp_into_rtranclp)
qed

lemma go_finish_started:
  assumes "rs_ticks s = [Started]"
  shows "run_step\<^sup>*\<^sup>* s (go_finish now probed s) \<and> \<not> rs_in_flight (go_finish now probed s)"
proof -
  have step: "run_step s (go_begin 0 s)" using run_begin [of 0 s] assms by simp
  show ?thesis
  proof (cases "tick_begin (ts_mgr (rs_sys s))")
    case None
    then have ticks: "rs_ticks (go_begin 0 s) = [Returned]" using assms by (simp add: go_begin_def)
    then have "go_finish now probed s = go_clear 0 (go_begin 0 s)" using assms by (simp add: go_finish_def)
    then show ?thesis using go_finish_returned [OF ticks] step by (metis converse_rtranclp_into_rtranclp)
  next
    case (Some se)
    then have ticks: "rs_ticks (go_begin 0 s) = [Probing se]" using assms by (simp add: go_begin_def)
    then have "go_finish now probed s = go_clear 0 (go_end now probed 0 se (go_begin 0 s))" using assms by (simp add: go_finish_def)
    then show ?thesis using go_finish_probing [OF ticks] step by (metis converse_rtranclp_into_rtranclp)
  qed
qed

text \<open>
  C32: Probes of the trace session never overlap.  In every state the loop, its goroutines and the handlers can reach, at
  most one goroutine is alive, exactly when the flag is set, so at most one probe runs; the session's state is one that
  the interleavings of theory Idint reach; and the flag cannot get stuck: while it is set, the goroutine's own steps clear it,
  whatever its probe answers and whether or not the session is still there.
\<close>

theorem run_no_overlap:
  assumes "run_step\<^sup>*\<^sup>* (run_init g) s"
  shows "probing s \<le> 1 \<and> length (rs_ticks s) = (if rs_in_flight s then 1 else 0) \<and> trace_reachable g (rs_sys s)
    \<and> (rs_in_flight s \<longrightarrow> (\<forall>now probed. run_step\<^sup>*\<^sup>* s (go_finish now probed s) \<and> \<not> rs_in_flight (go_finish now probed s)))"
proof -
  have inv: "run_inv g s" using assms
  proof (induction rule: rtranclp_induct)
    case base
    show ?case by (simp add: run_inv_def run_init_def trace_init_def sessions_of_def)
  qed (rule run_step_inv)
  have "run_step\<^sup>*\<^sup>* s (go_finish now probed s) \<and> \<not> rs_in_flight (go_finish now probed s)" if flag: "rs_in_flight s" for now probed
  proof -
    obtain t where t: "rs_ticks s = [t]" using inv flag by (auto simp: run_inv_def length_Suc_conv)
    show ?thesis
      by (cases t) (use t go_finish_started [of s] go_finish_probing [of s] go_finish_returned [of s] in \<open>auto simp: go_finish_def\<close>)
  qed
  moreover have "probing s \<le> length (rs_ticks s)" by (simp add: probing_def)
  ultimately show ?thesis using inv by (auto simp: run_inv_def split: if_splits)
qed

theorem run_no_overlap_witness:
  "\<exists>s. run_step\<^sup>*\<^sup>* (run_init id_graph) s \<and> probing s \<le> 1 \<and> rs_ticks s = [Probing id_session] \<and> trace_reachable id_graph (rs_sys s)"
proof -
  let ?s1 = "(run_init id_graph)\<lparr>rs_sys := (rs_sys (run_init id_graph))\<lparr>ts_mgr := id_manager\<rparr>\<rparr>"
  let ?s3 = "run_swap (run_look ?s1)"
  have "run_step (run_init id_graph) ?s1" by (rule run_set [of 151 150 "''''"]) (simp add: run_init_def trace_init_def id_set)
  moreover have "run_step ?s1 (run_look ?s1)" by (rule run_tick) (simp add: run_init_def)
  moreover have "run_step (run_look ?s1) ?s3" by (rule run_try) (simp add: run_look_def id_tick)
  moreover have "run_step ?s3 (go_begin 0 ?s3)" by (rule run_begin) (simp_all add: run_swap_def run_look_def run_init_def Let_def)
  ultimately have "run_step\<^sup>*\<^sup>* (run_init id_graph) (go_begin 0 ?s3)" by (meson rtranclp.rtrancl_into_rtrancl rtranclp.rtrancl_refl)
  moreover have "rs_ticks (go_begin 0 ?s3) = [Probing id_session]"
    by (simp add: go_begin_def run_swap_def run_look_def run_init_def Let_def tick_begin_def id_tick)
  ultimately show ?thesis using run_no_overlap by blast
qed

end
