(* ===== verification/MockTrace.thy ===== *)
theory MockTrace
  imports Idint MockRoutes "HOL-Library.While_Combinator"
begin

text \<open>
  \<open>dashboard/backend/internal/mock/trace.go\<close>: the prober that synthesizes traces from the graph when the
  dashboard runs on synthetic data.  The search for candidate paths is the code's loop as \<open>while_option\<close>; it is
  shown to end with the shortest simple paths, and its probes to be drawn by the trace manager exactly on the
  links of the path they took.
\<close>

unbundle bit_operations_syntax

section \<open>The prober\<close>

record trace_edge =
  te_link :: link
  te_from :: endpoint
  te_to :: endpoint

abbreviation to_as :: "trace_edge \<Rightarrow> int" where
  "to_as e \<equiv> e_as (te_to e)"

record trace_path =
  tp_json :: path_json
  tp_edges :: "trace_edge list"

record trace_prober =
  tr_ia :: "int \<rightharpoonup> string"
  tr_adj :: "int \<Rightarrow> trace_edge list"

definition trace_prober_new :: "graph \<Rightarrow> trace_prober" where
  "trace_prober_new g = \<lparr>
     tr_ia = foldl (\<lambda>m a. m(a_num a \<mapsto> a_ia a)) Map.empty (g_ases g),
     tr_adj = foldl (\<lambda>adj l.
        (let adj1 = adj(e_as (l_a l) := adj (e_as (l_a l)) @ [\<lparr>te_link = l, te_from = l_a l, te_to = l_b l\<rparr>]) in
         adj1(e_as (l_b l) := adj1 (e_as (l_b l)) @ [\<lparr>te_link = l, te_from = l_b l, te_to = l_a l\<rparr>])))
       (\<lambda>_. []) (g_links g)\<rparr>"

definition prober_ia :: "trace_prober \<Rightarrow> int \<Rightarrow> string" where
  "prober_ia tp as = (case tr_ia tp as of None \<Rightarrow> '''' | Some ia \<Rightarrow> ia)"

section \<open>Paths\<close>

text \<open>FNV-1a of 32 bits.\<close>

definition fnv32a :: "string \<Rightarrow> 32 word" where
  "fnv32a s = foldl (\<lambda>h c. (h XOR of_nat (of_char c)) * 16777619) 2166136261 s"

definition link_base_us :: "string \<Rightarrow> int" where
  "link_base_us lid = 2000 + uint (fnv32a lid mod 6000)"

text \<open>\<open>n, _ := strconv.ParseUint(s, 10, 64)\<close>: 0 for a syntax error, the largest value for an overflow.\<close>

definition parse_uint64 :: "string \<Rightarrow> 64 word" where
  "parse_uint64 s = (if s = [] \<or> \<not> list_all is_digit s then 0
     else if digits_val s < 2 ^ 64 then of_nat (digits_val s) else - 1)"

definition max_trace_paths :: nat where "max_trace_paths = 3"
definition max_trace_depth :: nat where "max_trace_depth = 6"
definition trace_intra_as_us :: int where "trace_intra_as_us = 100"

fun path_ifaces :: "trace_prober \<Rightarrow> trace_edge list \<Rightarrow> iface_json list" where
  "path_ifaces tp [] = []"
| "path_ifaces tp (e # es) =
     \<lparr>if_ia = prober_ia tp (e_as (te_from e)), if_id = parse_uint64 (e_ifid (te_from e))\<rparr> #
     \<lparr>if_ia = prober_ia tp (to_as e), if_id = parse_uint64 (e_ifid (te_to e))\<rparr> # path_ifaces tp es"

fun path_latency :: "trace_edge list \<Rightarrow> int list" where
  "path_latency [] = []"
| "path_latency (e # es) = link_base_us (l_id (te_link e)) # (if es \<noteq> [] then [trace_intra_as_us] else []) @ path_latency es"

definition build_path :: "trace_prober \<Rightarrow> string \<Rightarrow> nat \<Rightarrow> trace_edge list \<Rightarrow> trace_path" where
  "build_path tp expiry i es = \<lparr>tp_json = \<lparr>pj_fingerprint = ''mock-'' @ itoa (int i), pj_mtu = 1472, pj_expiry = expiry,
     pj_ifaces = path_ifaces tp es, pj_latency = path_latency es\<rparr>, tp_edges = es\<rparr>"

section \<open>The search\<close>

text \<open>A partial path is the AS it has reached and its edges; the source and the ASes entered are visited.\<close>

type_synonym partial_path = "int \<times> trace_edge list"

definition extensions :: "trace_prober \<Rightarrow> int \<Rightarrow> partial_path \<Rightarrow> partial_path list" where
  "extensions tp src cur =
     (if max_trace_depth \<le> length (snd cur) then []
      else let visited = insert src (to_as ` set (snd cur)) in
        map (\<lambda>e. (to_as e, snd cur @ [e])) (filter (\<lambda>e. to_as e \<notin> visited) (tr_adj tp (fst cur))))"

fun search_step ::
  "trace_prober \<Rightarrow> string \<Rightarrow> int \<Rightarrow> int \<Rightarrow> partial_path list \<times> trace_path list \<Rightarrow> partial_path list \<times> trace_path list" where
  "search_step tp expiry src dst ([], found) = ([], found)"
| "search_step tp expiry src dst (cur # queue, found) =
     (if fst cur = dst \<and> snd cur \<noteq> [] then (queue, found @ [build_path tp expiry (length found) (snd cur)])
      else (queue @ extensions tp src cur, found))"

definition searching :: "partial_path list \<times> trace_path list \<Rightarrow> bool" where
  "searching s \<longleftrightarrow> fst s \<noteq> [] \<and> length (snd s) < max_trace_paths"

definition candidates :: "trace_prober \<Rightarrow> string \<Rightarrow> int \<Rightarrow> int \<Rightarrow> trace_path list option" where
  "candidates tp expiry src dst =
     map_option snd (while_option searching (search_step tp expiry src dst) ([(src, [])], []))"

section \<open>Answers\<close>

definition mock_paths :: "trace_prober \<Rightarrow> string \<Rightarrow> int \<Rightarrow> int \<Rightarrow> (string \<times> path_json list) option" where
  "mock_paths tp expiry src dst = map_option (\<lambda>cands. (prober_ia tp src, map tp_json cands)) (candidates tp expiry src dst)"

text \<open>A link's round-trip time now, in microseconds: its base and the delay it is shaped with.\<close>

definition edge_rtt :: "(string \<rightharpoonup> shaping) \<Rightarrow> trace_edge \<Rightarrow> int" where
  "edge_rtt shaped e = (let rtt = link_base_us (l_id (te_link e)) in
     case shaped (l_id (te_link e)) of None \<Rightarrow> rtt
     | Some p \<Rightarrow> (case delay_ms p of None \<Rightarrow> rtt | Some d \<Rightarrow> wrap64 (rtt + f64_to_int64 (d * Fin 1000))))"

definition plain_record :: "int \<Rightarrow> string \<Rightarrow> hop_record" where
  "plain_record hop ia = \<lparr>hr_hop = hop, hr_ia = ia, hr_source = False, hr_ingress = False, hr_egress = False,
     hr_aggregated = False, hr_encrypted = False, hr_verified = True, hr_node_id = None, hr_igr_ifid = None,
     hr_egr_ifid = None, hr_rtt_next = None, hr_tx_pct = None, hr_tstamp = None, hr_queue = None\<rparr>"

definition egress_record :: "trace_prober \<Rightarrow> (string \<rightharpoonup> shaping) \<Rightarrow> nat \<Rightarrow> trace_edge \<Rightarrow> hop_record" where
  "egress_record tp shaped i e = (plain_record (int i + 1) (prober_ia tp (to_as e)))
     \<lparr>hr_egress := True, hr_node_id := Some 1, hr_rtt_next := Some (edge_rtt shaped e),
      hr_tx_pct := Some (f64_of_rat (4/10)), hr_queue := Some 0\<rparr>"

definition select_candidate :: "trace_path list \<Rightarrow> string \<Rightarrow> trace_path option" where
  "select_candidate cands fp = (if fp = '''' then Some (hd cands) else find (\<lambda>c. pj_fingerprint (tp_json c) = fp) cands)"

definition probe_candidate ::
  "trace_prober \<Rightarrow> (string \<rightharpoonup> shaping) \<Rightarrow> int \<Rightarrow> int \<Rightarrow> trace_path \<Rightarrow> probe_result" where
  "probe_candidate tp shaped src dst c =
     (let es = tp_edges c;
          fwd = (plain_record 0 (prober_ia tp src))\<lparr>hr_source := True\<rparr> #
            map2 (egress_record tp shaped) [0..<length es] es @
            [(plain_record (int (length es) + 1) (prober_ia tp dst))\<lparr>hr_ingress := True\<rparr>];
          rttSum = foldl (\<lambda>acc e. wrap64 (acc + edge_rtt shaped e)) 0 es in
      \<lparr>pr_path = tp_json c, pr_rtt_ms = f64_of_int rttSum / Fin 1000 + Fin 1, pr_exceeded = False,
       pr_fwd = fwd, pr_rev = rev fwd\<rparr>)"

definition mock_probe ::
  "trace_prober \<Rightarrow> string \<Rightarrow> (string \<rightharpoonup> shaping) \<Rightarrow> int \<Rightarrow> int \<Rightarrow> string \<Rightarrow> (string + probe_result) option" where
  "mock_probe tp expiry shaped src dst fp = map_option (\<lambda>cands.
     if cands = [] then Inl (''mock trace: no path '' @ itoa src @ ''->'' @ itoa dst)
     else case select_candidate cands fp of
         None \<Rightarrow> Inl ''fingerprint not found''
       | Some c \<Rightarrow> Inr (probe_candidate tp shaped src dst c)) (candidates tp expiry src dst)"

section \<open>What the search yields\<close>

text \<open>The loop takes partial paths in the order of their levels.\<close>

definition hit :: "int \<Rightarrow> partial_path \<Rightarrow> bool" where
  "hit dst p \<longleftrightarrow> fst p = dst \<and> snd p \<noteq> []"

definition extend_all :: "trace_prober \<Rightarrow> int \<Rightarrow> int \<Rightarrow> partial_path list \<Rightarrow> partial_path list" where
  "extend_all tp src dst ps = concat (map (extensions tp src) (filter (\<lambda>p. \<not> hit dst p) ps))"

fun hits_from :: "trace_prober \<Rightarrow> int \<Rightarrow> int \<Rightarrow> nat \<Rightarrow> partial_path list \<Rightarrow> trace_edge list list" where
  "hits_from tp src dst 0 ps = map snd (filter (hit dst) ps)"
| "hits_from tp src dst (Suc n) ps = map snd (filter (hit dst) ps) @ hits_from tp src dst n (extend_all tp src dst ps)"

definition built :: "trace_prober \<Rightarrow> string \<Rightarrow> trace_edge list list \<Rightarrow> trace_path list" where
  "built tp expiry ess = map2 (build_path tp expiry) [0..<length ess] ess"

lemma length_built [simp]: "length (built tp expiry ess) = length ess"
  by (simp add: built_def)

lemma built_Nil: "built tp expiry [] = []"
  by (simp add: built_def)

lemma built_snoc:
  "built tp expiry ess @ [build_path tp expiry (length ess) es] = built tp expiry (ess @ [es])"
  by (simp add: built_def)

lemma edges_built [simp]: "map tp_edges (built tp expiry ess) = ess"
  by (rule nth_equalityI) (simp_all add: built_def build_path_def)

lemma while_stop: "\<not> b s \<Longrightarrow> while_option b c s = Some s"
  by (subst while_option_unfold) simp

lemma while_step: "b s \<Longrightarrow> while_option b c s = while_option b c (c s)"
  by (subst while_option_unfold) simp

lemma extend_all_simps [simp]:
  "extend_all tp src dst [] = []"
  "extend_all tp src dst (p # ps) = (if hit dst p then [] else extensions tp src p) @ extend_all tp src dst ps"
  by (simp_all add: extend_all_def)

definition rest_hits :: "trace_prober \<Rightarrow> int \<Rightarrow> int \<Rightarrow> nat \<Rightarrow> partial_path list \<Rightarrow> partial_path list \<Rightarrow> trace_edge list list" where
  "rest_hits tp src dst n xs ys = map snd (filter (hit dst) xs) @
     (case n of 0 \<Rightarrow> [] | Suc m \<Rightarrow> hits_from tp src dst m (ys @ extend_all tp src dst xs))"

lemma rest_hits_from: "rest_hits tp src dst n xs [] = hits_from tp src dst n xs"
  by (cases n) (simp_all add: rest_hits_def)

lemma extensions_length: "p \<in> set (extensions tp src cur) \<Longrightarrow> length (snd p) = Suc (length (snd cur))"
  by (auto simp: extensions_def Let_def split: if_splits)

lemma search_step_cases:
  "search_step tp expiry src dst (p # queue, found) =
     (if hit dst p then (queue, found @ [build_path tp expiry (length found) (snd p)]) else (queue @ extensions tp src p, found))"
  by (simp add: hit_def)

text \<open>A queue of partial paths of one length followed by extensions of those already taken.\<close>

lemma search_runs:
  assumes "\<forall>p\<in>set xs. length (snd p) + n = max_trace_depth"
    and "\<forall>p\<in>set ys. length (snd p) + n = Suc max_trace_depth" "n = 0 \<longrightarrow> ys = []"
    and "length ess \<le> max_trace_paths"
  shows "\<exists>queue. while_option searching (search_step tp expiry src dst) (xs @ ys, built tp expiry ess) =
    Some (queue, built tp expiry (take max_trace_paths (ess @ rest_hits tp src dst n xs ys)))"
  using assms
proof (induction n arbitrary: xs ys ess)
  case 0
  from "0.prems"(1,3,4) show ?case
  proof (induction xs arbitrary: ess)
    case Nil
    then show ?case by (simp add: while_stop searching_def rest_hits_def)
  next
    case (Cons p xs)
    show ?case
    proof (cases "length ess < max_trace_paths")
      case True
      then have "searching ((p # xs) @ ys, built tp expiry ess)" by (simp add: searching_def)
      note step = while_step [of searching, OF this, of "search_step tp expiry src dst"]
      have ext: "extensions tp src p = []" using Cons.prems(1) by (simp add: extensions_def)
      show ?thesis
      proof (cases "hit dst p")
        case hit: True
        with Cons.IH [of "ess @ [snd p]"] Cons.prems True show ?thesis
          unfolding step by (simp add: search_step_cases built_snoc rest_hits_def del: search_step.simps)
      next
        case False
        with Cons.IH [of ess] Cons.prems ext show ?thesis
          unfolding step by (simp add: search_step_cases rest_hits_def del: search_step.simps)
      qed
    next
      case False
      with Cons.prems(3) show ?thesis by (simp add: while_stop searching_def)
    qed
  qed
next
  case (Suc n)
  from Suc.prems(1,2,4) show ?case
  proof (induction xs arbitrary: ys ess)
    case Nil
    have "n = 0 \<longrightarrow> [] = ([] :: partial_path list)" by simp
    from Suc.IH [of ys "[]" ess] Nil.prems show ?case
      by (simp add: rest_hits_from) (simp add: rest_hits_def)
  next
    case (Cons p xs)
    show ?case
    proof (cases "length ess < max_trace_paths")
      case True
      then have "searching ((p # xs) @ ys, built tp expiry ess)" by (simp add: searching_def)
      note step = while_step [of searching, OF this, of "search_step tp expiry src dst"]
      show ?thesis
      proof (cases "hit dst p")
        case hit: True
        with Cons.IH [of ys "ess @ [snd p]"] Cons.prems True show ?thesis
          unfolding step by (simp add: search_step_cases built_snoc rest_hits_def del: search_step.simps)
      next
        case False
        have "length (snd q) + Suc n = Suc max_trace_depth" if "q \<in> set (extensions tp src p)" for q
          using extensions_length [OF that] Cons.prems(1) by simp
        then have "\<forall>q\<in>set (ys @ extensions tp src p). length (snd q) + Suc n = Suc max_trace_depth"
          using Cons.prems(2) by auto
        with Cons.IH [of "ys @ extensions tp src p" ess] Cons.prems False show ?thesis
          unfolding step by (simp add: search_step_cases rest_hits_def del: search_step.simps)
      qed
    next
      case False
      with Cons.prems(3) show ?thesis by (simp add: while_stop searching_def)
    qed
  qed
qed

lemma candidates_hits:
  "candidates tp expiry src dst =
     Some (built tp expiry (take max_trace_paths (hits_from tp src dst max_trace_depth [(src, [])])))"
proof -
  have "\<exists>queue. while_option searching (search_step tp expiry src dst) ([(src, [])] @ [], built tp expiry []) =
      Some (queue, built tp expiry (take max_trace_paths ([] @ rest_hits tp src dst max_trace_depth [(src, [])] [])))"
    by (rule search_runs) simp_all
  then show ?thesis
    unfolding rest_hits_from candidates_def append_Nil append_Nil2 built_Nil by (elim exE) simp
qed

text \<open>The levels of the search are all simple partial paths of their length that have not met the destination.\<close>

fun joined :: "trace_prober \<Rightarrow> int \<Rightarrow> trace_edge list \<Rightarrow> bool" where
  "joined tp a [] = True"
| "joined tp a (e # es) = (e \<in> set (tr_adj tp a) \<and> joined tp (to_as e) es)"

definition end_as :: "int \<Rightarrow> trace_edge list \<Rightarrow> int" where
  "end_as src es = (if es = [] then src else to_as (last es))"

text \<open>A route enters every AS at most once, never the source again, and the destination last.\<close>

definition trace_route :: "trace_prober \<Rightarrow> int \<Rightarrow> int \<Rightarrow> trace_edge list \<Rightarrow> bool" where
  "trace_route tp src dst es \<longleftrightarrow> joined tp src es \<and> distinct (src # map to_as es) \<and> es \<noteq> [] \<and> end_as src es = dst"

definition partial_route :: "trace_prober \<Rightarrow> int \<Rightarrow> int \<Rightarrow> nat \<Rightarrow> trace_edge list \<Rightarrow> bool" where
  "partial_route tp src dst d es \<longleftrightarrow> joined tp src es \<and> distinct (src # map to_as es) \<and> length es = d \<and>
     dst \<notin> to_as ` set (butlast es)"

lemma joined_snoc: "joined tp a (es @ [e]) \<longleftrightarrow> joined tp a es \<and> e \<in> set (tr_adj tp (end_as a es))"
  by (induction es arbitrary: a) (auto simp: end_as_def)

fun level :: "trace_prober \<Rightarrow> int \<Rightarrow> int \<Rightarrow> nat \<Rightarrow> partial_path list" where
  "level tp src dst 0 = [(src, [])]"
| "level tp src dst (Suc d) = extend_all tp src dst (level tp src dst d)"

lemma partial_route_snoc:
  "partial_route tp src dst (Suc d) (es @ [e]) \<longleftrightarrow> partial_route tp src dst d es \<and> \<not> hit dst (end_as src es, es) \<and>
     e \<in> set (tr_adj tp (end_as src es)) \<and> to_as e \<notin> insert src (to_as ` set es)"
proof -
  have "dst \<notin> to_as ` set es \<longleftrightarrow> dst \<notin> to_as ` set (butlast es) \<and> \<not> hit dst (end_as src es, es)"
    by (cases es rule: rev_cases) (auto simp: hit_def end_as_def)
  then show ?thesis by (auto simp: partial_route_def joined_snoc)
qed

lemma extend_all_set: "p \<in> set (extend_all tp src dst ps) \<longleftrightarrow> (\<exists>q. q \<in> set ps \<and> \<not> hit dst q \<and> p \<in> set (extensions tp src q))"
  by (auto simp: extend_all_def)

lemma extensions_set:
  "p \<in> set (extensions tp src q) \<longleftrightarrow> length (snd q) < max_trace_depth \<and>
     (\<exists>e. e \<in> set (tr_adj tp (fst q)) \<and> to_as e \<notin> insert src (to_as ` set (snd q)) \<and> p = (to_as e, snd q @ [e]))"
  by (auto simp: extensions_def Let_def)

lemma in_concat_upt: "x \<in> set (concat (map f [0..<n])) \<longleftrightarrow> (\<exists>i<n. x \<in> set (f i))"
  by auto

lemma level_set:
  "d \<le> max_trace_depth \<Longrightarrow> p \<in> set (level tp src dst d) \<longleftrightarrow> partial_route tp src dst d (snd p) \<and> fst p = end_as src (snd p)"
proof (induction d arbitrary: p)
  case 0
  show ?case by (cases p) (auto simp: partial_route_def end_as_def)
next
  case (Suc d)
  have IH: "q \<in> set (level tp src dst d) \<longleftrightarrow> partial_route tp src dst d (snd q) \<and> fst q = end_as src (snd q)" for q
    using Suc by simp
  have "p \<in> set (level tp src dst (Suc d)) \<longleftrightarrow> (\<exists>q e. q \<in> set (level tp src dst d) \<and> \<not> hit dst q \<and>
      e \<in> set (tr_adj tp (fst q)) \<and> to_as e \<notin> insert src (to_as ` set (snd q)) \<and> p = (to_as e, snd q @ [e]))"
    using Suc.prems IH by (auto simp: extend_all_set extensions_set partial_route_def)
  also have "\<dots> \<longleftrightarrow> (\<exists>es e. partial_route tp src dst (Suc d) (es @ [e]) \<and> p = (to_as e, es @ [e]))"
    unfolding IH partial_route_snoc by (cases p) force
  also have "\<dots> \<longleftrightarrow> partial_route tp src dst (Suc d) (snd p) \<and> fst p = end_as src (snd p)"
    by (cases p; cases "snd p" rule: rev_cases) (auto simp: end_as_def partial_route_def)
  finally show ?case .
qed

lemma hits_from_level:
  "hits_from tp src dst n (level tp src dst d) =
     concat (map (\<lambda>i. map snd (filter (hit dst) (level tp src dst i))) [d..<Suc (d + n)])"
proof (induction n arbitrary: d)
  case (Suc n)
  have "[d..<Suc (d + Suc n)] = d # [Suc d..<Suc (Suc d + n)]" by (simp add: upt_conv_Cons)
  with Suc.IH [of "Suc d"] show ?case by simp
qed simp

definition all_hits :: "trace_prober \<Rightarrow> int \<Rightarrow> int \<Rightarrow> trace_edge list list" where
  "all_hits tp src dst = hits_from tp src dst max_trace_depth [(src, [])]"

lemma all_hits_levels:
  "all_hits tp src dst = concat (map (\<lambda>i. map snd (filter (hit dst) (level tp src dst i))) [0..<Suc max_trace_depth])"
  using hits_from_level [of tp src dst max_trace_depth 0] by (simp add: all_hits_def)

lemma level_hit:
  assumes "d \<le> max_trace_depth"
  shows "es \<in> snd ` set (filter (hit dst) (level tp src dst d)) \<longleftrightarrow> trace_route tp src dst es \<and> length es = d"
proof -
  have "es \<in> snd ` set (filter (hit dst) (level tp src dst d)) \<longleftrightarrow>
      partial_route tp src dst d es \<and> hit dst (end_as src es, es)"
    using level_set [OF assms, of _ tp src dst] by (force simp: image_iff)
  also have "\<dots> \<longleftrightarrow> trace_route tp src dst es \<and> length es = d"
    by (cases es rule: rev_cases) (auto simp: partial_route_def trace_route_def hit_def end_as_def)
  finally show ?thesis .
qed

lemma set_all_hits: "es \<in> set (all_hits tp src dst) \<longleftrightarrow> trace_route tp src dst es \<and> length es \<le> max_trace_depth"
proof -
  have "es \<in> set (all_hits tp src dst) \<longleftrightarrow>
      (\<exists>d\<le>max_trace_depth. es \<in> snd ` set (filter (hit dst) (level tp src dst d)))"
    unfolding all_hits_levels in_concat_upt set_map less_Suc_eq_le by (rule refl)
  also have "\<dots> \<longleftrightarrow> (\<exists>d\<le>max_trace_depth. trace_route tp src dst es \<and> length es = d)"
    by (intro ex_cong1 conj_cong refl level_hit)
  finally show ?thesis by auto
qed

lemma sorted_map_concat:
  assumes "\<And>i x. i \<le> n \<Longrightarrow> x \<in> set (f i) \<Longrightarrow> length x = i"
  shows "sorted (map length (concat (map f [0..<Suc n])))"
  using assms
proof (induction n)
  case (Suc n)
  have "map length (f (Suc n)) = replicate (length (f (Suc n))) (Suc n)"
    using map_cong [OF refl, of "f (Suc n)" length "\<lambda>_. Suc n"] Suc.prems by (simp add: map_replicate_const)
  then have "sorted (map length (f (Suc n)))" by simp
  moreover have "length x \<le> length y" if "x \<in> set (concat (map f [0..<Suc n]))" "y \<in> set (f (Suc n))" for x y
    using Suc.prems that unfolding in_concat_upt less_Suc_eq_le by (metis le_SucI le_refl)
  moreover have "concat (map f [0..<Suc (Suc n)]) = concat (map f [0..<Suc n]) @ f (Suc n)" by simp
  ultimately show ?case
    using Suc.IH Suc.prems unfolding \<open>concat (map f [0..<Suc (Suc n)]) = _\<close> map_append sorted_append
    by (auto simp del: upt_Suc concat.simps)
next
  case 0
  then show ?case using map_cong [OF refl, of "f 0" length "\<lambda>_. 0"] by (simp add: map_replicate_const)
qed

lemma sorted_all_hits: "sorted (map length (all_hits tp src dst))"
  unfolding all_hits_levels
proof (rule sorted_map_concat)
  fix i x assume i: "i \<le> max_trace_depth" and x: "x \<in> set (map snd (filter (hit dst) (level tp src dst i)))"
  from x have "x \<in> snd ` set (filter (hit dst) (level tp src dst i))" by (simp only: set_map)
  then show "length x = i" unfolding level_hit [OF i] by (rule conjunct2)
qed

lemma taken_first:
  assumes "sorted (map length xs)" "x \<in> set xs" "x \<notin> set (take n xs)"
  shows "length (take n xs) = n \<and> (\<forall>y \<in> set (take n xs). length y \<le> length x)"
proof -
  have "x \<in> set (take n xs) \<union> set (drop n xs)"
    using assms(2) by (metis append_take_drop_id set_append)
  then have x: "x \<in> set (drop n xs)" using assms(3) by simp
  then have "n \<le> length xs" by (cases "n \<le> length xs") auto
  moreover have "sorted (map length (take n xs) @ map length (drop n xs))"
    using assms(1) by (metis append_take_drop_id map_append)
  then have "\<forall>y \<in> set (take n xs). length y \<le> length x" using x by (auto simp: sorted_append)
  ultimately show ?thesis by simp
qed

lemma candidates_built:
  "candidates tp expiry src dst = Some (built tp expiry (take max_trace_paths (all_hits tp src dst)))"
  by (simp only: candidates_hits all_hits_def)

lemma candidates_edges:
  assumes "candidates tp expiry src dst = Some ps"
  shows "map tp_edges ps = take max_trace_paths (all_hits tp src dst)"
  using assms by (simp only: candidates_built option.inject) auto

lemma candidates_routes:
  assumes "candidates tp expiry src dst = Some ps" "c \<in> set ps"
  shows "trace_route tp src dst (tp_edges c) \<and> length (tp_edges c) \<le> 6"
proof -
  have "tp_edges c \<in> set (map tp_edges ps)" using assms(2) by simp
  then have "tp_edges c \<in> set (all_hits tp src dst)"
    unfolding candidates_edges [OF assms(1)] by (rule in_set_takeD)
  then show ?thesis by (simp add: set_all_hits max_trace_depth_def)
qed

lemma candidates_first:
  assumes "candidates tp expiry src dst = Some ps" "ps \<noteq> []" "trace_route tp src dst es"
  shows "length (tp_edges (hd ps)) \<le> length es"
proof (cases "length es \<le> 6")
  case True
  then have "es \<in> set (all_hits tp src dst)" using assms(3) by (simp add: set_all_hits max_trace_depth_def)
  moreover have "tp_edges (hd ps) = hd (all_hits tp src dst)"
    using candidates_edges [OF assms(1)] assms(2)
    by (cases ps; cases "all_hits tp src dst") (auto simp: max_trace_paths_def)
  moreover have "length (hd xs) \<le> length x" if "sorted (map length xs)" "x \<in> set xs" for xs and x :: "trace_edge list"
    using that by (cases xs) auto
  ultimately show ?thesis using sorted_all_hits by metis
next
  case False
  then show ?thesis using candidates_routes [OF assms(1), of "hd ps"] assms(2) by simp
qed

lemma candidates_json:
  assumes "candidates tp expiry src dst = Some ps" "c \<in> set ps"
  shows "\<exists>i. c = build_path tp expiry i (tp_edges c)"
  using assms unfolding candidates_built option.inject built_def
  by (auto simp: set_zip build_path_def)

text \<open>
  C38: The search for candidate paths always ends, within the shortest simple routes.  It yields at most three
  paths, each a chain of links from source to destination that enters no AS twice and has at most six links, in
  the order of their lengths, and named by their place; and a route of at most six links that is not among them
  is no shorter than any of the three that are.
\<close>

theorem candidates_shortest:
  shows "\<exists>ps. candidates tp expiry src dst = Some ps \<and> length ps \<le> 3 \<and>
    sorted (map (\<lambda>p. length (tp_edges p)) ps) \<and>
    map (\<lambda>p. pj_fingerprint (tp_json p)) ps = map (\<lambda>i. ''mock-'' @ itoa (int i)) [0..<length ps] \<and>
    (\<forall>p\<in>set ps. trace_route tp src dst (tp_edges p) \<and> length (tp_edges p) \<le> 6) \<and>
    (\<forall>es. trace_route tp src dst es \<and> length es \<le> 6 \<longrightarrow>
       es \<in> tp_edges ` set ps \<or> length ps = 3 \<and> (\<forall>p\<in>set ps. length (tp_edges p) \<le> length es))"
proof -
  obtain ps where ps: "candidates tp expiry src dst = Some ps" "ps = built tp expiry (take max_trace_paths (all_hits tp src dst))"
    by (simp add: candidates_built)
  define ess where "ess = map tp_edges ps"
  have ess: "ess = take max_trace_paths (all_hits tp src dst)"
    using candidates_edges [OF ps(1)] by (simp only: ess_def)
  have edges: "length ps = length ess" "tp_edges ` set ps = set ess" by (simp_all add: ess_def)
  have "length ps \<le> 3" unfolding edges(1) ess by (simp add: max_trace_paths_def)
  moreover have "sorted (map length ess)"
    using sorted_all_hits [of tp src dst] by (simp add: ess take_map [symmetric] sorted_wrt_take)
  then have "sorted (map (\<lambda>p. length (tp_edges p)) ps)" by (simp add: ess_def o_def)
  moreover have "map (\<lambda>p. pj_fingerprint (tp_json p)) ps = map (\<lambda>i. ''mock-'' @ itoa (int i)) [0..<length ps]"
    by (rule nth_equalityI) (simp_all add: ps(2) built_def build_path_def)
  moreover note candidates_routes [OF ps(1)]
  moreover have "es \<in> tp_edges ` set ps \<or> length ps = 3 \<and> (\<forall>p\<in>set ps. length (tp_edges p) \<le> length es)"
    if "trace_route tp src dst es" "length es \<le> 6" for es
  proof (cases "es \<in> set ess")
    case False
    have "es \<in> set (all_hits tp src dst)" using that by (simp add: set_all_hits max_trace_depth_def)
    from taken_first [OF sorted_all_hits this False [unfolded ess]]
    have "length ess = 3" "\<forall>y\<in>set ess. length y \<le> length es" by (simp_all add: ess max_trace_paths_def)
    then show ?thesis unfolding edges [symmetric] by simp
  qed (simp add: edges(2))
  ultimately show ?thesis using ps(1) by blast
qed

section \<open>Probes and the view of the manager\<close>

text \<open>The names of the graph agree: an interface's ISD-AS is that of its AS, and its id is a decimal number.\<close>

definition names_agree :: "graph \<Rightarrow> bool" where
  "names_agree g \<longleftrightarrow> (\<forall>l\<in>set (g_links g). \<forall>e\<in>{l_a l, l_b l}.
     prober_ia (trace_prober_new g) (e_as e) = e_ia e \<and> named (\<lambda>e. parse_uint64 (e_ifid e)) e)"

definition edge_of :: "graph \<Rightarrow> trace_edge \<Rightarrow> bool" where
  "edge_of g e \<longleftrightarrow> te_link e \<in> set (g_links g) \<and>
     ((te_from e, te_to e) = (l_a (te_link e), l_b (te_link e)) \<or> (te_from e, te_to e) = (l_b (te_link e), l_a (te_link e)))"

lemma adj_edge: "e \<in> set (tr_adj (trace_prober_new g) a) \<Longrightarrow> edge_of g e \<and> e_as (te_from e) = a"
proof -
  let ?add = "\<lambda>adj l. (let adj1 = adj(e_as (l_a l) := adj (e_as (l_a l)) @ [\<lparr>te_link = l, te_from = l_a l, te_to = l_b l\<rparr>]) in
     adj1(e_as (l_b l) := adj1 (e_as (l_b l)) @ [\<lparr>te_link = l, te_from = l_b l, te_to = l_a l\<rparr>]))"
  have "\<forall>a. \<forall>e \<in> set (foldl ?add (\<lambda>_. []) ls a). e_as (te_from e) = a \<and> te_link e \<in> set ls \<and>
      ((te_from e, te_to e) = (l_a (te_link e), l_b (te_link e)) \<or> (te_from e, te_to e) = (l_b (te_link e), l_a (te_link e)))" for ls
    by (induction ls rule: rev_induct) (auto simp: Let_def)
  then show "e \<in> set (tr_adj (trace_prober_new g) a) \<Longrightarrow> edge_of g e \<and> e_as (te_from e) = a"
    by (simp add: trace_prober_new_def edge_of_def)
qed

lemma joined_edges: "joined (trace_prober_new g) a es \<Longrightarrow> \<forall>e\<in>set es. edge_of g e"
  using adj_edge by (induction es arbitrary: a) auto

definition crossing :: "trace_edge \<Rightarrow> link \<times> bool" where
  "crossing e = (te_link e, (te_from e, te_to e) = (l_a (te_link e), l_b (te_link e)))"

lemma crossing_ends: "edge_of g e \<Longrightarrow> step_ends (crossing e) = (te_from e, te_to e)"
  by (auto simp: edge_of_def step_ends_def crossing_def)

lemma edge_names:
  assumes "names_agree g" "edge_of g e"
  shows "prober_ia (trace_prober_new g) (e_as (te_from e)) = e_ia (te_from e)" "named (\<lambda>e. parse_uint64 (e_ifid e)) (te_from e)"
    and "prober_ia (trace_prober_new g) (to_as e) = e_ia (te_to e)"
  using assms by (auto simp: names_agree_def edge_of_def)

lemma path_ifaces_walk:
  assumes "names_agree g" "\<forall>e\<in>set es. edge_of g e"
  shows "path_ifaces (trace_prober_new g) es = walk_ifaces (\<lambda>e. parse_uint64 (e_ifid e)) (map crossing es)"
  using assms(2)
  by (induction es) (simp_all add: walk_ifaces_def iface_of_def crossing_ends [of g] edge_names [OF assms(1)])

lemma path_links:
  assumes "wf_graph g" "names_agree g" "\<forall>e\<in>set es. edge_of g e" "mg_link m = mg_link (manager_new g)"
  shows "mgr_pair_links m (path_ifaces (trace_prober_new g) es) = Inr (map (\<lambda>e. l_id (te_link e)) es)"
proof -
  have "fst ` set (map crossing es) \<subseteq> set (g_links g)"
    using assms(3) by (auto simp: edge_of_def crossing_def)
  moreover have "\<forall>st\<in>set (map crossing es). named (\<lambda>e. parse_uint64 (e_ifid e)) (fst (step_ends st))"
    using assms(3) edge_names [OF assms(2)] by (auto simp: crossing_ends [of g])
  ultimately have "pair_loop (mg_link m) (walk_ifaces (\<lambda>e. parse_uint64 (e_ifid e)) (map crossing es)) =
      Inr (map (\<lambda>st. l_id (fst st)) (map crossing es))"
    using pair_loop_walk [OF assms(1)] assms(4) by simp
  then show ?thesis
    using assms(2,3) by (simp add: mgr_pair_links_def path_ifaces_walk length_walk_ifaces crossing_def o_def)
qed

lemma egress_probe:
  "egress_records (pr_fwd (probe_candidate tp shaped src dst c)) =
     map2 (egress_record tp shaped) [0..<length (tp_edges c)] (tp_edges c)"
proof -
  have "filter hr_egress (map2 (egress_record tp shaped) is es) = map2 (egress_record tp shaped) is es" for "is" es
    by (induction "is" es rule: list_induct2') (simp_all add: egress_record_def)
  then show ?thesis by (simp add: probe_candidate_def egress_records_def plain_record_def Let_def)
qed

text \<open>
  C39: In mock mode every trace is drawn exactly on the links it took.  Whatever is shaped, a probe that answers
  took a simple route of at most six links, the named one or else a shortest; and the view the trace manager
  builds of the answer shows the links of that route in order, and on each its synthetic round-trip time, base
  and shaping, under the AS it enters.
\<close>

theorem mock_trace_view:
  assumes "wf_graph g" "names_agree g" "mg_link m = mg_link (manager_new g)" "tp = trace_prober_new g"
    and "mock_probe tp expiry shaped src dst fp = Some (Inr res)"
  shows "\<exists>es vm. trace_route tp src dst es \<and> length es \<le> 6 \<and>
    (if fp = '''' then \<forall>es'. trace_route tp src dst es' \<longrightarrow> length es \<le> length es' else pj_fingerprint (pr_path res) = fp) \<and>
    build_vm now m s res = Inr vm \<and> tv_links vm = map (\<lambda>e. l_id (te_link e)) es \<and> length (tv_hops vm) = length es \<and>
    (\<forall>i<length es. th_link (tv_hops vm ! i) = l_id (te_link (es ! i)) \<and>
       th_ia (tv_hops vm ! i) = e_ia (te_to (es ! i)) \<and> th_rtt (tv_hops vm ! i) = Some (edge_rtt shaped (es ! i)))"
proof -
  obtain ps c where ps: "candidates tp expiry src dst = Some ps" "ps \<noteq> []" "select_candidate ps fp = Some c"
    and res: "res = probe_candidate tp shaped src dst c"
    using assms(5) by (auto simp: mock_probe_def split: if_splits option.splits)
  let ?es = "tp_edges c"
  have c: "c \<in> set ps" "fp \<noteq> '''' \<Longrightarrow> pj_fingerprint (tp_json c) = fp"
    using ps(2,3) by (auto simp: select_candidate_def find_Some_iff split: if_splits)
  have route: "trace_route tp src dst ?es" "length ?es \<le> 6"
    using candidates_routes [OF ps(1)] c(1) by auto
  have short: "length ?es \<le> length es'" if "fp = ''''" "trace_route tp src dst es'" for es'
    using candidates_first [OF ps(1,2) that(2)] ps(3) that(1) route(2) by (simp add: select_candidate_def)
  have edges: "\<forall>e\<in>set ?es. edge_of g e"
    using route(1) joined_edges assms(4) by (auto simp: trace_route_def)
  obtain i where "c = build_path tp expiry i ?es" using candidates_json [OF ps(1) c(1)] by blast
  then have "pj_ifaces (tp_json c) = path_ifaces tp ?es" by (metis build_path_def path_json.select_convs(4) trace_path.select_convs(1))
  then have "pj_ifaces (pr_path res) = path_ifaces tp ?es" by (simp add: res probe_candidate_def Let_def)
  then have links: "mgr_pair_links m (pj_ifaces (pr_path res)) = Inr (map (\<lambda>e. l_id (te_link e)) ?es)"
    using path_links [OF assms(1,2) edges assms(3)] assms(4) by simp
  note fwd = egress_probe [of tp shaped src dst c, folded res]
  define vm where "vm = projr (build_vm now m s res)"
  have vm: "build_vm now m s res = Inr vm"
    "tv_links vm = map (\<lambda>e. l_id (te_link e)) ?es"
    "tv_hops vm = map2 trace_hop_of (map2 (egress_record tp shaped) [0..<length ?es] ?es) (map (\<lambda>e. l_id (te_link e)) ?es)"
    unfolding vm_def by (simp_all add: build_vm_def links fwd Let_def)
  have "prober_ia tp (to_as (?es ! i)) = e_ia (te_to (?es ! i))" if "i < length ?es" for i
    using edge_names(3) [OF assms(2)] edges that assms(4) by simp
  then have "\<forall>i<length ?es. th_link (tv_hops vm ! i) = l_id (te_link (?es ! i)) \<and>
      th_ia (tv_hops vm ! i) = e_ia (te_to (?es ! i)) \<and> th_rtt (tv_hops vm ! i) = Some (edge_rtt shaped (?es ! i))"
    by (simp add: vm(3) trace_hop_of_def egress_record_def plain_record_def)
  moreover have "fp \<noteq> '''' \<Longrightarrow> pj_fingerprint (pr_path res) = fp"
    using c(2) by (simp add: res probe_candidate_def Let_def)
  ultimately show ?thesis
    using route short vm by (intro exI [of _ ?es] exI [of _ vm]) auto
qed

section \<open>A concrete graph\<close>

definition ex_edge :: trace_edge where
  "ex_edge = \<lparr>te_link = hd (g_links id_graph), te_from = id_end 150, te_to = id_end 151\<rparr>"

lemma ex_edge_route: "trace_route (trace_prober_new id_graph) 150 151 [ex_edge]"
  by (simp add: trace_route_def end_as_def trace_prober_new_def id_graph_def ex_edge_def id_end_def Let_def)

theorem candidates_shortest_witness:
  "\<exists>ps. candidates (trace_prober_new id_graph) '''' 150 151 = Some ps \<and>
     ([ex_edge] \<in> tp_edges ` set ps \<or> length ps = 3 \<and> (\<forall>p\<in>set ps. length (tp_edges p) \<le> 1))"
proof -
  obtain ps where "candidates (trace_prober_new id_graph) '''' 150 151 = Some ps"
    "\<forall>es. trace_route (trace_prober_new id_graph) 150 151 es \<and> length es \<le> 6 \<longrightarrow>
       es \<in> tp_edges ` set ps \<or> length ps = 3 \<and> (\<forall>p\<in>set ps. length (tp_edges p) \<le> length es)"
    using candidates_shortest [of "trace_prober_new id_graph" "''''" 150 151] by blast
  with ex_edge_route show ?thesis by fastforce
qed

lemma ex_names: "names_agree id_graph"
proof -
  have ia: "prober_ia (trace_prober_new id_graph) 150 = ''1-150''" "prober_ia (trace_prober_new id_graph) 151 = ''1-151''"
    by (simp_all add: prober_ia_def trace_prober_new_def id_graph_def)
  have digits: "itoa 150 = ''150''" "itoa 151 = ''151''" "itoa 2 = ''2''" by code_simp+
  then have ends: "e_ia (id_end 150) = ''1-150''" "e_ia (id_end 151) = ''1-151''" "e_as (id_end n) = n" "e_ifid (id_end n) = ''2''" for n
    by (simp_all add: id_end_def)
  have "as_num_of ''1-150'' = Inr 150" "as_num_of ''1-151'' = Inr 151" by code_simp+
  moreover have "parse_uint64 ''2'' = 2"
    by (simp add: parse_uint64_def is_digit_def digits_val_def digit_val_def)
  ultimately have "named (\<lambda>e. parse_uint64 (e_ifid e)) (id_end 150)" "named (\<lambda>e. parse_uint64 (e_ifid e)) (id_end 151)"
    using digits by (simp_all add: named_def ends)
  moreover have "g_links id_graph = [\<lparr>l_id = ''150-151'', l_type = ''core'', l_subnet = ''link 1'', l_a = id_end 150, l_b = id_end 151\<rparr>]"
    by (simp add: id_graph_def)
  ultimately show ?thesis using ia ends by (simp add: names_agree_def)
qed

theorem mock_trace_view_witness:
  "\<exists>res vm. mock_probe (trace_prober_new id_graph) '''' Map.empty 150 151 '''' = Some (Inr res) \<and>
     build_vm 7 id_manager id_session res = Inr vm \<and> length (tv_hops vm) = length (tv_links vm)"
proof -
  have "[ex_edge] \<in> set (all_hits (trace_prober_new id_graph) 150 151)"
    using ex_edge_route by (simp add: set_all_hits max_trace_depth_def)
  moreover obtain ps where ps: "candidates (trace_prober_new id_graph) '''' 150 151 = Some ps"
    by (simp add: candidates_built)
  ultimately have "ps \<noteq> []" using candidates_edges [OF ps] by (auto simp: max_trace_paths_def)
  with ps obtain res where res: "mock_probe (trace_prober_new id_graph) '''' Map.empty 150 151 '''' = Some (Inr res)"
    by (simp add: mock_probe_def select_candidate_def)
  have wf: "wf_graph id_graph" by code_simp
  have "\<exists>se v l. id_manager = (manager_new id_graph)\<lparr>mg_sess := se, mg_vm := v, mg_latest := l\<rparr>"
    using id_set [symmetric] by (auto simp: mgr_set_def Let_def split: option.splits)
  then have "mg_link id_manager = mg_link (manager_new id_graph)" by (elim exE, drule_tac f = mg_link in arg_cong) simp
  from mock_trace_view [OF wf ex_names this refl res, of 7 id_session] res show ?thesis by (metis length_map)
qed

end
