(* ===== verification/MockGen.thy ===== *)
theory MockGen
  imports MockRoutes Scrape
begin

text \<open>
  \<open>dashboard/backend/internal/mock/mock.go\<close>: the generator that stands in for the scraper.  The random draws are an
  argument (\<open>math/rand\<close> is a sequence of floats in \<open>[0, 1)\<close> and of integers taken modulo a bound); \<open>Step\<close> reads
  the shaping map once per link, so the map may change between two links of a step, which is the argument
  \<open>looks\<close>.  The theorems: the generated values stay in the documented bounds and the counters never decrease,
  and the dashboard sees exactly the pinned link down.
\<close>

section \<open>Random draws\<close>

record rng =
  rg_floats :: "nat \<Rightarrow> f64"
  rg_ints :: "nat \<Rightarrow> int"
  rg_used :: nat

definition draw_float :: "rng \<Rightarrow> f64 \<times> rng" where
  "draw_float r = (rg_floats r (rg_used r), r\<lparr>rg_used := Suc (rg_used r)\<rparr>)"

definition draw_int :: "int \<Rightarrow> rng \<Rightarrow> int \<times> rng" where
  "draw_int n r = (rg_ints r (rg_used r) mod n, r\<lparr>rg_used := Suc (rg_used r)\<rparr>)"

section \<open>Bounds and helpers\<close>

abbreviation dec :: "rat \<Rightarrow> f64" where
  "dec \<equiv> f64_of_rat"

definition rtt_min :: f64 where "rtt_min = dec (1/2)"
definition rtt_max :: f64 where "rtt_max = Fin 500"
definition ambient_min :: f64 where "ambient_min = dec (3/10)"
definition ambient_max :: f64 where "ambient_max = Fin 2"
definition burst_min :: f64 where "burst_min = Fin 20"
definition burst_max :: f64 where "burst_max = Fin 40"

definition clamp :: "f64 \<Rightarrow> f64 \<Rightarrow> f64 \<Rightarrow> f64" where
  "clamp v lo hi = (if v < lo then lo else if hi < v then hi else v)"

definition gen_walk :: "rng \<Rightarrow> f64 \<Rightarrow> f64 \<Rightarrow> f64 \<Rightarrow> f64 \<Rightarrow> f64 \<times> rng" where
  "gen_walk r cur target noise revert =
     (let (x, r1) = draw_float r; cur1 = cur + (x * Fin 2 - Fin 1) * noise in (cur1 + (target - cur1) * revert, r1))"

definition shaped_rtt :: "rng \<Rightarrow> f64 \<Rightarrow> shaping \<Rightarrow> f64 \<times> rng" where
  "shaped_rtt r base p =
     (let v1 = (case delay_ms p of None \<Rightarrow> base | Some d \<Rightarrow> base + d);
          (v2, r1) = (case jitter_ms p of None \<Rightarrow> (v1, r) | Some j \<Rightarrow> let (x, r1) = draw_float r in (v1 + j * (x - dec (1/2)), r1));
          (y, r2) = draw_float r1 in
      (v2 + (y * Fin 2 - Fin 1) * dec (15/100), r2))"

definition mbit_to_bytes :: "f64 \<Rightarrow> f64" where
  "mbit_to_bytes mbit = mbit * Fin 1000000 / Fin 8 * Fin 1"

definition beacons_key :: "endpoint \<Rightarrow> string" where
  "beacons_key e = itoa (e_as e) @ ''/cs/beacons_recv/'' @ e_ifid e"

section \<open>The generator\<close>

record link_gen =
  lg_link :: link
  lg_down :: bool
  lg_base_a :: f64
  lg_base_b :: f64
  lg_rtt_a :: f64
  lg_rtt_b :: f64
  lg_amb_ab :: f64
  lg_amb_ba :: f64
  lg_out_a :: f64
  lg_in_a :: f64
  lg_out_b :: f64
  lg_in_b :: f64
  lg_beacon_a :: f64
  lg_beacon_b :: f64

record generator =
  gn_ases :: "as_info list"
  gn_links :: "link_gen list"
  gn_rng :: rng
  gn_burst :: nat
  gn_burst_mbit :: f64

definition down_link :: string where "down_link = ''150-154''"

definition new_link_gen :: "link \<Rightarrow> rng \<Rightarrow> link_gen \<times> rng" where
  "new_link_gen l r =
     (let (x1, r1) = draw_float r; (x2, r2) = draw_float r1; (x3, r3) = draw_float r2; (x4, r4) = draw_float r3;
          baseA = Fin 2 + x1 * Fin 3; baseB = Fin 2 + x2 * Fin 3 in
      (\<lparr>lg_link = l, lg_down = (l_id l = down_link), lg_base_a = baseA, lg_base_b = baseB, lg_rtt_a = baseA, lg_rtt_b = baseB,
        lg_amb_ab = ambient_min + x3 * dec (17/10), lg_amb_ba = ambient_min + x4 * dec (17/10),
        lg_out_a = Fin 0, lg_in_a = Fin 0, lg_out_b = Fin 0, lg_in_b = Fin 0, lg_beacon_a = Fin 0, lg_beacon_b = Fin 0\<rparr>, r4))"

fun new_link_gens :: "link list \<Rightarrow> rng \<Rightarrow> link_gen list \<times> rng" where
  "new_link_gens [] r = ([], r)"
| "new_link_gens (l # ls) r = (let (lg, r1) = new_link_gen l r; (lgs, r2) = new_link_gens ls r1 in (lg # lgs, r2))"

definition gen_new :: "graph \<Rightarrow> rng \<Rightarrow> generator" where
  "gen_new g r =
     (let (lgs, r1) = new_link_gens (g_links g) r;
          (i, r2) = (if lgs \<noteq> [] then draw_int (int (length lgs)) r1 else (0, r1));
          (x, r3) = draw_float r2 in
      \<lparr>gn_ases = g_ases g, gn_links = lgs, gn_rng = r3, gn_burst = nat i, gn_burst_mbit = burst_min + x * Fin 20\<rparr>)"

section \<open>A step\<close>

text \<open>The search for the next link that is up, in one direction; the budget is the loop's bound.\<close>

fun next_up :: "link_gen list \<Rightarrow> int \<Rightarrow> nat \<Rightarrow> nat \<Rightarrow> nat option" where
  "next_up lgs dir i 0 = None"
| "next_up lgs dir i (Suc k) =
     (let n = int (length lgs); j = nat (go_rem (int i + dir + n) n) in
      if \<not> lg_down (lgs ! j) then Some j else next_up lgs dir j k)"

definition move_burst :: "generator \<Rightarrow> generator" where
  "move_burst gn =
     (if length (gn_links gn) < 2 then gn
      else let (x, r1) = draw_float (gn_rng gn) in
        if dec (5/100) \<le> x then gn\<lparr>gn_rng := r1\<rparr>
        else let (c, r2) = draw_int 2 r1; dir = (if c \<noteq> 0 then - 1 else 1) in
          (case next_up (gn_links gn) dir (gn_burst gn) (length (gn_links gn)) of
             None \<Rightarrow> gn\<lparr>gn_rng := r2\<rparr>
           | Some j \<Rightarrow> gn\<lparr>gn_rng := r2, gn_burst := j\<rparr>))"

definition capped :: "shaping option \<Rightarrow> f64 \<Rightarrow> f64" where
  "capped p mbit = (case p of None \<Rightarrow> mbit
   | Some s \<Rightarrow> (case rate_mbit s of None \<Rightarrow> mbit | Some r \<Rightarrow> if r < mbit then r else mbit))"

definition loss_factor :: "shaping option \<Rightarrow> f64" where
  "loss_factor p = (case p of None \<Rightarrow> Fin 1
   | Some s \<Rightarrow> (case loss_pct s of None \<Rightarrow> Fin 1
     | Some x \<Rightarrow> let f = Fin 1 - x / Fin 100 in if f < Fin 0 then Fin 0 else f))"

definition link_puts :: "link_gen \<Rightarrow> int \<Rightarrow> (string \<times> sample) list" where
  "link_puts lg now =
     (let a = l_a (lg_link lg); b = l_b (lg_link lg); up = (if lg_down lg then Fin 0 else Fin 1);
          put = (\<lambda>k v. (k, \<lparr>s_t = now, s_v = v\<rparr>)) in
      [put (rtt_key a) (lg_rtt_a lg), put (rtt_key b) (lg_rtt_b lg), put (out_key a) (lg_out_a lg), put (in_key a) (lg_in_a lg),
       put (out_key b) (lg_out_b lg), put (in_key b) (lg_in_b lg), put (up_key a) up, put (up_key b) up,
       put (beacons_key a) (lg_beacon_a lg), put (beacons_key b) (lg_beacon_b lg)])"

definition step_link :: "f64 \<Rightarrow> (string \<rightharpoonup> shaping) \<Rightarrow> bool \<Rightarrow> link_gen \<Rightarrow> rng \<Rightarrow> link_gen \<times> rng" where
  "step_link burst_mbit shaped burst lg r =
     (let p = (if lg_down lg then None else shaped (l_id (lg_link lg)));
          (va, r1) = (case p of Some s \<Rightarrow> shaped_rtt r (lg_base_a lg) s
            | None \<Rightarrow> gen_walk r (lg_rtt_a lg) (lg_base_a lg) (dec (1/4)) (dec (2/10)));
          (vb, r2) = (case p of Some s \<Rightarrow> shaped_rtt r1 (lg_base_b lg) s
            | None \<Rightarrow> gen_walk r1 (lg_rtt_b lg) (lg_base_b lg) (dec (1/4)) (dec (2/10)));
          (wab, r3) = gen_walk r2 (lg_amb_ab lg) (dec (115/100)) (dec (15/100)) (dec (1/10));
          (wba, r4) = gen_walk r3 (lg_amb_ba lg) (dec (115/100)) (dec (15/100)) (dec (1/10));
          ab = clamp wab ambient_min ambient_max; ba = clamp wba ambient_min ambient_max;
          mab = (if lg_down lg then Fin 0 else capped p (if burst then ab + burst_mbit else ab));
          mba = (if lg_down lg then Fin 0 else capped p (if burst then ba + burst_mbit else ba));
          (x, r5) = (if lg_down lg then (Fin 0, r4) else let (x, r5) = draw_float r4 in (Fin 1 + x * Fin 2, r5));
          (y, r6) = (if lg_down lg then (Fin 0, r5) else let (y, r6) = draw_float r5 in (Fin 1 + y * Fin 2, r6));
          f = loss_factor p in
      (lg\<lparr>lg_rtt_a := clamp va rtt_min rtt_max, lg_rtt_b := clamp vb rtt_min rtt_max, lg_amb_ab := ab, lg_amb_ba := ba,
        lg_out_a := lg_out_a lg + mbit_to_bytes mab, lg_in_b := lg_in_b lg + mbit_to_bytes (mab * f),
        lg_out_b := lg_out_b lg + mbit_to_bytes mba, lg_in_a := lg_in_a lg + mbit_to_bytes (mba * f),
        lg_beacon_a := lg_beacon_a lg + x * Fin 1, lg_beacon_b := lg_beacon_b lg + y * Fin 1\<rparr>, r6))"

fun step_links ::
  "f64 \<Rightarrow> (nat \<Rightarrow> string \<rightharpoonup> shaping) \<Rightarrow> nat \<Rightarrow> nat \<Rightarrow> link_gen list \<Rightarrow> rng \<Rightarrow> link_gen list \<times> rng" where
  "step_links burst_mbit looks burst i [] r = ([], r)"
| "step_links burst_mbit looks burst i (lg # lgs) r =
     (let (lg1, r1) = step_link burst_mbit (looks i) (i = burst) lg r;
          (lgs1, r2) = step_links burst_mbit looks burst (Suc i) lgs r1 in (lg1 # lgs1, r2))"

definition service_puts :: "as_info list \<Rightarrow> int \<Rightarrow> (string \<times> sample) list" where
  "service_puts ases now = concat (map (\<lambda>a. map (\<lambda>svc. (service_key (a_num a) svc, \<lparr>s_t = now, s_v = Fin 1\<rparr>))
     [''br'', ''cs'', ''sd'']) ases)"

definition gen_step :: "generator \<Rightarrow> (nat \<Rightarrow> string \<rightharpoonup> shaping) \<Rightarrow> int \<Rightarrow> store \<Rightarrow> generator \<times> store" where
  "gen_step gn0 looks now st =
     (let gn1 = move_burst gn0;
          (w, r1) = gen_walk (gn_rng gn1) (gn_burst_mbit gn1) (Fin 30) (Fin 3) (dec (15/100));
          m = clamp w burst_min burst_max;
          (lgs, r2) = step_links m looks (gn_burst gn1) 0 (gn_links gn1) r1 in
      (gn1\<lparr>gn_rng := r2, gn_burst_mbit := m, gn_links := lgs\<rparr>,
       puts_all st (concat (map (\<lambda>lg. link_puts lg now) lgs) @ service_puts (gn_ases gn1) now)))"

section \<open>Sizes of intermediate values\<close>

definition small :: "nat \<Rightarrow> f64 \<Rightarrow> bool" where
  "small k x \<longleftrightarrow> (\<exists>q. x = Fin q \<and> \<bar>q\<bar> \<le> 2 ^ k)"

named_theorems small_intros \<open>sizes of sums and products\<close>

lemma small_rat: "\<bar>q\<bar> \<le> 2 ^ k \<Longrightarrow> k \<le> 1000 \<Longrightarrow> small k (f64_of_rat q)"
proof -
  assume q: "\<bar>q\<bar> \<le> 2 ^ k" and k: "k \<le> 1000"
  have "rnd q \<le> rnd (2 ^ k)" "rnd (- (2 ^ k)) \<le> rnd q" using q by (intro rnd_mono; linarith)+
  moreover have "f64_of_rat q = Fin (rnd q)"
    using q pow2_le_f64_max [of k] k by (intro f64_of_rat_small) linarith
  ultimately show ?thesis by (auto simp: small_def rnd_minus)
qed

lemma small_mono: "small j x \<Longrightarrow> j \<le> k \<Longrightarrow> small k x"
proof -
  assume x: "small j x" and k: "j \<le> k"
  have "(2::rat) ^ j \<le> 2 ^ k" using k by (rule power_increasing) simp
  moreover obtain q where "x = Fin q" "\<bar>q\<bar> \<le> 2 ^ j" using x unfolding small_def by blast
  ultimately show ?thesis unfolding small_def using order_trans by blast
qed

lemma small_add [small_intros]:
  assumes "small k x" "small k y" "k < 1000"
  shows "small (Suc k) (x + y)"
proof -
  obtain a b where ab: "x = Fin a" "y = Fin b" "\<bar>a\<bar> \<le> 2 ^ k" "\<bar>b\<bar> \<le> 2 ^ k" using assms by (auto simp: small_def)
  then have "\<bar>a + b\<bar> \<le> 2 ^ Suc k" using abs_triangle_ineq [of a b] by simp
  then show ?thesis using small_rat [of "a + b" "Suc k"] assms(3) ab by simp
qed

lemma small_sub [small_intros]:
  assumes "small k x" "small k y" "k < 1000"
  shows "small (Suc k) (x - y)"
proof -
  obtain a b where ab: "x = Fin a" "y = Fin b" "\<bar>a\<bar> \<le> 2 ^ k" "\<bar>b\<bar> \<le> 2 ^ k" using assms by (auto simp: small_def)
  then have "\<bar>a - b\<bar> \<le> 2 ^ Suc k" using abs_triangle_ineq4 [of a b] by simp
  then show ?thesis using small_rat [of "a - b" "Suc k"] assms(3) ab by simp
qed

lemma small_mul [small_intros]:
  assumes "small j x" "small k y" "j + k \<le> 1000"
  shows "small (j + k) (x * y)"
proof -
  obtain a b where ab: "x = Fin a" "y = Fin b" "\<bar>a\<bar> \<le> 2 ^ j" "\<bar>b\<bar> \<le> 2 ^ k" using assms by (auto simp: small_def)
  then have "\<bar>a * b\<bar> \<le> 2 ^ (j + k)" by (simp add: abs_mult power_add mult_mono)
  then show ?thesis using small_rat [of "a * b" "j + k"] assms(3) ab by simp
qed

lemma small_dec [small_intros]: "\<bar>q\<bar> \<le> 1 \<Longrightarrow> small 0 (dec q)"
  using small_rat [of q 0] by simp

lemma small_not_NaN: "small k x \<Longrightarrow> x \<noteq> NaN"
  by (auto simp: small_def)

definition unit_rng :: "rng \<Rightarrow> bool" where
  "unit_rng r \<longleftrightarrow> (\<forall>i. \<exists>q. rg_floats r i = Fin q \<and> 0 \<le> q \<and> q \<le> 1)"

lemma draw_float_unit:
  assumes "unit_rng r" "draw_float r = (x, r1)"
  shows "unit_rng r1" "\<exists>q. x = Fin q \<and> 0 \<le> q \<and> q \<le> 1" "small 0 x"
proof -
  show "unit_rng r1" using assms by (auto simp: draw_float_def unit_rng_def)
  obtain q where "rg_floats r (rg_used r) = Fin q" and q: "0 \<le> q" "q \<le> 1" using assms(1) unfolding unit_rng_def by blast
  then have x: "x = Fin q" using assms(2) by (simp add: draw_float_def)
  then show "\<exists>q. x = Fin q \<and> 0 \<le> q \<and> q \<le> 1" using q by blast
  show "small 0 x" using x q unfolding small_def by simp
qed

lemma small_centred:
  assumes "small 0 x"
  shows "small 2 (x * Fin 2 - Fin 1)"
proof -
  have "small 1 (Fin 2)" and one: "small 1 (Fin 1)" by (simp_all add: small_def)
  from small_mul [OF assms this(1)] have "small 1 (x * Fin 2)" by simp
  from small_sub [OF this one] show ?thesis by (simp add: numeral_2_eq_2)
qed

lemma draw_int_unit: "unit_rng r \<Longrightarrow> draw_int n r = (x, r1) \<Longrightarrow> unit_rng r1"
  by (auto simp: draw_int_def unit_rng_def)

definition inside :: "f64 \<Rightarrow> f64 \<Rightarrow> f64 \<Rightarrow> bool" where
  "inside lo hi x \<longleftrightarrow> lo \<le> x \<and> x \<le> hi"

lemma clamp_inside: "v \<noteq> NaN \<Longrightarrow> lo \<le> hi \<Longrightarrow> inside lo hi (clamp v lo hi)"
  by (cases v; cases lo; cases hi) (auto simp: inside_def clamp_def)

lemma inside_small: "inside (Fin a) (Fin b) x \<Longrightarrow> 0 \<le> a \<Longrightarrow> b \<le> 2 ^ k \<Longrightarrow> small k x"
  by (cases x) (auto simp: inside_def small_def)

lemma gen_walk_unit:
  assumes "unit_rng r" "small 9 cur" "small 9 target" "small 2 noise" "small 0 revert"
    and "gen_walk r cur target noise revert = (v, r1)"
  shows "unit_rng r1" "v \<noteq> NaN"
proof -
  obtain x where x: "draw_float r = (x, r1)"
    "v = (cur + (x * Fin 2 - Fin 1) * noise) + (target - (cur + (x * Fin 2 - Fin 1) * noise)) * revert"
    using assms(6) by (auto simp: gen_walk_def Let_def split: prod.splits)
  have "small 2 (x * Fin 2 - Fin 1)"
    using draw_float_unit(3) [OF assms(1) x(1)] by (rule small_centred)
  from small_mul [OF this assms(4)] have "small 9 ((x * Fin 2 - Fin 1) * noise)" by (auto intro: small_mono)
  from small_add [OF assms(2) this] have cur1: "small 10 (cur + (x * Fin 2 - Fin 1) * noise)" by simp
  from small_sub [OF small_mono [OF assms(3)] this] have "small 11 (target - (cur + (x * Fin 2 - Fin 1) * noise))" by simp
  from small_mul [OF this assms(5)] small_mono [OF cur1, of 11] small_add [of 11] show "v \<noteq> NaN"
    unfolding x(2) by (intro small_not_NaN [of 12]) simp
  show "unit_rng r1" using draw_float_unit(1) [OF assms(1) x(1)] .
qed

text \<open>What JSON can say of a shape: numbers a double can hold.\<close>

definition json_shape :: "shaping \<Rightarrow> bool" where
  "json_shape p \<longleftrightarrow> (\<forall>x \<in> {delay_ms p, jitter_ms p, loss_pct p, rate_mbit p}. case x of None \<Rightarrow> True
     | Some v \<Rightarrow> is_f64 v \<and> (\<exists>q. v = Fin q))"

lemma json_shape_fields:
  assumes "json_shape p" "x \<in> {delay_ms p, jitter_ms p, loss_pct p, rate_mbit p}" "x = Some v"
  shows "\<exists>q. v = Fin q \<and> rnd q = q \<and> \<bar>q\<bar> \<le> f64_max"
proof -
  have "case x of None \<Rightarrow> True | Some v \<Rightarrow> is_f64 v \<and> (\<exists>q. v = Fin q)"
    using assms(1,2) unfolding json_shape_def by blast
  then show ?thesis using assms(3) by auto
qed

lemma add_Fin_not_NaN': "x \<noteq> NaN \<Longrightarrow> x + Fin q \<noteq> NaN"
  by (cases x) (auto simp: f64_defs)

lemma shaped_rtt_unit:
  assumes "unit_rng r" "json_shape p" "small 9 base" "shaped_rtt r base p = (v, r1)"
  shows "unit_rng r1" "v \<noteq> NaN"
proof -
  obtain v1 v2 r2 y where steps: "v1 = (case delay_ms p of None \<Rightarrow> base | Some d \<Rightarrow> base + d)"
    "(v2, r2) = (case jitter_ms p of None \<Rightarrow> (v1, r) | Some j \<Rightarrow> let (x, r1) = draw_float r in (v1 + j * (x - dec (1/2)), r1))"
    "draw_float r2 = (y, r1)" "v = v2 + (y * Fin 2 - Fin 1) * dec (15/100)"
    using assms(4) by (auto simp: shaped_rtt_def Let_def split: prod.splits)
  have v1: "v1 \<noteq> NaN"
  proof (cases "delay_ms p")
    case None
    then show ?thesis using assms(3) steps(1) by (auto simp: small_def)
  next
    case (Some d)
    then obtain q where "d = Fin q" using json_shape_fields [OF assms(2), of "delay_ms p" d] by auto
    then show ?thesis using Some steps(1) small_not_NaN [OF assms(3)] by (simp add: add_Fin_not_NaN')
  qed
  moreover have jit: "\<exists>q. j * (x - dec (1/2)) = Fin q" if jj: "jitter_ms p = Some j" "draw_float r = (x, r2)" for j x
  proof -
    obtain a where a: "j = Fin a" "\<bar>a\<bar> \<le> f64_max" using json_shape_fields [OF assms(2) _ jj(1)] by auto
    obtain q where q: "x = Fin q" "0 \<le> q" "q \<le> 1" using draw_float_unit(2) [OF assms(1) jj(2)] by blast
    have half: "dec (1/2) = Fin (1/2)" by code_simp
    have "\<bar>q - 1/2\<bar> \<le> 1/2" using q unfolding abs_le_iff by (intro conjI; linarith)
    then have "rnd (q - 1/2) \<le> rnd (1/2)" "rnd (- (1/2)) \<le> rnd (q - 1/2)" by (intro rnd_mono; linarith)+
    moreover have "rnd (1/2) = 1/2" using rnd_powi [of "- 1"] by (simp add: power_int_def)
    ultimately have s: "\<bar>rnd (q - 1/2)\<bar> \<le> 1/2" by (simp add: rnd_minus abs_le_iff)
    have "x - dec (1/2) = Fin (rnd (q - 1/2))"
      unfolding q(1) half f64_sub_Fin using \<open>\<bar>q - 1/2\<bar> \<le> 1/2\<close> f64_max_pos
      by (intro f64_of_rat_small) (simp add: f64_max_def)
    moreover have "\<bar>a\<bar> * \<bar>rnd (q - 1/2)\<bar> \<le> f64_max * 1"
      using a(2) s by (intro mult_mono) auto
    then have "\<bar>a * rnd (q - 1/2)\<bar> \<le> f64_max" by (simp add: abs_mult)
    ultimately show ?thesis using a(1) by (simp add: f64_of_rat_small)
  qed
  ultimately have "v2 \<noteq> NaN \<and> unit_rng r2"
  proof (cases "jitter_ms p")
    case (Some j)
    obtain x where x: "draw_float r = (x, r2)" "v2 = v1 + j * (x - dec (1/2))" using steps(2) Some by (auto simp: Let_def split: prod.splits)
    then obtain q where "j * (x - dec (1/2)) = Fin q" using jit [OF Some x(1)] by blast
    then show ?thesis using x \<open>v1 \<noteq> NaN\<close> draw_float_unit(1) [OF assms(1) x(1)] by (simp add: add_Fin_not_NaN')
  qed (use steps(2) assms(1) in simp)
  moreover have "\<exists>q. (y * Fin 2 - Fin 1) * dec (15/100) = Fin q" if "unit_rng r2"
  proof -
    have "small 2 (y * Fin 2 - Fin 1)"
      using draw_float_unit(3) [OF that steps(3)] by (rule small_centred)
    from small_mul [OF this small_dec [of "15/100"]] show ?thesis by (auto simp: small_def)
  qed
  ultimately show "v \<noteq> NaN" unfolding steps(4) using add_Fin_not_NaN' by metis
  show "unit_rng r1" using draw_float_unit(1) steps(3) \<open>v2 \<noteq> NaN \<and> unit_rng r2\<close> by blast
qed


section \<open>The draws of a new generator\<close>

lemma f64_mono_add: "x \<le> Fin a \<Longrightarrow> Fin l \<le> x \<Longrightarrow> f64_of_rat (b + l) \<le> Fin b + x \<and> Fin b + x \<le> f64_of_rat (b + a)"
  by (cases x) (auto intro: f64_of_rat_mono)

lemma draw_range:
  assumes "\<exists>q. x = Fin q \<and> 0 \<le> q \<and> q \<le> 1" "rnd w = w" "0 \<le> w" "w \<le> 1000"
  shows "inside (f64_of_rat a) (f64_of_rat (a + w)) (Fin a + x * Fin w)"
proof -
  obtain q where q: "x = Fin q" "0 \<le> q" "q \<le> 1" using assms(1) by blast
  have le: "q * w \<le> 1 * w" using q assms(3) by (intro mult_right_mono) auto
  have "f64_of_rat (q * w) \<le> f64_of_rat w" using le by (intro f64_of_rat_mono) simp
  moreover have "f64_of_rat w = Fin w" using assms(2-4) f64_of_rat_small [of w] by (simp add: f64_max_def)
  moreover have "Fin 0 \<le> f64_of_rat (q * w)" using q assms(3) by (intro f64_of_rat_ge_0) simp
  ultimately show ?thesis using f64_mono_add [of "f64_of_rat (q * w)" w 0 a] q(1) by (simp add: inside_def)
qed

lemma inside_widen: "inside a b x \<Longrightarrow> a' \<le> a \<Longrightarrow> b \<le> b' \<Longrightarrow> inside a' b' x"
  using f64_cmp_trans by (auto simp: inside_def)

definition link_gen_ok :: "link_gen \<Rightarrow> bool" where
  "link_gen_ok lg \<longleftrightarrow> inside (Fin 2) (Fin 5) (lg_base_a lg) \<and> inside (Fin 2) (Fin 5) (lg_base_b lg)
     \<and> inside rtt_min rtt_max (lg_rtt_a lg) \<and> inside rtt_min rtt_max (lg_rtt_b lg)
     \<and> inside ambient_min ambient_max (lg_amb_ab lg) \<and> inside ambient_min ambient_max (lg_amb_ba lg)"

lemma base_range: "\<exists>q. x = Fin q \<and> 0 \<le> q \<and> q \<le> 1 \<Longrightarrow> inside (Fin 2) (Fin 5) (Fin 2 + x * Fin 3)"
proof -
  assume "\<exists>q. x = Fin q \<and> 0 \<le> q \<and> q \<le> 1"
  moreover have "f64_of_rat 2 = Fin 2" "f64_of_rat (2 + 3) = Fin 5" by code_simp+
  ultimately show ?thesis using draw_range [of x 3 2] by simp
qed

lemma ambient_range: "\<exists>q. x = Fin q \<and> 0 \<le> q \<and> q \<le> 1 \<Longrightarrow> inside ambient_min ambient_max (ambient_min + x * dec (17/10))"
proof -
  assume x: "\<exists>q. x = Fin q \<and> 0 \<le> q \<and> q \<le> 1"
  have fin: "ambient_min = Fin (rnd (3/10))" "dec (17/10) = Fin (rnd (17/10))"
    by (simp_all add: ambient_min_def f64_of_rat_small f64_max_def)
  have up: "f64_of_rat (rnd (3/10) + rnd (17/10)) \<le> ambient_max" by code_simp
  have w: "0 \<le> rnd (17/10)" "rnd (17/10) \<le> 1000" by code_simp+
  have "f64_of_rat (rnd (3/10)) = Fin (rnd (3/10))" by code_simp
  then show ?thesis
    using inside_widen [OF draw_range [OF x rnd_rnd w, of "rnd (3/10)"] _ up, of ambient_min] by (simp add: fin)
qed

lemma burst_range: "\<exists>q. x = Fin q \<and> 0 \<le> q \<and> q \<le> 1 \<Longrightarrow> inside burst_min burst_max (burst_min + x * Fin 20)"
proof -
  assume "\<exists>q. x = Fin q \<and> 0 \<le> q \<and> q \<le> 1"
  moreover have "f64_of_rat 20 = Fin 20" "f64_of_rat (20 + 20) = Fin 40" by code_simp+
  ultimately show ?thesis using draw_range [of x 20 20] by (simp add: burst_min_def burst_max_def)
qed

lemma base_rtt: "inside (Fin 2) (Fin 5) x \<Longrightarrow> inside rtt_min rtt_max x"
proof -
  have "rtt_min \<le> Fin 2" "Fin 5 \<le> rtt_max" by code_simp+
  then show "inside (Fin 2) (Fin 5) x \<Longrightarrow> inside rtt_min rtt_max x" using inside_widen by blast
qed

lemma new_link_gen_ok:
  assumes "unit_rng r" "new_link_gen l r = (lg, r1)"
  shows "link_gen_ok lg" "unit_rng r1"
proof -
  obtain x1 r1' x2 r2' x3 r3' x4 where d: "draw_float r = (x1, r1')" "draw_float r1' = (x2, r2')"
    "draw_float r2' = (x3, r3')" "draw_float r3' = (x4, r1)"
    and lg: "lg_base_a lg = Fin 2 + x1 * Fin 3" "lg_base_b lg = Fin 2 + x2 * Fin 3" "lg_rtt_a lg = lg_base_a lg"
      "lg_rtt_b lg = lg_base_b lg" "lg_amb_ab lg = ambient_min + x3 * dec (17/10)" "lg_amb_ba lg = ambient_min + x4 * dec (17/10)"
    using assms(2) by (auto simp: new_link_gen_def Let_def split: prod.splits)
  note u1 = draw_float_unit [OF assms(1) d(1)]
  note u2 = draw_float_unit [OF u1(1) d(2)]
  note u3 = draw_float_unit [OF u2(1) d(3)]
  note u4 = draw_float_unit [OF u3(1) d(4)]
  show "unit_rng r1" by (rule u4(1))
  show "link_gen_ok lg" unfolding link_gen_ok_def lg(3,4) unfolding lg
    using base_range [OF u1(2)] base_range [OF u2(2)] ambient_range [OF u3(2)] ambient_range [OF u4(2)] base_rtt by blast
qed

lemma new_link_gens_ok:
  "unit_rng r \<Longrightarrow> new_link_gens ls r = (lgs, r1) \<Longrightarrow> list_all link_gen_ok lgs \<and> unit_rng r1 \<and> map lg_link lgs = ls
     \<and> list_all (\<lambda>lg. lg_down lg \<longleftrightarrow> l_id (lg_link lg) = down_link) lgs"
proof (induction ls arbitrary: r lgs)
  case (Cons l ls)
  then obtain lg r2 lgs' where s: "new_link_gen l r = (lg, r2)" "new_link_gens ls r2 = (lgs', r1)" "lgs = lg # lgs'"
    by (auto split: prod.splits)
  have "lg_link lg = l \<and> (lg_down lg \<longleftrightarrow> l_id l = down_link)"
    using s(1) by (auto simp: new_link_gen_def Let_def split: prod.splits)
  then show ?case using Cons.IH [OF _ s(2)] new_link_gen_ok [OF Cons.prems(1) s(1)] s(3) by simp
qed simp


section \<open>Non-negative amounts\<close>

text \<open>Non-negative finite values up to a power of two.\<close>

definition pos :: "nat \<Rightarrow> f64 \<Rightarrow> bool" where
  "pos k x \<longleftrightarrow> (\<exists>q. x = Fin q \<and> 0 \<le> q \<and> q \<le> 2 ^ k)"

lemma pos_rat: "0 \<le> q \<Longrightarrow> q \<le> 2 ^ k \<Longrightarrow> k \<le> 1000 \<Longrightarrow> pos k (f64_of_rat q)"
  using small_rat [of q k] f64_of_rat_ge_0 [of q] by (auto simp: pos_def small_def)

lemma pos_inside: "inside (Fin 0) (Fin q) x \<Longrightarrow> q \<le> 2 ^ k \<Longrightarrow> pos k x"
  by (cases x) (auto simp: inside_def pos_def)

lemma pos_mono: "pos j x \<Longrightarrow> j \<le> k \<Longrightarrow> pos k x"
  using small_mono [of j x k] by (auto simp: pos_def small_def)

lemma pos_add:
  assumes "pos k x" "pos k y" "k < 1000"
  shows "pos (Suc k) (x + y)"
proof -
  obtain a b where "x = Fin a" "y = Fin b" "0 \<le> a + b" "a + b \<le> 2 ^ Suc k" using assms by (auto simp: pos_def)
  then show ?thesis using pos_rat [of "a + b" "Suc k"] assms(3) by simp
qed

lemma pos_mul:
  assumes "pos j x" "pos k y" "j + k \<le> 1000"
  shows "pos (j + k) (x * y)"
proof -
  obtain a b where "x = Fin a" "y = Fin b" "0 \<le> a" "0 \<le> b" "a \<le> 2 ^ j" "b \<le> 2 ^ k" using assms by (auto simp: pos_def)
  moreover from this have "a * b \<le> 2 ^ (j + k)" unfolding power_add by (intro mult_mono) auto
  ultimately show ?thesis using pos_rat [of "a * b" "j + k"] assms(3) by simp
qed

lemma pos_bytes: "pos k m \<Longrightarrow> k \<le> 900 \<Longrightarrow> pos (k + 20) (mbit_to_bytes m)"
proof -
  assume m: "pos k m" and k: "k \<le> 900"
  have "pos 20 (Fin 1000000)" "pos 0 (Fin 1)" by (simp_all add: pos_def)
  from pos_mul [OF m this(1)] k have "pos (k + 20) (m * Fin 1000000)" by simp
  then obtain q where q: "m * Fin 1000000 = Fin q" "0 \<le> q" "q \<le> 2 ^ (k + 20)" by (auto simp: pos_def)
  then have "pos (k + 20) (m * Fin 1000000 / Fin 8)" using k by (auto intro!: pos_rat)
  from pos_mul [OF this \<open>pos 0 (Fin 1)\<close>] k show ?thesis by (simp add: mbit_to_bytes_def)
qed

lemma beacon_draw:
  assumes "unit_rng r" "(if down then (Fin 0, r) else let (x, r1) = draw_float r in (Fin 1 + x * Fin 2, r1)) = (v, r')"
  shows "pos 3 v \<and> unit_rng r'"
proof (cases down)
  case False
  then obtain x where x: "draw_float r = (x, r')" "v = Fin 1 + x * Fin 2" using assms(2) by (auto simp: Let_def split: prod.splits)
  obtain q where q: "x = Fin q" "0 \<le> q" "q \<le> 1" using draw_float_unit(2) [OF assms(1) x(1)] by blast
  then have "pos 0 x" by (simp add: pos_def)
  moreover have "pos 2 (Fin 2)" "pos 2 (Fin 1)" by (simp_all add: pos_def)
  ultimately have "pos 2 (Fin 1)" "pos 2 (x * Fin 2)" using pos_mul [of 0 x 2 "Fin 2"] by (simp_all add: numeral_2_eq_2)
  then show ?thesis using pos_add [of 2 "Fin 1" "x * Fin 2"] draw_float_unit(1) [OF assms(1) x(1)] x(2) by (simp add: numeral_3_eq_3)
qed (use assms in \<open>auto simp: pos_def\<close>)

section \<open>What a step keeps\<close>

lemma rtt_small: "inside rtt_min rtt_max x \<Longrightarrow> small 9 x"
proof -
  have "Fin 0 \<le> rtt_min" "rtt_max \<le> Fin 500" by code_simp+
  then show "inside rtt_min rtt_max x \<Longrightarrow> small 9 x" using inside_small [of 0 500 x 9] inside_widen by simp
qed

lemma ambient_small: "inside ambient_min ambient_max x \<Longrightarrow> inside (Fin 0) (Fin 2) x"
proof -
  have "Fin 0 \<le> ambient_min" "ambient_max \<le> Fin 2" by code_simp+
  then show "inside ambient_min ambient_max x \<Longrightarrow> inside (Fin 0) (Fin 2) x" using inside_widen by simp
qed

lemma bounds_ordered: "rtt_min \<le> rtt_max" "ambient_min \<le> ambient_max" "burst_min \<le> burst_max"
  by code_simp+

lemma walk_consts: "small 0 (dec (2/10))" "small 0 (dec (1/10))" "small 0 (dec (15/100))" "small 2 (dec (1/4))"
    "small 2 (dec (15/100))" "small 9 (dec (115/100))"
proof -
  show "small 0 (dec (2/10))" "small 0 (dec (1/10))" and m: "small 0 (dec (15/100))" by (rule small_dec; simp)+
  show "small 2 (dec (15/100))" using m by (rule small_mono) simp
  show "small 2 (dec (1/4))" by (rule small_mono [OF small_dec]) simp_all
  show "small 9 (dec (115/100))" by (rule small_rat) simp_all
qed

lemma walk_rtt:
  assumes "unit_rng r" "inside rtt_min rtt_max cur" "inside (Fin 2) (Fin 5) base"
    and "gen_walk r cur base (dec (1/4)) (dec (2/10)) = (v, r1)"
  shows "unit_rng r1 \<and> inside rtt_min rtt_max (clamp v rtt_min rtt_max)"
  using gen_walk_unit [OF assms(1) rtt_small [OF assms(2)] rtt_small [OF base_rtt [OF assms(3)]] walk_consts(4) walk_consts(1) assms(4)]
    clamp_inside bounds_ordered(1) by blast

lemma walk_ambient:
  assumes "unit_rng r" "inside ambient_min ambient_max cur" "gen_walk r cur (dec (115/100)) (dec (15/100)) (dec (1/10)) = (v, r1)"
  shows "unit_rng r1 \<and> inside ambient_min ambient_max (clamp v ambient_min ambient_max)"
proof -
  have "small 9 cur" using inside_small [OF ambient_small [OF assms(2)], of 9] by simp
  from gen_walk_unit [OF assms(1) this walk_consts(6) walk_consts(5) walk_consts(2) assms(3)] show ?thesis
    using clamp_inside bounds_ordered(2) by blast
qed

lemma walk_burst:
  assumes "unit_rng r" "inside burst_min burst_max cur" "gen_walk r cur (Fin 30) (Fin 3) (dec (15/100)) = (v, r1)"
  shows "unit_rng r1 \<and> inside burst_min burst_max (clamp v burst_min burst_max)"
proof -
  have c: "small 9 cur" using inside_small [of 20 40 cur 9] assms(2) by (simp add: burst_min_def burst_max_def)
  have "small 9 (Fin 30)" "small 2 (Fin 3)" by (simp_all add: small_def)
  from gen_walk_unit [OF assms(1) c this walk_consts(3) assms(3)] show ?thesis
    using clamp_inside bounds_ordered(3) by blast
qed

lemma shaped_rtt_ok:
  assumes "unit_rng r" "json_shape p" "inside (Fin 2) (Fin 5) base" "shaped_rtt r base p = (v, r1)"
  shows "unit_rng r1 \<and> inside rtt_min rtt_max (clamp v rtt_min rtt_max)"
  using shaped_rtt_unit [OF assms(1,2) rtt_small [OF base_rtt [OF assms(3)]] assms(4)] clamp_inside bounds_ordered(1) by blast

text \<open>The draws and results of a link's step, one equation each.\<close>

lemma step_link_cases:
  assumes "step_link m shaped burst lg r = (lg', r')"
  obtains p va r1 vb r2 wab r3 wba r4 x r5 y where
    "p = (if lg_down lg then None else shaped (l_id (lg_link lg)))"
    "(case p of Some s \<Rightarrow> shaped_rtt r (lg_base_a lg) s
       | None \<Rightarrow> gen_walk r (lg_rtt_a lg) (lg_base_a lg) (dec (1/4)) (dec (2/10))) = (va, r1)"
    "(case p of Some s \<Rightarrow> shaped_rtt r1 (lg_base_b lg) s
       | None \<Rightarrow> gen_walk r1 (lg_rtt_b lg) (lg_base_b lg) (dec (1/4)) (dec (2/10))) = (vb, r2)"
    "gen_walk r2 (lg_amb_ab lg) (dec (115/100)) (dec (15/100)) (dec (1/10)) = (wab, r3)"
    "gen_walk r3 (lg_amb_ba lg) (dec (115/100)) (dec (15/100)) (dec (1/10)) = (wba, r4)"
    "(if lg_down lg then (Fin 0, r4) else let (x, r5) = draw_float r4 in (Fin 1 + x * Fin 2, r5)) = (x, r5)"
    "(if lg_down lg then (Fin 0, r5) else let (y, r6) = draw_float r5 in (Fin 1 + y * Fin 2, r6)) = (y, r')"
    "lg' = (let ab = clamp wab ambient_min ambient_max; ba = clamp wba ambient_min ambient_max;
        mab = (if lg_down lg then Fin 0 else capped p (if burst then ab + m else ab));
        mba = (if lg_down lg then Fin 0 else capped p (if burst then ba + m else ba)); f = loss_factor p in
      lg\<lparr>lg_rtt_a := clamp va rtt_min rtt_max, lg_rtt_b := clamp vb rtt_min rtt_max, lg_amb_ab := ab, lg_amb_ba := ba,
        lg_out_a := lg_out_a lg + mbit_to_bytes mab, lg_in_b := lg_in_b lg + mbit_to_bytes (mab * f),
        lg_out_b := lg_out_b lg + mbit_to_bytes mba, lg_in_a := lg_in_a lg + mbit_to_bytes (mba * f),
        lg_beacon_a := lg_beacon_a lg + x * Fin 1, lg_beacon_b := lg_beacon_b lg + y * Fin 1\<rparr>)"
  using assms unfolding step_link_def Let_def by (auto split: prod.splits)

definition shapes_ok :: "(string \<rightharpoonup> shaping) \<Rightarrow> bool" where
  "shapes_ok sh \<longleftrightarrow> (\<forall>p\<in>ran sh. json_shape p)"

lemma step_link_ok:
  assumes "step_link m shaped burst lg r = (lg', r')" "unit_rng r" "link_gen_ok lg" "shapes_ok shaped"
  shows "link_gen_ok lg'" "unit_rng r'" "lg_link lg' = lg_link lg" "lg_down lg' = lg_down lg"
    "\<exists>x y. pos 3 x \<and> pos 3 y \<and> lg_beacon_a lg' = lg_beacon_a lg + x * Fin 1 \<and> lg_beacon_b lg' = lg_beacon_b lg + y * Fin 1"
proof -
  obtain p va r1 vb r2 wab r3 wba r4 x r5 y where p: "p = (if lg_down lg then None else shaped (l_id (lg_link lg)))"
    and a: "(case p of Some s \<Rightarrow> shaped_rtt r (lg_base_a lg) s
       | None \<Rightarrow> gen_walk r (lg_rtt_a lg) (lg_base_a lg) (dec (1/4)) (dec (2/10))) = (va, r1)"
    and b: "(case p of Some s \<Rightarrow> shaped_rtt r1 (lg_base_b lg) s
       | None \<Rightarrow> gen_walk r1 (lg_rtt_b lg) (lg_base_b lg) (dec (1/4)) (dec (2/10))) = (vb, r2)"
    and c: "gen_walk r2 (lg_amb_ab lg) (dec (115/100)) (dec (15/100)) (dec (1/10)) = (wab, r3)"
    and d: "gen_walk r3 (lg_amb_ba lg) (dec (115/100)) (dec (15/100)) (dec (1/10)) = (wba, r4)"
    and x: "(if lg_down lg then (Fin 0, r4) else let (x, r5) = draw_float r4 in (Fin 1 + x * Fin 2, r5)) = (x, r5)"
    and y: "(if lg_down lg then (Fin 0, r5) else let (y, r6) = draw_float r5 in (Fin 1 + y * Fin 2, r6)) = (y, r')"
    and lg': "lg' = (let ab = clamp wab ambient_min ambient_max; ba = clamp wba ambient_min ambient_max;
        mab = (if lg_down lg then Fin 0 else capped p (if burst then ab + m else ab));
        mba = (if lg_down lg then Fin 0 else capped p (if burst then ba + m else ba)); f = loss_factor p in
      lg\<lparr>lg_rtt_a := clamp va rtt_min rtt_max, lg_rtt_b := clamp vb rtt_min rtt_max, lg_amb_ab := ab, lg_amb_ba := ba,
        lg_out_a := lg_out_a lg + mbit_to_bytes mab, lg_in_b := lg_in_b lg + mbit_to_bytes (mab * f),
        lg_out_b := lg_out_b lg + mbit_to_bytes mba, lg_in_a := lg_in_a lg + mbit_to_bytes (mba * f),
        lg_beacon_a := lg_beacon_a lg + x * Fin 1, lg_beacon_b := lg_beacon_b lg + y * Fin 1\<rparr>)"
    using step_link_cases [OF assms(1)] .
  note ok = assms(3) [unfolded link_gen_ok_def]
  have js: "json_shape s" if "p = Some s" for s using p that assms(4) unfolding shapes_ok_def by (metis ranI option.distinct(1))
  have ra: "unit_rng r1 \<and> inside rtt_min rtt_max (clamp va rtt_min rtt_max)"
    using a walk_rtt [OF assms(2)] shaped_rtt_ok [OF assms(2)] js ok by (cases p) auto
  have rb: "unit_rng r2 \<and> inside rtt_min rtt_max (clamp vb rtt_min rtt_max)"
    using b walk_rtt [OF conjunct1 [OF ra]] shaped_rtt_ok [OF conjunct1 [OF ra]] js ok by (cases p) auto
  have aa: "unit_rng r3 \<and> inside ambient_min ambient_max (clamp wab ambient_min ambient_max)"
    using walk_ambient [OF conjunct1 [OF rb] _ c] ok by blast
  have ab: "unit_rng r4 \<and> inside ambient_min ambient_max (clamp wba ambient_min ambient_max)"
    using walk_ambient [OF conjunct1 [OF aa] _ d] ok by blast
  note bx = beacon_draw [OF conjunct1 [OF ab] x]
  note by' = beacon_draw [OF conjunct2 [OF bx] y]
  show "unit_rng r'" using by' by blast
  show "link_gen_ok lg'" unfolding lg' link_gen_ok_def using ra rb aa ab ok by (simp add: Let_def)
  show "lg_link lg' = lg_link lg" "lg_down lg' = lg_down lg" unfolding lg' by (simp_all add: Let_def)
  show "\<exists>x y. pos 3 x \<and> pos 3 y \<and> lg_beacon_a lg' = lg_beacon_a lg + x * Fin 1 \<and> lg_beacon_b lg' = lg_beacon_b lg + y * Fin 1"
    using bx by' unfolding lg' by (auto simp: Let_def)
qed


section \<open>The counters\<close>

text \<open>A counter holds a double that is not negative; adding to it never makes it smaller.\<close>

definition counter :: "f64 \<Rightarrow> bool" where
  "counter x \<longleftrightarrow> is_f64 x \<and> Fin 0 \<le> x"

lemma counter_add:
  assumes "counter x" "pos k d"
  shows "counter (x + d) \<and> x \<le> x + d"
proof -
  obtain b where d: "d = Fin b" "0 \<le> b" using assms(2) by (auto simp: pos_def)
  show ?thesis
  proof (cases x)
    case (Fin a)
    then have "rnd a = a" "\<bar>a\<bar> \<le> f64_max" using assms(1) by (auto simp: counter_def)
    then have "f64_of_rat a = Fin a" using f64_of_rat_small by metis
    moreover have "f64_of_rat a \<le> f64_of_rat (a + b)" using d(2) by (intro f64_of_rat_mono) simp
    moreover have "Fin 0 \<le> f64_of_rat (a + b)" using Fin assms(1) d(2) by (intro f64_of_rat_ge_0) (simp add: counter_def)
    ultimately show ?thesis using Fin d(1) by (simp add: counter_def)
  qed (use assms(1) d in \<open>auto simp: counter_def f64_defs\<close>)
qed

definition counters :: "link_gen \<Rightarrow> f64 list" where
  "counters lg = [lg_out_a lg, lg_in_a lg, lg_out_b lg, lg_in_b lg, lg_beacon_a lg, lg_beacon_b lg]"

text \<open>Shapes the validation accepts: the rate and the loss are not negative.\<close>

definition nonneg_shape :: "shaping \<Rightarrow> bool" where
  "nonneg_shape p \<longleftrightarrow> (\<forall>v. rate_mbit p = Some v \<or> loss_pct p = Some v \<longrightarrow> Fin 0 \<le> v)"

lemma capped_pos:
  assumes "pos k m" "\<forall>s. p = Some s \<longrightarrow> nonneg_shape s"
  shows "pos k (capped p m)"
proof (cases "capped p m = m")
  case False
  then obtain s v where "p = Some s" "rate_mbit s = Some v" "v < m" "capped p m = v"
    by (auto simp: capped_def split: option.splits if_splits)
  then show ?thesis using assms by (cases v) (auto simp: pos_def nonneg_shape_def)
qed (use assms in simp)

lemma loss_factor_pos:
  assumes "\<forall>s. p = Some s \<longrightarrow> nonneg_shape s \<and> json_shape s"
  shows "pos 0 (loss_factor p)"
proof (cases "\<exists>s v. p = Some s \<and> loss_pct s = Some v")
  case True
  then obtain s v where s: "p = Some s" "loss_pct s = Some v" by blast
  then obtain q where q: "v = Fin q" "rnd q = q" "\<bar>q\<bar> \<le> f64_max" using json_shape_fields [of s "loss_pct s" v] assms by auto
  then have "0 \<le> q" using s assms by (auto simp: nonneg_shape_def)
  then have "\<bar>q / 100\<bar> \<le> f64_max" using q(3) by simp
  then have "v / Fin 100 = Fin (rnd (q / 100))" using q(1) by (simp add: f64_of_rat_small)
  moreover have "0 \<le> rnd (q / 100)" using \<open>0 \<le> q\<close> by (intro rnd_nonneg) simp
  then have "f64_of_rat (1 - rnd (q / 100)) \<le> Fin 1" using f64_of_rat_mono [of "1 - rnd (q / 100)" 1] f64_of_rat_small [of 1]
    by (simp add: f64_max_def)
  ultimately show ?thesis using s
    by (cases "f64_of_rat (1 - rnd (q / 100))") (auto simp: loss_factor_def Let_def pos_def)
qed (auto simp: loss_factor_def pos_def split: option.splits)


text \<open>What a link's step adds to its byte counters.\<close>

lemma step_link_bytes:
  assumes "step_link m shaped burst lg r = (lg', r')" "unit_rng r" "link_gen_ok lg" "shapes_ok shaped"
    and "\<forall>p\<in>ran shaped. nonneg_shape p" "inside burst_min burst_max m"
  obtains a b c d where "pos 27 a" "pos 27 b" "pos 27 c" "pos 27 d" "lg_out_a lg' = lg_out_a lg + a" "lg_in_b lg' = lg_in_b lg + b"
    "lg_out_b lg' = lg_out_b lg + c" "lg_in_a lg' = lg_in_a lg + d"
proof -
  define p where "p = (if lg_down lg then None else shaped (l_id (lg_link lg)))"
  define mbit where "mbit = (\<lambda>v. if lg_down lg then Fin 0 else capped p (if burst then v + m else v))"
  have eq: "lg_out_a lg' = lg_out_a lg + mbit_to_bytes (mbit (lg_amb_ab lg'))
    \<and> lg_in_b lg' = lg_in_b lg + mbit_to_bytes (mbit (lg_amb_ab lg') * loss_factor p)
    \<and> lg_out_b lg' = lg_out_b lg + mbit_to_bytes (mbit (lg_amb_ba lg'))
    \<and> lg_in_a lg' = lg_in_a lg + mbit_to_bytes (mbit (lg_amb_ba lg') * loss_factor p)"
    by (rule step_link_cases [OF assms(1)]) (simp add: Let_def mbit_def p_def)
  have "link_gen_ok lg'" using step_link_ok(1) [OF assms(1-4)] .
  then have amb: "pos 6 (lg_amb_ab lg')" "pos 6 (lg_amb_ba lg')"
    unfolding link_gen_ok_def by (auto dest!: ambient_small intro: pos_inside)
  have "pos 6 m" using assms(6) by (cases m) (auto simp: inside_def pos_def burst_min_def burst_max_def)
  then have offered: "pos 7 (if burst then v + m else v)" if "pos 6 v" for v
    using that pos_add [of 6 v m] pos_mono [of 6 v 7] by simp
  have sh: "\<forall>s. p = Some s \<longrightarrow> nonneg_shape s \<and> json_shape s" using assms(4,5) by (auto simp: p_def shapes_ok_def ran_def)
  then have f: "pos 0 (loss_factor p)" by (rule loss_factor_pos)
  have "pos 7 (Fin 0)" by (simp add: pos_def)
  then have "pos 7 (mbit v)" if "pos 6 v" for v unfolding mbit_def using capped_pos [OF offered [OF that]] sh by simp
  then have "pos 27 (mbit_to_bytes (mbit v)) \<and> pos 27 (mbit_to_bytes (mbit v * loss_factor p))" if "pos 6 v" for v
    using that pos_bytes [of 7 "mbit v"] pos_bytes [of 7 "mbit v * loss_factor p"] pos_mul [OF _ f, of 7 "mbit v"] by simp
  from this [OF amb(1)] this [OF amb(2)] eq show thesis by (metis that)
qed

lemma step_link_counters:
  assumes "step_link m shaped burst lg r = (lg', r')" "unit_rng r" "link_gen_ok lg" "shapes_ok shaped"
    and "\<forall>p\<in>ran shaped. nonneg_shape p" "inside burst_min burst_max m" "list_all counter (counters lg)"
  shows "list_all counter (counters lg') \<and> list_all2 (\<le>) (counters lg) (counters lg')"
proof -
  obtain a b c d where bytes: "pos 27 a" "pos 27 b" "pos 27 c" "pos 27 d" "lg_out_a lg' = lg_out_a lg + a" "lg_in_b lg' = lg_in_b lg + b"
    "lg_out_b lg' = lg_out_b lg + c" "lg_in_a lg' = lg_in_a lg + d"
    using step_link_bytes [OF assms(1-6)] by blast
  obtain x y where xy: "pos 3 x" "pos 3 y" "lg_beacon_a lg' = lg_beacon_a lg + x * Fin 1" "lg_beacon_b lg' = lg_beacon_b lg + y * Fin 1"
    using step_link_ok(5) [OF assms(1-4)] by blast
  have "pos 0 (Fin 1)" by (simp add: pos_def)
  from pos_mul [OF xy(1) this] pos_mul [OF xy(2) this] have "pos 3 (x * Fin 1)" "pos 3 (y * Fin 1)" by simp_all
  note adds = counter_add [OF _ bytes(1)] counter_add [OF _ bytes(2)] counter_add [OF _ bytes(3)] counter_add [OF _ bytes(4)]
    counter_add [OF _ this(1)] counter_add [OF _ this(2)]
  show ?thesis using assms(7) unfolding counters_def bytes(5-8) xy(3,4) by (simp add: adds)
qed


section \<open>Runs of the generator\<close>

definition looks_ok :: "(nat \<Rightarrow> string \<rightharpoonup> shaping) \<Rightarrow> bool" where
  "looks_ok looks \<longleftrightarrow> (\<forall>i. \<forall>p\<in>ran (looks i). json_shape p \<and> nonneg_shape p)"

definition gen_ok :: "graph \<Rightarrow> generator \<Rightarrow> bool" where
  "gen_ok g gn \<longleftrightarrow> unit_rng (gn_rng gn) \<and> gn_ases gn = g_ases g \<and> map lg_link (gn_links gn) = g_links g
     \<and> list_all (\<lambda>lg. link_gen_ok lg \<and> list_all counter (counters lg) \<and> (lg_down lg \<longleftrightarrow> l_id (lg_link lg) = down_link)) (gn_links gn)
     \<and> inside burst_min burst_max (gn_burst_mbit gn) \<and> (g_links g = [] \<or> gn_burst gn < length (g_links g))"

lemma step_links_ok:
  assumes "step_links m looks burst i lgs r = (lgs', r')" "unit_rng r" "looks_ok looks" "inside burst_min burst_max m"
    and "list_all (\<lambda>lg. link_gen_ok lg \<and> list_all counter (counters lg) \<and> (lg_down lg \<longleftrightarrow> l_id (lg_link lg) = down_link)) lgs"
  shows "unit_rng r' \<and> map lg_link lgs' = map lg_link lgs
    \<and> list_all (\<lambda>lg. link_gen_ok lg \<and> list_all counter (counters lg) \<and> (lg_down lg \<longleftrightarrow> l_id (lg_link lg) = down_link)) lgs'
    \<and> list_all2 (\<lambda>lg lg'. list_all2 (\<le>) (counters lg) (counters lg')) lgs lgs'"
  using assms
proof (induction lgs arbitrary: i r lgs')
  case (Cons lg lgs)
  then obtain lg1 r1 lgs1 where s: "step_link m (looks i) (i = burst) lg r = (lg1, r1)"
    "step_links m looks burst (Suc i) lgs r1 = (lgs1, r')" "lgs' = lg1 # lgs1" by (auto split: prod.splits)
  have sh: "shapes_ok (looks i)" "\<forall>p\<in>ran (looks i). nonneg_shape p" using Cons.prems(3) by (auto simp: looks_ok_def shapes_ok_def)
  have lg: "link_gen_ok lg" "list_all counter (counters lg)" using Cons.prems(5) by simp_all
  note one = step_link_ok [OF s(1) Cons.prems(2) lg(1) sh(1)]
  note grow = step_link_counters [OF s(1) Cons.prems(2) lg(1) sh Cons.prems(4) lg(2)]
  from Cons.IH [OF s(2) one(2) Cons.prems(3,4)] Cons.prems(5) one grow show ?case unfolding s(3) by simp
qed simp

lemma next_up_some: "next_up lgs dir i k = Some j \<Longrightarrow> lgs \<noteq> [] \<Longrightarrow> dir = 1 \<or> dir = - 1 \<Longrightarrow> j < length lgs \<and> \<not> lg_down (lgs ! j)"
proof (induction k arbitrary: i)
  case (Suc k)
  have pos: "0 \<le> int i + dir + int (length lgs)" using Suc.prems(2,3) by (cases lgs) auto
  then have "nat (go_rem (int i + dir + int (length lgs)) (int (length lgs))) < length lgs"
    using Suc.prems(2) by (simp add: go_rem_def nat_less_iff sgn_if)
  then show ?case using Suc by (auto simp: Let_def split: if_splits)
qed simp

lemma move_burst_ok:
  assumes "gen_ok g gn"
  shows "gen_ok g (move_burst gn) \<and> gn_links (move_burst gn) = gn_links gn"
proof (cases "length (gn_links gn) < 2")
  case False
  obtain x r1 where x: "draw_float (gn_rng gn) = (x, r1)" by fastforce
  obtain c r2 where c: "draw_int 2 r1 = (c, r2)" by fastforce
  have u: "unit_rng r1" "unit_rng r2" using draw_float_unit(1) [OF _ x] draw_int_unit [OF _ c] assms by (auto simp: gen_ok_def)
  have n: "length (gn_links gn) = length (g_links g)" using assms by (metis gen_ok_def length_map)
  have "j < length (g_links g)" if "next_up (gn_links gn) (if c \<noteq> 0 then - 1 else 1) (gn_burst gn) (length (gn_links gn)) = Some j" for j
    using next_up_some [OF that] False n by (cases "gn_links gn") auto
  then show ?thesis using False assms u unfolding move_burst_def by (auto simp: x c Let_def gen_ok_def split: option.splits)
qed (use assms in \<open>simp add: move_burst_def\<close>)

lemma new_link_gens_counters: "new_link_gens ls r = (lgs, r1) \<Longrightarrow> list_all (\<lambda>lg. list_all counter (counters lg)) lgs"
proof (induction ls arbitrary: r lgs)
  case (Cons l ls)
  then obtain lg r2 lgs' where s: "new_link_gen l r = (lg, r2)" "new_link_gens ls r2 = (lgs', r1)" "lgs = lg # lgs'"
    by (auto split: prod.splits)
  have "counters lg = replicate 6 (Fin 0)"
    using s(1) by (auto simp: new_link_gen_def counters_def Let_def numeral_eq_Suc split: prod.splits)
  then have "list_all counter (counters lg)" using f64_max_pos by (simp add: counter_def numeral_eq_Suc)
  then show ?case using Cons.IH [OF s(2)] s(3) by simp
qed simp

lemma gen_new_ok: "unit_rng r \<Longrightarrow> gen_ok g (gen_new g r)"
proof -
  assume r: "unit_rng r"
  obtain lgs r1 where l: "new_link_gens (g_links g) r = (lgs, r1)" by fastforce
  obtain i r2 where i: "(if lgs \<noteq> [] then draw_int (int (length lgs)) r1 else (0, r1)) = (i, r2)" by fastforce
  obtain x r3 where x: "draw_float r2 = (x, r3)" by fastforce
  note lk = new_link_gens_ok [OF r l]
  have r2: "unit_rng r2" using i lk draw_int_unit by (auto split: if_splits)
  note new_link_gens_counters [OF l]
  moreover have "nat i < length lgs \<or> lgs = []" using i by (auto simp: draw_int_def nat_less_iff)
  moreover have "length lgs = length (g_links g)" using lk by (metis length_map)
  ultimately show ?thesis using lk draw_float_unit(1) [OF r2 x] burst_range [OF draw_float_unit(2) [OF r2 x]]
    unfolding gen_new_def by (auto simp: l i x Let_def gen_ok_def list_all_iff)
qed


lemma gen_step_ok:
  assumes "gen_ok g gn" "looks_ok looks" "gen_step gn looks now st = (gn', st')"
  shows "gen_ok g gn' \<and> list_all2 (\<lambda>lg lg'. list_all2 (\<le>) (counters lg) (counters lg')) (gn_links gn) (gn_links gn')
    \<and> st' = puts_all st (concat (map (\<lambda>lg. link_puts lg now) (gn_links gn')) @ service_puts (g_ases g) now)"
proof -
  let ?m = "move_burst gn"
  have m: "gen_ok g ?m" "gn_links ?m = gn_links gn" using move_burst_ok [OF assms(1)] by simp_all
  note ok = m(1) [unfolded gen_ok_def]
  obtain w r1 where w: "gen_walk (gn_rng ?m) (gn_burst_mbit ?m) (Fin 30) (Fin 3) (dec (15/100)) = (w, r1)" by fastforce
  have wb: "unit_rng r1" "inside burst_min burst_max (clamp w burst_min burst_max)" using walk_burst [OF _ _ w] ok by simp_all
  obtain lgs r2 where s: "step_links (clamp w burst_min burst_max) looks (gn_burst ?m) 0 (gn_links ?m) r1 = (lgs, r2)" by fastforce
  note l = step_links_ok [OF s wb(1) assms(2) wb(2)]
  have gn': "gn' = ?m\<lparr>gn_rng := r2, gn_burst_mbit := clamp w burst_min burst_max, gn_links := lgs\<rparr>"
    "st' = puts_all st (concat (map (\<lambda>lg. link_puts lg now) lgs) @ service_puts (gn_ases ?m) now)"
    using assms(3) w s by (auto simp: gen_step_def Let_def)
  show ?thesis using l ok wb(2) m(2) unfolding gen_ok_def gn' by simp
qed

text \<open>\<open>Run\<close>: a step at every tick, with the shaping as the link steps found it.\<close>

fun gen_run :: "generator \<Rightarrow> store \<Rightarrow> ((nat \<Rightarrow> string \<rightharpoonup> shaping) \<times> int) list \<Rightarrow> generator \<times> store" where
  "gen_run gn st [] = (gn, st)"
| "gen_run gn st ((looks, now) # ticks) = (let (gn1, st1) = gen_step gn looks now st in gen_run gn1 st1 ticks)"

lemma gen_run_ok:
  assumes "gen_ok g gn" "list_all (\<lambda>(looks, _). looks_ok looks) ticks" "gen_run gn st ticks = (gn', st')"
  shows "gen_ok g gn'"
  using assms
proof (induction ticks arbitrary: gn st)
  case (Cons tick ticks)
  obtain looks now where t: "tick = (looks, now)" by (cases tick)
  obtain gn1 st1 where s: "gen_step gn looks now st = (gn1, st1)" by fastforce
  then have "gen_ok g gn1" using gen_step_ok [OF Cons.prems(1) _ s] Cons.prems(2) t by simp
  from Cons.IH [OF this] show ?case using Cons.prems t s by simp
qed simp

text \<open>What every step keeps, whatever the draws and shapes, and what it puts.\<close>

definition gen_links_ok :: "graph \<Rightarrow> generator \<Rightarrow> bool" where
  "gen_links_ok g gn \<longleftrightarrow> gn_ases gn = g_ases g \<and> map lg_link (gn_links gn) = g_links g
     \<and> (\<forall>lg\<in>set (gn_links gn). lg_down lg \<longleftrightarrow> l_id (lg_link lg) = down_link)"

lemma new_link_gens_links:
  "new_link_gens ls r = (lgs, r1) \<Longrightarrow> map lg_link lgs = ls \<and> (\<forall>lg\<in>set lgs. lg_down lg \<longleftrightarrow> l_id (lg_link lg) = down_link)"
proof (induction ls arbitrary: r lgs)
  case (Cons l ls)
  then obtain lg r2 lgs' where s: "new_link_gen l r = (lg, r2)" "new_link_gens ls r2 = (lgs', r1)" "lgs = lg # lgs'"
    by (auto split: prod.splits)
  have "lg_link lg = l \<and> (lg_down lg \<longleftrightarrow> l_id l = down_link)"
    using s(1) by (auto simp: new_link_gen_def Let_def split: prod.splits)
  then show ?case using Cons.IH [OF s(2)] s(3) by simp
qed simp

lemma step_links_links: "step_links m looks burst i lgs r = (lgs', r') \<Longrightarrow>
   map lg_link lgs' = map lg_link lgs \<and> map lg_down lgs' = map lg_down lgs"
proof (induction lgs arbitrary: i r lgs')
  case (Cons lg lgs)
  then obtain lg1 r1 lgs1 where s: "step_link m (looks i) (i = burst) lg r = (lg1, r1)"
    "step_links m looks burst (Suc i) lgs r1 = (lgs1, r')" "lgs' = lg1 # lgs1" by (auto split: prod.splits)
  have "lg_link lg1 = lg_link lg \<and> lg_down lg1 = lg_down lg" by (rule step_link_cases [OF s(1)]) (simp add: Let_def)
  then show ?case using Cons.IH [OF s(2)] s(3) by simp
qed simp

lemma move_burst_links: "gn_links (move_burst gn) = gn_links gn" "gn_ases (move_burst gn) = gn_ases gn"
  by (auto simp: move_burst_def Let_def split: prod.splits option.splits)

definition tick_put :: "graph \<Rightarrow> string \<times> sample \<Rightarrow> bool" where
  "tick_put g kx \<longleftrightarrow> (\<exists>lg now. lg_link lg \<in> set (g_links g) \<and> (lg_down lg \<longleftrightarrow> l_id (lg_link lg) = down_link) \<and> kx \<in> set (link_puts lg now))
     \<or> (\<exists>now. kx \<in> set (service_puts (g_ases g) now))"

lemma gen_step_puts:
  assumes "gen_links_ok g gn" "gen_step gn looks now st = (gn', st')"
  shows "gen_links_ok g gn' \<and> st' = puts_all st (concat (map (\<lambda>lg. link_puts lg now) (gn_links gn')) @ service_puts (g_ases g) now)"
proof -
  obtain w r1 where w: "gen_walk (gn_rng (move_burst gn)) (gn_burst_mbit (move_burst gn)) (Fin 30) (Fin 3) (dec (15/100)) = (w, r1)" by fastforce
  obtain lgs r2 where s: "step_links (clamp w burst_min burst_max) looks (gn_burst (move_burst gn)) 0 (gn_links gn) r1 = (lgs, r2)" by fastforce
  have gn': "gn' = (move_burst gn)\<lparr>gn_rng := r2, gn_burst_mbit := clamp w burst_min burst_max, gn_links := lgs\<rparr>"
    "st' = puts_all st (concat (map (\<lambda>lg. link_puts lg now) lgs) @ service_puts (gn_ases gn) now)"
    using assms(2) w s by (auto simp: gen_step_def Let_def move_burst_links)
  have "map lg_down (gn_links gn) = map (\<lambda>l. l_id l = down_link) (map lg_link (gn_links gn))"
    using assms(1) unfolding gen_links_ok_def map_map by simp
  then have "map lg_down lgs = map (\<lambda>l. l_id l = down_link) (map lg_link lgs)" using step_links_links [OF s] by simp
  then have "\<forall>lg\<in>set lgs. lg_down lg \<longleftrightarrow> l_id (lg_link lg) = down_link" by simp
  then show ?thesis using assms(1) step_links_links [OF s] by (simp add: gn' gen_links_ok_def move_burst_links)
qed

lemma gen_new_links: "gen_links_ok g (gen_new g r)"
  using new_link_gens_links by (fastforce simp: gen_new_def gen_links_ok_def Let_def split: prod.splits)

section \<open>Properties\<close>

text \<open>
  C40: The synthetic telemetry stays in its bounds and its counters are counters.  Whatever the random draws, the topology
  and the shapes applied between or during the steps (numbers JSON can carry, rates and losses not negative), after any
  number of ticks and for the next one: every round-trip time is between 0.5 and 500 ms, the ambient traffic between 0.3
  and 2 Mbit/s, the burst between 20 and 40 Mbit/s and on a link of the graph, only the pinned link is down, and no byte or beacon counter
  of any link goes down in the step.
\<close>

theorem mock_gen_bounds:
  assumes "unit_rng r" "list_all (\<lambda>(looks, _). looks_ok looks) (ticks @ [(looks, now)])"
    and "gen_run (gen_new g r) st ticks = (gn, st1)" "gen_step gn looks now st1 = (gn', st')"
  shows "map lg_link (gn_links gn') = g_links g
    \<and> (\<forall>lg\<in>set (gn_links gn'). rtt_min \<le> lg_rtt_a lg \<and> lg_rtt_a lg \<le> rtt_max \<and> rtt_min \<le> lg_rtt_b lg \<and> lg_rtt_b lg \<le> rtt_max
        \<and> ambient_min \<le> lg_amb_ab lg \<and> lg_amb_ab lg \<le> ambient_max \<and> ambient_min \<le> lg_amb_ba lg \<and> lg_amb_ba lg \<le> ambient_max
        \<and> (lg_down lg \<longleftrightarrow> l_id (lg_link lg) = down_link))
    \<and> burst_min \<le> gn_burst_mbit gn' \<and> gn_burst_mbit gn' \<le> burst_max \<and> (g_links g \<noteq> [] \<longrightarrow> gn_burst gn' < length (g_links g))
    \<and> (\<forall>i<length (gn_links gn'). list_all2 (\<le>) (counters (gn_links gn ! i)) (counters (gn_links gn' ! i)))"
proof -
  have "gen_ok g gn" using gen_run_ok [OF gen_new_ok [OF assms(1)] _ assms(3)] assms(2) by simp
  from gen_step_ok [OF this _ assms(4)] assms(2) have s: "gen_ok g gn'"
    "list_all2 (\<lambda>lg lg'. list_all2 (\<le>) (counters lg) (counters lg')) (gn_links gn) (gn_links gn')" by simp_all
  then show ?thesis by (auto simp: gen_ok_def link_gen_ok_def inside_def list_all_iff list_all2_conv_all_nth)
qed


definition gen_link :: "int \<Rightarrow> string \<Rightarrow> int \<Rightarrow> string \<Rightarrow> link" where
  "gen_link a i b j = \<lparr>l_id = itoa a @ ''-'' @ itoa b, l_type = ''CHILD'', l_subnet = '''',
     l_a = \<lparr>e_ia = '''', e_as = a, e_ifid = i, e_ip = '''', e_link_to = ''CHILD''\<rparr>,
     l_b = \<lparr>e_ia = '''', e_as = b, e_ifid = j, e_ip = '''', e_link_to = ''PARENT''\<rparr>\<rparr>"

definition gen_graph :: graph where
  "gen_graph = \<lparr>g_ases = map (\<lambda>n. \<lparr>a_ia = '''', a_num = n, a_core = False, a_mgmt = ''''\<rparr>) [150, 151, 154],
     g_links = [gen_link 150 ''1'' 151 ''2'', gen_link 150 ''3'' 154 ''4'']\<rparr>"

definition gen_rng :: rng where
  "gen_rng = \<lparr>rg_floats = (\<lambda>_. Fin (1/2)), rg_ints = (\<lambda>_. 1), rg_used = 0\<rparr>"

definition gen_ticks :: "((nat \<Rightarrow> string \<rightharpoonup> shaping) \<times> int) list" where
  "gen_ticks = [(\<lambda>_. [''150-151'' \<mapsto> \<lparr>delay_ms = Some (Fin 100), jitter_ms = None, loss_pct = Some (Fin 5), rate_mbit = Some (Fin 10)\<rparr>], 1000)]"

lemma gen_examples: "unit_rng gen_rng" "list_all (\<lambda>(looks, _). looks_ok looks) (gen_ticks @ [(\<lambda>_. Map.empty, 2000)])"
proof -
  have "rnd (1/2) = 1/2" by code_simp
  then show "unit_rng gen_rng" by (auto simp: unit_rng_def gen_rng_def intro!: exI [of _ "1/2 :: rat"])
  have "is_f64 (Fin 100)" "is_f64 (Fin 5)" "is_f64 (Fin 10)" by code_simp+
  then show "list_all (\<lambda>(looks, _). looks_ok looks) (gen_ticks @ [(\<lambda>_. Map.empty, 2000)])"
    by (auto simp: looks_ok_def gen_ticks_def json_shape_def nonneg_shape_def)
qed

theorem mock_gen_bounds_witness:
  "\<exists>gn gn' st' st. gen_run (gen_new gen_graph gen_rng) (store_new 10) gen_ticks = (gn, st)
     \<and> gen_step gn (\<lambda>_. Map.empty) 2000 st = (gn', st') \<and> map lg_link (gn_links gn') = g_links gen_graph
     \<and> burst_min \<le> gn_burst_mbit gn' \<and> gn_burst_mbit gn' \<le> burst_max"
proof -
  obtain gn st where run: "gen_run (gen_new gen_graph gen_rng) (store_new 10) gen_ticks = (gn, st)" by fastforce
  obtain gn' st' where stp: "gen_step gn (\<lambda>_. Map.empty) 2000 st = (gn', st')" by fastforce
  from mock_gen_bounds [OF gen_examples run stp] run stp show ?thesis by blast
qed

section \<open>The health the dashboard shows\<close>

lemma tick_put_service:
  assumes "tick_put g (service_key as ''br'', x)"
  shows "s_v x = Fin 1"
  using assms unfolding tick_put_def
  by (auto simp: link_puts_def service_puts_def Let_def rtt_key_def out_key_def in_key_def up_key_def service_key_def
      beacons_key_def fmt_simps append_eq_Cons_conv)

lemma tick_put_up:
  assumes "wf_graph g" "l \<in> set (g_links g)" "e \<in> {l_a l, l_b l}" "tick_put g (up_key e, x)"
  shows "s_v x = (if l_id l = down_link then Fin 0 else Fin 1)"
proof -
  have "(up_key e, x) \<notin> set (service_puts (g_ases g) now)" for now
    by (auto simp: service_puts_def up_key_def service_key_def fmt_simps)
  then obtain lg now where lg: "lg_link lg \<in> set (g_links g)" "lg_down lg \<longleftrightarrow> l_id (lg_link lg) = down_link"
    and x: "(up_key e, x) \<in> set (link_puts lg now)"
    using assms(4) unfolding tick_put_def by blast
  from x have val: "s_v x = (if lg_down lg then Fin 0 else Fin 1)" and ends: "(e_as e, e_ifid e) \<in> set (link_ends (lg_link lg))"
    by (auto simp: link_puts_def Let_def rtt_key_def out_key_def in_key_def up_key_def
        beacons_key_def fmt_simps link_ends_def append_eq_Cons_conv)
  have "(e_as e, e_ifid e) \<in> set (link_ends l)" using assms(3) by (auto simp: link_ends_def)
  from wf_graph_ends [OF assms(1,2) lg(1) this ends] lg val show ?thesis by auto
qed


lemma gen_run_puts:
  assumes "gen_links_ok g gn" "gen_run gn st ticks = (gn', st')"
  shows "\<exists>kvs. st' = puts_all st kvs \<and> list_all (tick_put g) kvs
    \<and> (ticks \<noteq> [] \<longrightarrow> (\<forall>l\<in>set (g_links g). \<forall>e\<in>{l_a l, l_b l}. up_key e \<in> fst ` set kvs) \<and> (\<forall>a\<in>set (g_ases g). service_key (a_num a) ''br'' \<in> fst ` set kvs))"
  using assms
proof (induction ticks arbitrary: gn st)
  case (Cons tick ticks)
  obtain looks now where t: "tick = (looks, now)" by (cases tick)
  obtain gn1 st1 where s: "gen_step gn looks now st = (gn1, st1)" by fastforce
  let ?ps = "concat (map (\<lambda>lg. link_puts lg now) (gn_links gn1)) @ service_puts (g_ases g) now"
  note one = gen_step_puts [OF Cons.prems(1) s]
  obtain kvs where kvs: "st' = puts_all st1 kvs" "list_all (tick_put g) kvs"
    using Cons.IH [of gn1 st1] one Cons.prems(2) t s by auto
  have links: "set (map lg_link (gn_links gn1)) = set (g_links g)" using one by (simp add: gen_links_ok_def)
  have "list_all (tick_put g) ?ps"
    using one links by (fastforce simp: list_all_iff tick_put_def gen_links_ok_def)
  moreover have "up_key e \<in> fst ` set ?ps" if "l \<in> set (g_links g)" "e \<in> {l_a l, l_b l}" for l e
  proof -
    have "l \<in> lg_link ` set (gn_links gn1)" using that(1) links by simp
    then obtain lg where lg: "lg \<in> set (gn_links gn1)" "lg_link lg = l" by blast
    then have "up_key e \<in> fst ` set (link_puts lg now)" using that(2) by (auto simp: link_puts_def Let_def)
    then show ?thesis using lg(1) by auto
  qed
  moreover have "service_key (a_num a) ''br'' \<in> fst ` set ?ps" if "a \<in> set (g_ases g)" for a
    using that by (force simp: service_puts_def image_iff)
  moreover have "fst ` set (?ps @ kvs) = fst ` set ?ps \<union> fst ` set kvs" by (simp only: set_append image_Un)
  moreover have "st' = puts_all st (?ps @ kvs)" using one kvs(1) by (simp only: puts_all_simps(3))
  ultimately show ?case using kvs(2) by (intro exI [of _ "?ps @ kvs"]) (simp only: list_all_append Un_iff, blast)
qed (auto intro: exI [of _ "[]"] simp: puts_all_def)

lemma last_put:
  assumes "k \<in> fst ` set kvs" "\<forall>x. (k, x) \<in> set kvs \<longrightarrow> s_v x = v"
  shows "\<exists>x. store_last (puts_all (store_new c) kvs) k = Some x \<and> s_v x = v"
proof -
  let ?xs = "map snd (filter (\<lambda>p. fst p = k) kvs)"
  have "?xs \<noteq> []" using assms(1) by (auto simp: filter_empty_conv)
  moreover from this have "last ?xs \<in> set ?xs" by (rule last_in_set)
  then have "s_v (last ?xs) = v" using assms(2) by auto
  ultimately show ?thesis unfolding store_last_recent by (simp add: Let_def)
qed

text \<open>
  In mock mode the dashboard shows exactly the pinned link as down.  After any positive number of ticks into a fresh
  store, whatever the random draws and the shapes applied meanwhile, the health the deriver reads from the store is
  down for the link \<open>150-154\<close> and undisturbed (neither down nor stale) for every other link of the graph.
\<close>

theorem mock_gen_health:
  assumes "wf_graph g" "\<forall>l\<in>set (g_links g). {e_as (l_a l), e_as (l_b l)} \<subseteq> a_num ` set (g_ases g)"
    and "ticks \<noteq> []" "gen_run (gen_new g r) (store_new c) ticks = (gn, st)" "l \<in> set (g_links g)"
  shows "health st l = (if l_id l = ''150-154'' then Some Down else None)"
proof -
  obtain kvs where kvs: "st = puts_all (store_new c) kvs" "list_all (tick_put g) kvs"
    "\<forall>e\<in>{l_a l, l_b l}. up_key e \<in> fst ` set kvs" "\<forall>a\<in>set (g_ases g). service_key (a_num a) ''br'' \<in> fst ` set kvs"
    using gen_run_puts [OF gen_new_links assms(4)] assms(3,5) by blast
  have "\<exists>x. store_last st (up_key e) = Some x \<and> s_v x = (if l_id l = down_link then Fin 0 else Fin 1)" if "e \<in> {l_a l, l_b l}" for e
    unfolding kvs(1) using kvs(2,3) that tick_put_up [OF assms(1,5) that] by (intro last_put) (auto simp: list_all_iff)
  then have up: "up_zero st (up_key e) \<longleftrightarrow> l_id l = down_link" if "e \<in> {l_a l, l_b l}" for e
    using that unfolding up_zero_def by (metis (no_types, lifting) f64_eq_Fin option.simps(5) zero_neq_one)
  have "\<exists>x. store_last st (service_key (e_as e) ''br'') = Some x \<and> s_v x = Fin 1" if "e \<in> {l_a l, l_b l}" for e
  proof -
    have "service_key (e_as e) ''br'' \<in> fst ` set kvs" using kvs(4) assms(2,5) that by auto
    then show ?thesis unfolding kvs(1) using kvs(2) tick_put_service [of g "e_as e"] by (intro last_put) (auto simp: list_all_iff)
  qed
  then have "service_up st (e_as e) ''br''" if "e \<in> {l_a l, l_b l}" for e using that by (force simp: service_up_def)
  with up show ?thesis by (simp add: health_def down_link_def)
qed

theorem mock_gen_health_witness:
  "health (snd (gen_run (gen_new gen_graph gen_rng) (store_new 10) gen_ticks)) (gen_link 150 ''3'' 154 ''4'') = Some Down"
proof -
  have "wf_graph gen_graph" by code_simp
  moreover have "\<forall>l\<in>set (g_links gen_graph). {e_as (l_a l), e_as (l_b l)} \<subseteq> a_num ` set (g_ases gen_graph)"
    by (simp add: gen_graph_def gen_link_def)
  moreover have "l_id (gen_link 150 ''3'' 154 ''4'') = ''150-154''" by code_simp
  ultimately show ?thesis
    using mock_gen_health [of gen_graph gen_ticks gen_rng 10 _ _ "gen_link 150 ''3'' 154 ''4''"]
    by (cases "gen_run (gen_new gen_graph gen_rng) (store_new 10) gen_ticks") (simp add: gen_ticks_def gen_graph_def)
qed


text \<open>
  A negative rate passes through the mock controller unchecked (the testbed's own daemon rejects it); what the next step
  adds to the sending counter is then negative, so the hypothesis on the shapes above is needed.
\<close>

lemma negative_rate_subtracts:
  "mbit_to_bytes (capped (Some \<lparr>delay_ms = None, jitter_ms = None, loss_pct = None, rate_mbit = Some (Fin (- 8))\<rparr>) (Fin 1)) = Fin (- 1000000)"
  by code_simp

end
