(* ===== verification/Spec2Isabelle.thy ===== *)
theory Spec2Isabelle
  imports BgpPath LinkdMain AtomicFile Coalesce Prober LiveHub Fabricd ScrapeRun IdintRun MockTrace MockGen
begin

text \<open>
  Verification of the Go programs of a SCION demonstration testbed: \<^bold>\<open>fabricd\<close> (\<open>src/dashboard/backend\<close>), the
  dashboard server; \<^bold>\<open>linkd\<close> (\<open>src/linkd\<close>), the daemon in every AS container that shapes its links; and
  \<^bold>\<open>idint-probed\<close> (\<open>src/idint-probed\<close>), the sidecar that sends telemetry probes.  Paths below are relative to
  \<open>src\<close>; \<open>D\<close> stands for \<open>dashboard/backend/internal\<close>.

  \<^bold>\<open>How the parts work together.\<close>  At its start fabricd loads the interface files of all ASes into a graph of links
  (\<open>D/topo\<close>, theory FabricTopo).  The scraper (\<open>D/scrape\<close>, Scrape) fetches each AS's metrics and appends samples to
  ring buffers (\<open>D/store\<close>, SampleStore).  Every second the broadcaster (\<open>D/api\<close>, FabricApi and LiveHub) derives a
  frame from the store (\<open>D/derive\<close>, Derive and DeriveTrace), lays the current ID-INT trace (\<open>D/idint\<close>, Idint) and the
  BGP path between the same ASes (\<open>D/bgppath\<close>, BgpPath) over it and writes it to all WebSocket clients.  Every five
  seconds it polls the linkd daemons for shaping and BGP state (\<open>D/linkdclient\<close>, LinkdClient).  In mock mode \<open>D/mock\<close>
  stands in for the testbed: a controller (MockRoutes), a telemetry generator in place of the scraper (MockGen) and a
  prober (MockTrace).  Shaping requests go through the same controller interface to the
  linkd of each end of a link (\<open>linkd/internal/api\<close>, \<open>shape\<close>, \<open>topo\<close>: LinkdApi, LinkdReset, Shape, LinkdTopo); linkd
  also answers BGP state (\<open>bgpstatus\<close>, BgpStatus) and rewrites the control service's documents after each change
  (\<open>staticinfo\<close>, \<open>topowriter\<close>: MetaSync, Coalesce); its start is \<open>linkd/cmd/scion-linkd/main.go\<close> with \<open>config\<close> and
  \<open>baseline\<close> (LinkdMain).  The trace manager probes through idint-probed (Prober).  Attendees
  claim WireGuard confs and fetch bundles (\<open>D/api/join.go\<close>, \<open>bundle.go\<close>, \<open>instructions.go\<close>: JoinApi, ApiFiles) from a
  pool (\<open>D/wgpool\<close>, WgPool) behind a rate limiter (\<open>D/ratelimit\<close>, RateLimit over the address functions of NetIp), with
  addresses from \<open>D/scitramap\<close> (ScitraMap).  \<open>cmd/fabricd/main.go\<close> (Fabricd) wires all of it for a configuration.

  \<^bold>\<open>The library.\<close>  Prelude holds what every part shares: Go maps that are iterated as association lists, \<open>int64\<close>
  wrap-around, the functions of \<open>strings\<close>, \<open>strconv\<close> and \<open>net\<close> the code calls, and lemmas on maps filled by loops.
  Float64 models IEEE binary64 with rounding to nearest even on top of rationals (\<open>Fin\<close>, infinities, \<open>NaN\<close>, no signed
  zero), so that comparisons, sums and quotients in the code keep their rounding.  Strings are lists of bytes.
  Locales state the interfaces: \<open>netlink_kernel\<close> (what linkd relies on of the kernel's queueing disciplines), the
  \<open>controller\<close> that fabricd's API drives, with interpretations for the linkd client and for the mock, and the
  contracts of the storage parts; each is interpreted on the model's own operations.

  \<^bold>\<open>What is shown, by theory.\<close>
  \<^item> SampleStore: a ring always reads as the most recent samples in order; \<open>Series\<close> is exactly the stored samples since
    a time; \<open>Rate\<close> equals the counter's rate for increasing counters.
  \<^item> FabricTopo, LinkdTopo: the loaded links are exactly the interfaces whose remote address is the local address of an
    interface in a higher-numbered AS, each paired with that one; whether it names them back is not checked by the
    code.  Malformed files give the errors of the code, linkd's panic included.
  \<^item> Derive, DeriveTrace: the shown band is the last raw band seen three times in a row over any run of frames and
    polls; health overrides everything from the third frame on that sees it, whatever happens between the frames;
    classification is monotone in spite of rounding; observed baselines never rise.
  \<^item> BgpPath, MockRoutes: the walk along polled routes reaches the destination exactly if following the routes does;
    over the mock's breadth-first tables it is a shortest path around torn-down links.  Both loops
    end because no AS is visited twice.
  \<^item> MockTrace, MockGen: the search for mock paths ends and yields the shortest simple routes in order; a mock trace is
    drawn on exactly the links it took; synthetic values stay in their bounds, counters never decrease (for shapes the
    validation of linkd would accept) and exactly the pinned link shows as down.
  \<^item> WgPool, RateLimit, JoinApi, ApiFiles, NetIp, ScitraMap: no slot is issued twice, through failures and restarts; no
    window sees more claims per client than allowed; a conf is only ever sent for the booth code, and both hold for
    handlers that interleave; no instruction request leaves its directory; limiter keys are the IPv4 address or the
    IPv6 /64 of the client; mapped addresses have the documented layout.
  \<^item> FabricApi, LiveHub: the statuses of the control routes tell what happened at the ends of the link, and a refused
    request contacts nobody; the BGP overlay
    of a frame is the walk for the pair of the trace in the same frame; a client sees a snapshot first and then a run
    of the broadcast frames without gap or repetition, and a slow client cannot hold up the others.
  \<^item> Fabricd: a configuration never yields a half-enabled join surface; a saved baseline is never lost by crashes,
    saves that stop half-way or frames derived before a new process is seeded.
  \<^item> Shape, LinkdApi, LinkdReset: every request leaves a device clear or in a validated shape that fits the kernel's
    attributes; replies agree with the kernel; interfaces outside the topology are never touched.  A netem that someone
    else put at a device's root is where "cleared" is not the whole truth, and overlapping PUTs lose an update.
  \<^item> LinkdMain: a restart leaves every shaped interface alone and restores the profile of the clear ones, unless the
    kernel refuses; no profile file keeps the daemon from starting.
  \<^item> MetaSync, AtomicFile, Coalesce: what a write reports agrees with the file and the signal; whatever file call fails and
    wherever the process stops, readers see the old or the new document; calls are coalesced without losing
    one, at a bounded rate.  Two schedules in which the documents end up stale are proved reachable.
  \<^item> IdintRun: the trace loop never has two probes in flight and its guard never gets stuck; its runs are among the
    interleavings for which Idint shows the view consistent.
  \<^item> BgpStatus, LinkdClient, Idint, Prober, Scrape: the route parser finds the fabric routes of a table dump among all
    its other lines; the cache answers with the last successful refresh and survives a failing birdc; polls, applies
    and probes attribute every answer to the right link, in every error case; the status of a probe is that of the
    stage it ended in; a trace result is only shown for the session that asked for it; readings that are not numbers
    are never stored.
  \<^item> ScrapeRun: however the scraper's goroutines interleave, the store ends up as if targets were scraped in turn.

  \<^bold>\<open>Concurrency.\<close>  An operation under a mutex is one step, and so is a handler of linkd, which has no lock; LinkdReset
  takes a PUT apart and shows what two overlapping ones leave.  Where code releases a lock or starts goroutines
  (the probe of a trace session, the coalescer, the claim handler, the poll, the hub's broadcast, the daemon's cached
  snapshot) the model has one step per critical section and the theorems quantify over all interleavings.

  \<^bold>\<open>Termination.\<close>  There is no fuel: loops over data are structural or carry a measure, which for the breadth-first
  search and the route walk counts the ASes not visited yet; the mock's path search is \<open>while_option\<close>, with the theorem
  that it returns.

  \<^bold>\<open>Not modelled.\<close>  The network (HTTP, WebSocket, SCION sockets), the netlink library and the kernel, \<open>birdc\<close>,
  \<open>systemctl\<close>, JSON and TOML codecs, gzip and tar, the Prometheus text parser and the file system are parameters with
  explicit outcomes; so are the random draws of mock mode.  Routing of requests to handlers (\<open>net/http\<close>'s patterns),
  logging, signal delivery and tickers are left out; a ticker's
  next tick is a step that may happen at any time.  Of idint-probed, \<open>main.go\<close> and \<open>Connect\<close> only parse two flags and
  call the SCION library.  The web frontend, the Ansible playbooks, the shell and Python
  tools of the repository and the tests are not Go programs of the system and are not modelled.
\<close>

end
